(* ===== verification/Rt_Prelude.thy ===== *)
theory Rt_Prelude
  imports Main "HOL-Library.Word" "HOL-Library.AList" "HOL-Library.Multiset"
    "HOL-Library.Code_Target_Nat"
begin

text \<open>
  Shared ground of the development: machine integers with Rust's saturating, checked
  and truncating operations, \<open>std::collections::HashMap\<close> as an association list whose
  list order stands for the iteration order, the interface \<open>keyed_store\<close> that the
  clients of a map rely on, and generic lemmas on lists that the components share.
\<close>

section \<open>Collections of facts\<close>

named_theorems word_arith \<open>unsigned readings of the saturating and checked operations\<close>
named_theorems hm_simps \<open>rewriting of hash map operations\<close>
named_theorems hm_intros \<open>preservation of the hash map's key discipline\<close>

section \<open>Machine integers\<close>

type_synonym u8 = "8 word"
type_synonym u32 = "32 word"
type_synonym u64 = "64 word"
type_synonym u128 = "128 word"
type_synonym usize = "64 word"

text \<open>
  \<open>Instant\<close> and \<open>Duration\<close> are counts of nanoseconds; \<open>Instant::duration_since\<close>
  saturates at zero when the argument is later, which is subtraction on \<open>nat\<close>.
\<close>

type_synonym instant = nat
type_synonym duration = nat

definition duration_since :: "instant \<Rightarrow> instant \<Rightarrow> duration" where
  "duration_since now t = now - t"

definition from_secs :: "nat \<Rightarrow> duration" where
  "from_secs s = s * 1000000000"

text \<open>Rust's \<open>saturating_add\<close>, \<open>saturating_sub\<close> and \<open>checked_add\<close>.\<close>

definition saturating_add :: "'a::len word \<Rightarrow> 'a word \<Rightarrow> 'a word" where
  "saturating_add a b = (if unat a + unat b < 2 ^ LENGTH('a) then a + b else - 1)"

definition saturating_sub :: "'a::len word \<Rightarrow> 'a word \<Rightarrow> 'a word" where
  "saturating_sub a b = (if a < b then 0 else a - b)"

definition checked_add :: "'a::len word \<Rightarrow> 'a word \<Rightarrow> 'a word option" where
  "checked_add a b = (if unat a + unat b < 2 ^ LENGTH('a) then Some (a + b) else None)"

text \<open>\<open>n as u32\<close> truncates; \<open>u32::try_from(n).unwrap_or(d)\<close> does not.\<close>

definition as_u32 :: "nat \<Rightarrow> u32" where
  "as_u32 n = of_nat n"

definition u32_try_from_or :: "u32 \<Rightarrow> nat \<Rightarrow> u32" where
  "u32_try_from_or d n = (if n < 2 ^ 32 then of_nat n else d)"

lemma unat_max_word [word_arith]: "unat (- 1 :: 'a::len word) = 2 ^ LENGTH('a) - 1"
  by transfer (simp add: take_bit_minus_one_eq_mask mask_eq_exp_minus_1 nat_diff_distrib nat_power_eq)

lemma unat_u32_bound: "unat (a :: u32) < 4294967296"
  using unsigned_less [where 'a = nat, of a] by simp

lemma unat_u64_bound: "unat (a :: u64) < 18446744073709551616"
  using unsigned_less [where 'a = nat, of a] by simp

lemma unat_add_no_wrap:
  "unat a + unat b < 2 ^ LENGTH('a) \<Longrightarrow> unat (a + b :: 'a::len word) = unat a + unat b"
  by (simp add: unat_word_ariths)

lemma unat_saturating_add [word_arith]:
  "unat (saturating_add a b :: 'a::len word) = min (unat a + unat b) (2 ^ LENGTH('a) - 1)"
  by (auto simp: saturating_add_def unat_add_no_wrap unat_max_word min_def)

lemma unat_saturating_sub [word_arith]: "unat (saturating_sub a b) = unat a - unat b"
  by (simp add: saturating_sub_def word_less_nat_alt unat_sub word_le_nat_alt)

lemma unat_checked_add [word_arith]:
  "checked_add a b = Some c \<Longrightarrow> unat (c :: 'a::len word) = unat a + unat b"
  by (auto simp: checked_add_def unat_add_no_wrap split: if_splits)

lemma unat_of_nat_small: "n < 2 ^ LENGTH('a) \<Longrightarrow> unat (of_nat n :: 'a::len word) = n"
  by (simp add: unat_of_nat)

lemma unat_u32_try_from_or:
  "n < 2 ^ 32 \<Longrightarrow> unat (u32_try_from_or d n) = n"
  by (simp add: u32_try_from_or_def unat_of_nat)

lemma unat_as_u32: "n < 2 ^ 32 \<Longrightarrow> unat (as_u32 n) = n"
  by (simp add: as_u32_def unat_of_nat)

lemma unat_succ_no_wrap:
  "unat a < 2 ^ LENGTH('a) - 1 \<Longrightarrow> unat (a + 1 :: 'a::len word) = Suc (unat a)"
  by (subst unat_add_no_wrap) auto

lemma unat_pred_no_wrap: "0 < unat a \<Longrightarrow> unat (a - 1 :: 'a::len word) = unat a - 1"
  by (metis One_nat_def Suc_leI unat_1 unat_sub word_le_nat_alt)

section \<open>The interface of a keyed store\<close>

text \<open>
  What the runtime relies on whenever it keeps values by key: a lookup sees the last
  insertion, a removal forgets exactly its key, and both keep the invariant.
\<close>

locale keyed_store =
  fixes get :: "'m \<Rightarrow> 'k \<Rightarrow> 'v option"
    and ins :: "'m \<Rightarrow> 'k \<Rightarrow> 'v \<Rightarrow> 'm"
    and del :: "'m \<Rightarrow> 'k \<Rightarrow> 'm"
    and invar :: "'m \<Rightarrow> bool"
  assumes get_ins: "invar m \<Longrightarrow> get (ins m k v) k' = (if k' = k then Some v else get m k')"
    and get_del: "invar m \<Longrightarrow> get (del m k) k' = (if k' = k then None else get m k')"
    and invar_ins: "invar m \<Longrightarrow> invar (ins m k v)"
    and invar_del: "invar m \<Longrightarrow> invar (del m k)"
begin

lemma get_ins_same: "invar m \<Longrightarrow> get (ins m k v) k = Some v"
  by (simp add: get_ins)

lemma get_del_ins: "invar m \<Longrightarrow> get m k = None \<Longrightarrow> get (del (ins m k v) k) = get m"
  by (rule ext) (simp add: get_ins get_del invar_ins)

lemma dom_ins: "invar m \<Longrightarrow> dom (get (ins m k v)) = insert k (dom (get m))"
  by (auto simp: get_ins dom_def split: if_splits)

lemma dom_del: "invar m \<Longrightarrow> dom (get (del m k)) = dom (get m) - {k}"
  by (auto simp: get_del dom_def split: if_splits)

lemma ins_commute:
  "invar m \<Longrightarrow> k \<noteq> l \<Longrightarrow> get (ins (ins m k v) l w) = get (ins (ins m l w) k v)"
  by (rule ext) (simp add: get_ins invar_ins)

end

section \<open>\<open>std::collections::HashMap\<close>\<close>

text \<open>
  A hash map is its list of entries in iteration order, with distinct keys.
  \<open>get_mut\<close> followed by a write is \<open>hm_modify\<close>, and a loop over \<open>values_mut\<close>
  that treats every value on its own is \<open>hm_map\<close>.
\<close>

type_synonym ('k, 'v) hashmap = "('k \<times> 'v) list"

definition hm_wf :: "('k, 'v) hashmap \<Rightarrow> bool" where
  "hm_wf m = distinct (map fst m)"

definition hm_get :: "('k, 'v) hashmap \<Rightarrow> 'k \<Rightarrow> 'v option" where
  "hm_get m k = map_of m k"

definition hm_contains :: "('k, 'v) hashmap \<Rightarrow> 'k \<Rightarrow> bool" where
  "hm_contains m k = (hm_get m k \<noteq> None)"

definition hm_insert :: "('k, 'v) hashmap \<Rightarrow> 'k \<Rightarrow> 'v \<Rightarrow> ('k, 'v) hashmap" where
  "hm_insert m k v = AList.update k v m"

definition hm_remove :: "('k, 'v) hashmap \<Rightarrow> 'k \<Rightarrow> ('k, 'v) hashmap" where
  "hm_remove m k = AList.delete k m"

definition hm_values :: "('k, 'v) hashmap \<Rightarrow> 'v list" where
  "hm_values m = map snd m"

definition hm_map :: "('k, 'v) hashmap \<Rightarrow> ('k \<Rightarrow> 'v \<Rightarrow> 'v) \<Rightarrow> ('k, 'v) hashmap" where
  "hm_map m f = map (\<lambda>(k, v). (k, f k v)) m"

definition hm_modify :: "('k, 'v) hashmap \<Rightarrow> 'k \<Rightarrow> ('v \<Rightarrow> 'v) \<Rightarrow> ('k, 'v) hashmap" where
  "hm_modify m k f = hm_map m (\<lambda>k' v. if k' = k then f v else v)"

lemma hm_get_Nil [simp]: "hm_get [] k = None"
  by (simp add: hm_get_def)

lemma hm_wf_Nil [simp]: "hm_wf []"
  by (simp add: hm_wf_def)

lemma hm_get_insert [hm_simps]:
  "hm_get (hm_insert m k v) k' = (if k' = k then Some v else hm_get m k')"
  by (simp add: hm_get_def hm_insert_def update_conv')

lemma hm_get_remove [hm_simps]:
  "hm_get (hm_remove m k) k' = (if k' = k then None else hm_get m k')"
  by (simp add: hm_get_def hm_remove_def delete_conv')

lemma hm_get_map [hm_simps]: "hm_get (hm_map m f) k = map_option (f k) (hm_get m k)"
  by (induction m) (auto simp: hm_get_def hm_map_def)

lemma hm_get_modify [hm_simps]:
  "hm_get (hm_modify m k f) k' =
     (if k' = k then map_option f (hm_get m k') else hm_get m k')"
  by (auto simp: hm_modify_def hm_get_map option.map_id map_option_case split: option.splits)

lemma hm_contains_insert [hm_simps]:
  "hm_contains (hm_insert m k v) k' = (k' = k \<or> hm_contains m k')"
  by (simp add: hm_contains_def hm_get_insert)

lemma hm_wf_insert [hm_intros]: "hm_wf m \<Longrightarrow> hm_wf (hm_insert m k v)"
  by (simp add: hm_wf_def hm_insert_def distinct_update)

lemma hm_wf_remove [hm_intros]: "hm_wf m \<Longrightarrow> hm_wf (hm_remove m k)"
  by (simp add: hm_wf_def hm_remove_def distinct_delete)

lemma hm_keys_map [hm_simps]: "map fst (hm_map m f) = map fst m"
  by (simp add: hm_map_def case_prod_beta comp_def)

lemma hm_keys_modify [hm_simps]: "map fst (hm_modify m k f) = map fst m"
  by (simp add: hm_modify_def hm_keys_map)

lemma hm_wf_map [hm_intros]: "hm_wf m \<Longrightarrow> hm_wf (hm_map m f)"
  by (simp add: hm_wf_def hm_keys_map)

lemma hm_wf_modify [hm_intros]: "hm_wf m \<Longrightarrow> hm_wf (hm_modify m k f)"
  by (simp add: hm_wf_def hm_keys_modify)

lemma length_hm_map [hm_simps]: "length (hm_map m f) = length m"
  by (simp add: hm_map_def)

lemma length_hm_modify [hm_simps]: "length (hm_modify m k f) = length m"
  by (simp add: hm_modify_def length_hm_map)

lemma hm_get_iff_mem: "hm_wf m \<Longrightarrow> hm_get m k = Some v \<longleftrightarrow> (k, v) \<in> set m"
  by (simp add: hm_wf_def hm_get_def)

lemma hm_get_None_iff: "hm_get m k = None \<longleftrightarrow> k \<notin> set (map fst m)"
  by (simp add: hm_get_def map_of_eq_None_iff)

lemma set_hm_values: "hm_wf m \<Longrightarrow> v \<in> set (hm_values m) \<longleftrightarrow> (\<exists>k. hm_get m k = Some v)"
  by (force simp: hm_values_def hm_get_iff_mem)

lemma length_hm_insert_new: "hm_get m k = None \<Longrightarrow> length (hm_insert m k v) = Suc (length m)"
  by (induction m) (auto simp: hm_get_def hm_insert_def split: if_splits)

text \<open>The defining equations, for evaluating an operation on a concrete table.\<close>

lemmas hm_eval =
  hm_get_def hm_contains_def hm_insert_def hm_remove_def hm_values_def hm_map_def hm_modify_def

interpretation hm: keyed_store hm_get hm_insert hm_remove hm_wf
  by unfold_locales (simp_all add: hm_simps hm_intros)

section \<open>Event machines\<close>

text \<open>
  A component driven by calls is a state and a function that applies one call. Its
  invariant is kept by every call whose guard holds (a fresh identity, a clock that
  does not run backwards), hence by every guarded run of calls.
\<close>

fun guarded_run :: "('e \<Rightarrow> 's \<Rightarrow> bool) \<Rightarrow> ('e \<Rightarrow> 's \<Rightarrow> 's) \<Rightarrow> 'e list \<Rightarrow> 's \<Rightarrow> bool" where
  "guarded_run g ap [] s = True"
| "guarded_run g ap (e # es) s = (g e s \<and> guarded_run g ap es (ap e s))"

lemma guarded_run_append:
  "guarded_run g ap (es @ fs) s = (guarded_run g ap es s \<and> guarded_run g ap fs (fold ap es s))"
  by (induction es arbitrary: s) auto

locale event_machine =
  fixes guard :: "'e \<Rightarrow> 's \<Rightarrow> bool"
    and apply_event :: "'e \<Rightarrow> 's \<Rightarrow> 's"
    and inv :: "'s \<Rightarrow> bool"
  assumes step_inv: "inv s \<Longrightarrow> guard e s \<Longrightarrow> inv (apply_event e s)"
begin

lemma run_inv: "inv s \<Longrightarrow> guarded_run guard apply_event es s \<Longrightarrow> inv (fold apply_event es s)"
  by (induction es arbitrary: s) (auto intro: step_inv)

lemma run_inv_prefix:
  assumes "inv s" and "guarded_run guard apply_event (es @ fs) s"
  shows "inv (fold apply_event es s)"
  using assms by (auto simp: guarded_run_append intro: run_inv)

end

text \<open>
  A component whose calls also answer: a run collects the answers. A component refines
  a specification when, call by call, it answers as the specification does and its
  abstraction moves as the specification does; guards are stated on the specification.
\<close>

fun run_steps :: "('e \<Rightarrow> 's \<Rightarrow> 'o \<times> 's) \<Rightarrow> 'e list \<Rightarrow> 's \<Rightarrow> 'o list \<times> 's" where
  "run_steps st [] s = ([], s)"
| "run_steps st (e # es) s =
     (let (o1, s1) = st e s; (os, s2) = run_steps st es s1 in (o1 # os, s2))"

fun guarded_steps :: "('e \<Rightarrow> 's \<Rightarrow> bool) \<Rightarrow> ('e \<Rightarrow> 's \<Rightarrow> 'o \<times> 's) \<Rightarrow> 'e list \<Rightarrow> 's \<Rightarrow> bool" where
  "guarded_steps g st [] s = True"
| "guarded_steps g st (e # es) s = (g e s \<and> guarded_steps g st es (snd (st e s)))"

locale simulation =
  fixes guard :: "'e \<Rightarrow> 'a \<Rightarrow> bool"
    and conc :: "'e \<Rightarrow> 's \<Rightarrow> 'o \<times> 's"
    and spec :: "'e \<Rightarrow> 'a \<Rightarrow> 'o \<times> 'a"
    and abs :: "'s \<Rightarrow> 'a"
    and inv :: "'s \<Rightarrow> bool"
  assumes step_refines: "inv s \<Longrightarrow> guard e (abs s) \<Longrightarrow>
      fst (conc e s) = fst (spec e (abs s)) \<and> abs (snd (conc e s)) = snd (spec e (abs s))
      \<and> inv (snd (conc e s))"
begin

lemma run_refines:
  "inv s \<Longrightarrow> guarded_steps guard spec es (abs s) \<Longrightarrow>
     fst (run_steps conc es s) = fst (run_steps spec es (abs s))
     \<and> abs (snd (run_steps conc es s)) = snd (run_steps spec es (abs s))
     \<and> inv (snd (run_steps conc es s))"
proof (induction es arbitrary: s)
  case (Cons e es)
  then show ?case using step_refines [of s e] by (simp add: case_prod_beta Let_def)
qed simp

end

section \<open>Lists\<close>

lemma filter_filter_subset:
  "(\<And>x. x \<in> set xs \<Longrightarrow> P x \<Longrightarrow> Q x) \<Longrightarrow> filter P (filter Q xs) = filter P xs"
  by (induction xs) auto

lemma length_filter_mono:
  "(\<And>x. x \<in> set xs \<Longrightarrow> P x \<Longrightarrow> Q x) \<Longrightarrow> length (filter P xs) \<le> length (filter Q xs)"
  by (induction xs) auto

lemma length_filter_partition3:
  assumes "\<And>x. x \<in> set xs \<Longrightarrow> (P x \<or> Q x \<or> R x) \<and> \<not> (P x \<and> Q x) \<and> \<not> (P x \<and> R x) \<and> \<not> (Q x \<and> R x)"
  shows "length (filter P xs) + length (filter Q xs) + length (filter R xs) = length xs"
  using assms by (induction xs) auto

end
