(* ===== verification/Core_Types.thy ===== *)
theory Core_Types
  imports Rt_Prelude
begin

text \<open>
  The vocabulary every component shares: actor identities, messages and priorities
  (\<open>src/lib.rs\<close>), errors (\<open>src/error.rs\<close>), and the two plug points the host
  fills in, the executor (\<open>src/executor.rs\<close>) and the admission policy
  (\<open>src/policy.rs\<close>), with the implementations the crate ships for them.
\<close>

section \<open>Identities and text\<close>

text \<open>
  \<open>ActorId\<close> wraps a 128-bit UUID. \<open>Uuid::new_v4\<close> is outside the repository: an
  operation that mints an identity takes the minted one as an argument.
\<close>

datatype actor_id = ActorId u128

text \<open>
  A Rust \<open>String\<close> built by \<open>format!\<close> keeps its holes symbolic: literal text, a
  decimal number, the \<open>Debug\<close> rendering of an identity or of another string.
\<close>

datatype frag = Str string | Num nat | DbgId actor_id | DbgString "frag list"

type_synonym rust_string = "frag list"

section \<open>Errors\<close>

datatype error =
    Actor rust_string
  | ResourceExhausted rust_string
  | Serialization rust_string
  | Internal rust_string

type_synonym 'a result = "error + 'a"

abbreviation Ok :: "'a \<Rightarrow> 'a result" where
  "Ok x \<equiv> Inr x"

abbreviation Err :: "error \<Rightarrow> 'a result" where
  "Err e \<equiv> Inl e"

definition is_ok :: "'a result \<Rightarrow> bool" where
  "is_ok r = (case r of Inl _ \<Rightarrow> False | Inr _ \<Rightarrow> True)"

lemma is_ok_simps [simp]: "is_ok (Ok x)" "\<not> is_ok (Err e)"
  by (simp_all add: is_ok_def)

section \<open>Messages and priorities\<close>

datatype priority = Low | Normal | High | Critical

primrec priority_rank :: "priority \<Rightarrow> nat" where
  "priority_rank Low = 0"
| "priority_rank Normal = 1"
| "priority_rank High = 2"
| "priority_rank Critical = 3"

text \<open>The derived \<open>Ord\<close> compares the discriminants.\<close>

instantiation priority :: linorder
begin

definition less_eq_priority :: "priority \<Rightarrow> priority \<Rightarrow> bool" where
  "less_eq_priority p q = (priority_rank p \<le> priority_rank q)"

definition less_priority :: "priority \<Rightarrow> priority \<Rightarrow> bool" where
  "less_priority p q = (priority_rank p < priority_rank q)"

instance
proof
  fix p q r :: priority
  show "p < q \<longleftrightarrow> p \<le> q \<and> \<not> q \<le> p"
    by (auto simp: less_eq_priority_def less_priority_def)
  show "p \<le> p"
    by (simp add: less_eq_priority_def)
  show "p \<le> q \<Longrightarrow> q \<le> r \<Longrightarrow> p \<le> r"
    by (simp add: less_eq_priority_def)
  show "p \<le> q \<Longrightarrow> q \<le> p \<Longrightarrow> p = q"
    by (cases p; cases q) (simp_all add: less_eq_priority_def)
  show "p \<le> q \<or> q \<le> p"
    by (auto simp: less_eq_priority_def)
qed

end

lemma High_le_iff: "High \<le> p \<longleftrightarrow> p = High \<or> p = Critical"
  by (cases p) (simp_all add: less_eq_priority_def)

datatype signal = Pause | Resume | Restart

datatype message_payload =
    Start
  | Stop
  | Custom "u8 list"
  | Signal signal
  | Empty

record message =
  sender :: "actor_id option"
  payload :: message_payload
  priority :: priority

definition Message_default :: message where
  "Message_default = \<lparr>sender = None, payload = Empty, priority = Normal\<rparr>"

section \<open>The executor plug point\<close>

datatype execution_result =
    Success u64 "u8 list option"
  | FuelExhausted u64
  | ExecFailed rust_string
  | NotReady

text \<open>
  \<open>ActorExecutor\<close> is a trait object: a host-supplied \<open>execute\<close> over the host's own
  state. A call either returns or panics, and what it did to its state before a panic
  stays done.
\<close>

datatype exec_outcome = Returned execution_result | Panicked

record 'e executor =
  execute :: "'e \<Rightarrow> actor_id \<Rightarrow> message \<Rightarrow> exec_outcome \<times> 'e"
  is_ready :: "'e \<Rightarrow> actor_id \<Rightarrow> bool"
  get_fuel :: "'e \<Rightarrow> actor_id \<Rightarrow> u64 option"
  reset :: "'e \<Rightarrow> actor_id \<Rightarrow> unit result \<times> 'e"

text \<open>\<open>NullExecutor\<close> counts its calls and always succeeds.\<close>

definition NullExecutor_new :: u64 where
  "NullExecutor_new = 0"

definition NullExecutor_execute :: "u64 \<Rightarrow> actor_id \<Rightarrow> message \<Rightarrow> exec_outcome \<times> u64" where
  "NullExecutor_execute call_count _ _ = (Returned (Success 0 None), call_count + 1)"

definition NullExecutor :: "u64 executor" where
  "NullExecutor =
     \<lparr>execute = NullExecutor_execute,
      is_ready = (\<lambda>_ _. True),
      get_fuel = (\<lambda>_ _. Some 1000000),
      reset = (\<lambda>c _. (Ok (), c))\<rparr>"

section \<open>The admission policy plug point\<close>

text \<open>\<open>ResourcePolicy\<close> is a trait object over the host's own state.\<close>

record 'p resource_policy =
  admit_actor :: "'p \<Rightarrow> unit result \<times> 'p"
  release_actor :: "'p \<Rightarrow> 'p"
  admit_message :: "'p \<Rightarrow> usize \<Rightarrow> unit result \<times> 'p"

text \<open>The default methods of the trait, which \<open>NoopPolicy\<close> inherits unchanged.\<close>

definition NoopPolicy :: "'p resource_policy" where
  "NoopPolicy =
     \<lparr>admit_actor = (\<lambda>p. (Ok (), p)),
      release_actor = (\<lambda>p. p),
      admit_message = (\<lambda>p count. (Ok (), p))\<rparr>"

end
