(* ===== verification/Floats.thy ===== *)
theory Floats
  imports Rt_Prelude
begin

text \<open>
  The part of Rust's \<open>f32\<close> and \<open>f64\<close> that the runtime computes with: IEEE 754 binary
  floating point as dyadic numbers \<open>m * 2 ^ e\<close> with one rounding to nearest, ties to
  even, per operation; conversion from an unsigned integer rounds and conversion back
  truncates and saturates, as Rust's \<open>as\<close> does. The sign of zero is not represented.
\<close>

section \<open>Formats and rounding\<close>

datatype float = NaN | Infinite bool | Fin int int

text \<open>Precision in bits, the exponent of the least subnormal, and the overflow exponent.\<close>

record float_format =
  prec :: nat
  emin :: int
  emax :: int

definition f32 :: float_format where
  "f32 = \<lparr>prec = 24, emin = - 149, emax = 128\<rparr>"

definition f64 :: float_format where
  "f64 = \<lparr>prec = 53, emin = - 1074, emax = 1024\<rparr>"

fun bit_len :: "nat \<Rightarrow> nat" where
  "bit_len n = (if n = 0 then 0 else Suc (bit_len (n div 2)))"

declare bit_len.simps [simp del]

text \<open>Division by \<open>2 ^ s\<close> with ties to even.\<close>

definition round_shift :: "int \<Rightarrow> nat \<Rightarrow> int" where
  "round_shift m s =
     (let q = m div 2 ^ s; r = m mod 2 ^ s
      in if 2 * r < 2 ^ s then q
         else if 2 * r > 2 ^ s then q + 1
         else if even q then q else q + 1)"

definition float_round :: "float_format \<Rightarrow> int \<Rightarrow> int \<Rightarrow> float" where
  "float_round F m e =
     (let s = max (int (bit_len (nat \<bar>m\<bar>)) - int (prec F)) (emin F - e);
          (m', e') = (if s \<le> 0 then (m, e) else (round_shift m (nat s), e + s))
      in if m' \<noteq> 0 \<and> int (bit_len (nat \<bar>m'\<bar>)) + e' > emax F then Infinite (m' < 0) else Fin m' e')"

definition float_of_nat :: "float_format \<Rightarrow> nat \<Rightarrow> float" where
  "float_of_nat F n = float_round F (int n) 0"

fun float_mul :: "float_format \<Rightarrow> float \<Rightarrow> float \<Rightarrow> float" where
  "float_mul F (Fin m e) (Fin n f) = float_round F (m * n) (e + f)"
| "float_mul F (Infinite s) (Infinite t) = Infinite (s \<noteq> t)"
| "float_mul F (Infinite s) (Fin n f) = (if n = 0 then NaN else Infinite (s \<noteq> (n < 0)))"
| "float_mul F (Fin m e) (Infinite t) = (if m = 0 then NaN else Infinite (t \<noteq> (m < 0)))"
| "float_mul F _ _ = NaN"

text \<open>
  Division, to two bits beyond the precision and one that says whether anything is left,
  which is all that the rounding looks at.
\<close>

fun float_div :: "float_format \<Rightarrow> float \<Rightarrow> float \<Rightarrow> float" where
  "float_div F (Fin m e) (Fin n f) =
     (if n = 0 then (if m = 0 then NaN else Infinite (m < 0))
      else let k = prec F + bit_len (nat \<bar>n\<bar>) + 2;
               a = \<bar>m\<bar> * 2 ^ k; q = 2 * (a div \<bar>n\<bar>) + of_bool (a mod \<bar>n\<bar> \<noteq> 0)
           in float_round F (sgn m * sgn n * q) (e - f - int k - 1))"
| "float_div F (Infinite s) (Fin n f) = Infinite (s \<noteq> (n < 0))"
| "float_div F (Fin m e) (Infinite t) = Fin 0 0"
| "float_div F _ _ = NaN"

text \<open>The integer part of a nonnegative dyadic number, and \<open>as usize\<close>.\<close>

definition dyadic_floor :: "int \<Rightarrow> int \<Rightarrow> int" where
  "dyadic_floor m e = (if 0 \<le> e then m * 2 ^ nat e else m div 2 ^ nat (- e))"

fun float_as_usize :: "float \<Rightarrow> usize" where
  "float_as_usize NaN = 0"
| "float_as_usize (Infinite s) = (if s then 0 else - 1)"
| "float_as_usize (Fin m e) =
     (if m \<le> 0 then 0
      else if dyadic_floor m e < 2 ^ 64 then of_int (dyadic_floor m e) else - 1)"

text \<open>\<open>Ord\<close>-free comparison, false on \<open>NaN\<close>.\<close>

definition dyadic_less :: "int \<Rightarrow> int \<Rightarrow> int \<Rightarrow> int \<Rightarrow> bool" where
  "dyadic_less m e n f =
     (let k = min e f in m * 2 ^ nat (e - k) < n * 2 ^ nat (f - k))"

fun float_less :: "float \<Rightarrow> float \<Rightarrow> bool" where
  "float_less (Fin m e) (Fin n f) = dyadic_less m e n f"
| "float_less (Infinite s) (Infinite t) = (s \<and> \<not> t)"
| "float_less (Infinite s) (Fin _ _) = s"
| "float_less (Fin _ _) (Infinite t) = (\<not> t)"
| "float_less _ _ = False"

text \<open>\<open>f64::clamp\<close> keeps \<open>NaN\<close>.\<close>

definition float_clamp :: "float \<Rightarrow> float \<Rightarrow> float \<Rightarrow> float" where
  "float_clamp lo hi x = (if float_less x lo then lo else if float_less hi x then hi else x)"

section \<open>Bounds\<close>

lemma bit_len_bounds: "0 < n \<Longrightarrow> 2 ^ (bit_len n - 1) \<le> n \<and> n < 2 ^ bit_len n"
proof (induction n rule: bit_len.induct)
  case (1 n)
  show ?case
  proof (cases "n div 2 = 0")
    case True
    with 1 have "n = 1" by auto
    then show ?thesis by (simp add: bit_len.simps)
  next
    case False
    with 1 have IH: "2 ^ (bit_len (n div 2) - 1) \<le> n div 2" "n div 2 < 2 ^ bit_len (n div 2)"
      by auto
    have eq: "bit_len n = Suc (bit_len (n div 2))" using 1(2) by (simp add: bit_len.simps [of n])
    have pos: "0 < bit_len (n div 2)" using False by (simp add: bit_len.simps [of "n div 2"])
    have "(2 :: nat) ^ bit_len (n div 2) = 2 * 2 ^ (bit_len (n div 2) - 1)"
      using pos by (cases "bit_len (n div 2)") auto
    with IH have "2 ^ bit_len (n div 2) \<le> n" by linarith
    moreover have "n < 2 * 2 ^ bit_len (n div 2)" using IH(2) by linarith
    ultimately show ?thesis by (simp add: eq)
  qed
qed

lemma bit_len_le: "n < 2 ^ k \<Longrightarrow> bit_len n \<le> k"
proof (rule ccontr)
  assume n: "n < 2 ^ k" and "\<not> bit_len n \<le> k"
  then have k: "k \<le> bit_len n - 1" by simp
  with \<open>\<not> bit_len n \<le> k\<close> have "0 < n" by (cases n) (auto simp: bit_len.simps)
  then have "2 ^ (bit_len n - 1) \<le> n" using bit_len_bounds by blast
  moreover have "(2 :: nat) ^ k \<le> 2 ^ (bit_len n - 1)" using k by simp
  ultimately show False using n by linarith
qed

lemma div_pow_le: "m \<le> N * 2 ^ k \<Longrightarrow> m div 2 ^ k \<le> (N :: int)"
  using zdiv_mono1 [of m "N * 2 ^ k" "2 ^ k"] by simp

lemma round_shift_le:
  assumes m: "m \<le> K * 2 ^ s"
  shows "round_shift m s \<le> K"
proof (cases "m div 2 ^ s = K")
  case True
  have "K * 2 ^ s + m mod 2 ^ s = m" using div_mult_mod_eq [of m "2 ^ s"] True by simp
  moreover have "0 \<le> m mod 2 ^ s" by simp
  ultimately have "m mod 2 ^ s = 0" using m by linarith
  then show ?thesis using True by (simp add: round_shift_def)
next
  case False
  then show ?thesis using div_pow_le [OF m] by (simp add: round_shift_def Let_def)
qed

lemma round_shift_nonneg: "0 \<le> m \<Longrightarrow> 0 \<le> round_shift m s"
  by (auto simp: round_shift_def Let_def pos_imp_zdiv_nonneg_iff intro: add_nonneg_nonneg)

lemma float_of_nat_exact:
  assumes "n < 2 ^ prec F" and "emin F \<le> 0" and "int (prec F) \<le> emax F"
  shows "float_of_nat F n = Fin (int n) 0"
  using bit_len_le [OF assms(1)] assms(2,3) by (simp add: float_of_nat_def float_round_def Let_def)

text \<open>
  A nonnegative dyadic number that is at most an integer of the format's precision is
  never rounded above that integer: the rounding grid contains it.
\<close>

lemma round_grid_nonpos:
  assumes n: "n < 2 ^ prec F" and m: "0 \<le> m" "m \<le> int n * 2 ^ k" and F: "emin F \<le> 0"
    and s: "s = max (int (bit_len (nat \<bar>m\<bar>)) - int (prec F)) (emin F + int k)" "0 < s"
  shows "s \<le> int k"
proof (rule ccontr)
  assume "\<not> s \<le> int k"
  then have big: "k < nat s" and sb: "s = int (bit_len (nat m)) - int (prec F)"
    using F m(1) s(1) by (auto simp: max_def split: if_splits)
  have "0 < nat m" using s(2) sb by (cases "nat m") (auto simp: bit_len.simps)
  then have "2 ^ (bit_len (nat m) - 1) \<le> nat m" using bit_len_bounds by blast
  moreover have "prec F + k \<le> bit_len (nat m) - 1" using big sb by linarith
  then have "(2 :: nat) ^ (prec F + k) \<le> 2 ^ (bit_len (nat m) - 1)" by simp
  moreover have "nat m \<le> n * 2 ^ k" using m(2) by (simp add: nat_le_iff)
  ultimately have "2 ^ (prec F + k) \<le> n * (2 :: nat) ^ k" by (meson order_trans)
  then show False using n by (simp add: power_add)
qed

lemma float_round_le:
  assumes n: "n < 2 ^ prec F" and m: "0 \<le> m" "m \<le> int n * 2 ^ k"
    and F: "emin F \<le> 0" "int (prec F) \<le> emax F"
  shows "\<exists>m' j. float_round F m (- int k) = Fin m' (- int j) \<and> 0 \<le> m' \<and> m' \<le> int n * 2 ^ j"
proof -
  define s where "s = max (int (bit_len (nat \<bar>m\<bar>)) - int (prec F)) (emin F + int k)"
  have fin: "float_round F m (- int k) = Fin m' (- int j)"
    if me: "(m', - int j) = (if s \<le> 0 then (m, - int k) else (round_shift m (nat s), - int k + s))"
      and b: "0 \<le> m'" "m' \<le> int n * 2 ^ j" for m' j
  proof -
    have "nat m' \<le> n * 2 ^ j" using b by (simp add: nat_le_iff)
    also have "\<dots> < 2 ^ (prec F + j)" using n by (simp add: power_add)
    finally have "bit_len (nat m') \<le> prec F + j" by (rule bit_len_le)
    then have "\<not> int (bit_len (nat \<bar>m'\<bar>)) + - int j > emax F" using F(2) b(1) by simp
    then show ?thesis
      using me unfolding float_round_def Let_def s_def [symmetric] minus_minus diff_minus_eq_add
      by (cases "s \<le> 0") auto
  qed
  show ?thesis
  proof (cases "s \<le> 0")
    case True
    then show ?thesis using fin [of m k] m by auto
  next
    case False
    then have sk: "s \<le> int k" using round_grid_nonpos [OF n m F(1) s_def] by simp
    define j where "j = nat (int k - s)"
    have kj: "k = j + nat s" using sk False by (simp add: j_def)
    have "m \<le> (int n * 2 ^ j) * 2 ^ nat s" using m(2) by (simp add: kj power_add mult.assoc)
    then have "round_shift m (nat s) \<le> int n * 2 ^ j" by (rule round_shift_le)
    moreover have "- int j = - int k + s" using sk by (simp add: j_def)
    ultimately show ?thesis
      using fin [of "round_shift m (nat s)" j] False round_shift_nonneg [OF m(1), of "nat s"]
      by (intro exI [of _ "round_shift m (nat s)"] exI [of _ j]) simp
  qed
qed

text \<open>
  Multiplying an exactly represented integer by a factor between zero and one and
  truncating never exceeds the integer.
\<close>

lemma scaled_le:
  assumes n: "n < 2 ^ prec F" and F: "emin F \<le> 0" "int (prec F) \<le> emax F" "prec F \<le> 64"
    and t: "0 \<le> t" "t \<le> 2 ^ k"
  shows "unat (float_as_usize (float_mul F (float_of_nat F n) (Fin t (- int k)))) \<le> n"
proof -
  have "0 \<le> int n * t" "int n * t \<le> int n * 2 ^ k" using t by (simp_all add: mult_left_mono)
  then obtain m j where r: "float_round F (int n * t) (- int k) = Fin m (- int j)"
    and m: "0 \<le> m" "m \<le> int n * 2 ^ j"
    using float_round_le [OF n _ _ F(1,2)] by blast
  have le: "dyadic_floor m (- int j) \<le> int n" "0 \<le> dyadic_floor m (- int j)"
    using m div_pow_le [OF m(2)] by (auto simp: dyadic_floor_def pos_imp_zdiv_nonneg_iff)
  have n64: "n < 2 ^ 64" using n F(3) by (meson less_le_trans one_le_numeral power_increasing)
  have "unat (of_int (dyadic_floor m (- int j)) :: usize) = nat (dyadic_floor m (- int j))"
    if "dyadic_floor m (- int j) < 2 ^ 64"
    using unat_of_nat_small [where 'a = 64, of "nat (dyadic_floor m (- int j))"] that le(2) by simp
  moreover have "dyadic_floor m (- int j) < 2 ^ 64" using le(1) n64 by simp
  ultimately show ?thesis
    using le by (simp add: float_of_nat_exact [OF n F(1,2)] r nat_le_iff)
qed

end
