(* ===== verification/Supervisor.thy ===== *)
theory Supervisor
  imports Core_Types
begin

text \<open>
  One supervisor of \<open>src/supervisor.rs\<close>: the supervision strategies, restart policies
  and exit reasons, the child table with its restart history, and every operation of
  \<open>Supervisor\<close> as a function from a state to a result and the new state. The clock
  and the UUID source are arguments. The second half states what makes the component
  correct: the well-formedness invariant over every operation, what each restart
  strategy touches, and the sliding-window restart limit over whole runs.
\<close>

section \<open>Data\<close>

datatype supervision_strategy =
    OneForOne u32 duration
  | OneForAll u32 duration
  | RestForOne u32 duration
  | SimpleOneForOne

fun max_restarts :: "supervision_strategy \<Rightarrow> u32 option" where
  "max_restarts (OneForOne m _) = Some m"
| "max_restarts (OneForAll m _) = Some m"
| "max_restarts (RestForOne m _) = Some m"
| "max_restarts SimpleOneForOne = None"

fun within :: "supervision_strategy \<Rightarrow> duration option" where
  "within (OneForOne _ w) = Some w"
| "within (OneForAll _ w) = Some w"
| "within (RestForOne _ w) = Some w"
| "within SimpleOneForOne = None"

definition one_for_one :: "u32 \<Rightarrow> duration \<Rightarrow> supervision_strategy" where
  "one_for_one m w = OneForOne m w"

definition one_for_all :: "u32 \<Rightarrow> duration \<Rightarrow> supervision_strategy" where
  "one_for_all m w = OneForAll m w"

definition rest_for_one :: "u32 \<Rightarrow> duration \<Rightarrow> supervision_strategy" where
  "rest_for_one m w = RestForOne m w"

definition simple_one_for_one :: supervision_strategy where
  "simple_one_for_one = SimpleOneForOne"

definition SupervisionStrategy_default :: supervision_strategy where
  "SupervisionStrategy_default = one_for_one 5 (from_secs 60)"

datatype restart_policy = Permanent | Transient | Temporary

datatype exit_reason =
    ExitNormal
  | ExitShutdown
  | Signaled signal
  | ExitError rust_string
  | Killed

definition is_normal :: "exit_reason \<Rightarrow> bool" where
  "is_normal r = (case r of ExitNormal \<Rightarrow> True | _ \<Rightarrow> False)"

definition is_abnormal :: "exit_reason \<Rightarrow> bool" where
  "is_abnormal r = (\<not> is_normal r)"

record child_spec =
  spec_name :: string
  actor_config :: unit
  restart_policy :: restart_policy
  shutdown_timeout :: duration
  significant :: bool

definition ChildSpec_new :: "string \<Rightarrow> child_spec" where
  "ChildSpec_new n =
     \<lparr>spec_name = n, actor_config = (), restart_policy = Permanent,
      shutdown_timeout = from_secs 30, significant = False\<rparr>"

definition ChildSpec_restart_policy :: "restart_policy \<Rightarrow> child_spec \<Rightarrow> child_spec" where
  "ChildSpec_restart_policy p spc = spc\<lparr>restart_policy := p\<rparr>"

definition ChildSpec_shutdown_timeout :: "duration \<Rightarrow> child_spec \<Rightarrow> child_spec" where
  "ChildSpec_shutdown_timeout t spc = spc\<lparr>shutdown_timeout := t\<rparr>"

definition ChildSpec_significant :: "bool \<Rightarrow> child_spec \<Rightarrow> child_spec" where
  "ChildSpec_significant b spc = spc\<lparr>significant := b\<rparr>"

datatype child_state =
    ChildRunning
  | ChildStopping
  | ChildStopped exit_reason
  | ChildRestarting u32

definition is_active :: "child_state \<Rightarrow> bool" where
  "is_active st = (case st of ChildRunning \<Rightarrow> True | ChildRestarting _ \<Rightarrow> True | _ \<Rightarrow> False)"

record supervised_child =
  child_id :: actor_id
  spec :: child_spec
  state :: child_state
  start_order :: u32

record supervisor_stats =
  total :: nat
  running :: nat
  stopped :: nat
  restarting :: nat
  stat_total_restarts :: u64

datatype escalation_action = Escalate | ShutdownNode | GiveUp

datatype supervisor_error =
    ChildExists string
  | ChildNotFound string
  | MaxRestartsExceeded string u32 u32
  | SupervisorNotFound actor_id
  | InvalidState string rust_string rust_string
  | InvalidParent actor_id

text \<open>The derived \<open>Debug\<close> renderings that end up in error texts.\<close>

fun signal_debug :: "signal \<Rightarrow> rust_string" where
  "signal_debug Pause = [Str ''Pause'']"
| "signal_debug Resume = [Str ''Resume'']"
| "signal_debug Restart = [Str ''Restart'']"

fun exit_reason_debug :: "exit_reason \<Rightarrow> rust_string" where
  "exit_reason_debug ExitNormal = [Str ''Normal'']"
| "exit_reason_debug ExitShutdown = [Str ''Shutdown'']"
| "exit_reason_debug (Signaled sg) = [Str ''Signaled(''] @ signal_debug sg @ [Str '')'']"
| "exit_reason_debug (ExitError m) = [Str ''Error('', DbgString m, Str '')'']"
| "exit_reason_debug Killed = [Str ''Killed'']"

fun exit_reason_display :: "exit_reason \<Rightarrow> rust_string" where
  "exit_reason_display ExitNormal = [Str ''normal'']"
| "exit_reason_display ExitShutdown = [Str ''shutdown'']"
| "exit_reason_display (Signaled sg) = [Str ''signaled(''] @ signal_debug sg @ [Str '')'']"
| "exit_reason_display (ExitError msg) = Str ''error('' # msg @ [Str '')'']"
| "exit_reason_display Killed = [Str ''killed'']"

fun child_state_debug :: "child_state \<Rightarrow> rust_string" where
  "child_state_debug ChildRunning = [Str ''Running'']"
| "child_state_debug ChildStopping = [Str ''Stopping'']"
| "child_state_debug (ChildStopped r) =
     [Str ''Stopped { reason: ''] @ exit_reason_debug r @ [Str '' }'']"
| "child_state_debug (ChildRestarting n) =
     [Str ''Restarting { attempt: '', Num (unat n), Str '' }'']"

text \<open>A single quotation mark inside a message.\<close>

abbreviation squote :: frag where
  "squote \<equiv> Str [CHR 0x27]"

fun supervisor_error_display :: "supervisor_error \<Rightarrow> rust_string" where
  "supervisor_error_display (ChildExists n) =
     [Str ''child '', squote, Str n, squote, Str '' already exists'']"
| "supervisor_error_display (ChildNotFound n) =
     [Str ''child '', squote, Str n, squote, Str '' not found'']"
| "supervisor_error_display (MaxRestartsExceeded n c m) =
     [Str ''child '', squote, Str n, squote, Str '' exceeded max restarts ('', Num (unat c),
      Str ''/'', Num (unat m), Str '')'']"
| "supervisor_error_display (SupervisorNotFound i) =
     [Str ''supervisor '', DbgId i, Str '' not found'']"
| "supervisor_error_display (InvalidState n st opn) =
     [Str ''invalid operation '', squote] @ opn @ [squote, Str '' on child '', squote, Str n,
      squote, Str '' in state '', squote] @ st @ [squote]"
| "supervisor_error_display (InvalidParent i) = [Str ''invalid parent supervisor '', DbgId i]"

definition into_error :: "supervisor_error \<Rightarrow> error" where
  "into_error e = Actor (supervisor_error_display e)"

record supervisor =
  sup_id :: actor_id
  strategy :: supervision_strategy
  children :: "(string, supervised_child) hashmap"
  restart_counts :: "(string, instant list) hashmap"
  parent :: "actor_id option"
  next_start_order :: u32
  total_restarts :: u64
  escalation_action :: escalation_action

section \<open>Operations\<close>

definition MAX_RESTART_THRESHOLD :: u32 where
  "MAX_RESTART_THRESHOLD = 100"

definition Supervisor_new :: "actor_id \<Rightarrow> supervision_strategy \<Rightarrow> supervisor" where
  "Supervisor_new new_id strat =
     \<lparr>sup_id = new_id, strategy = strat, children = [], restart_counts = [], parent = None,
      next_start_order = 0, total_restarts = 0, escalation_action = Escalate\<rparr>"

definition with_parent :: "actor_id \<Rightarrow> supervision_strategy \<Rightarrow> actor_id \<Rightarrow> supervisor" where
  "with_parent new_id strat p =
     \<lparr>sup_id = new_id, strategy = strat, children = [], restart_counts = [], parent = Some p,
      next_start_order = 0, total_restarts = 0, escalation_action = Escalate\<rparr>"

definition set_escalation_action :: "escalation_action \<Rightarrow> supervisor \<Rightarrow> supervisor" where
  "set_escalation_action a s = s\<lparr>escalation_action := a\<rparr>"

definition start_child ::
  "actor_id \<Rightarrow> child_spec \<Rightarrow> supervisor \<Rightarrow> actor_id result \<times> supervisor" where
  "start_child new_id spc s =
     (if hm_contains (children s) (spec_name spc)
      then (Err (into_error (ChildExists (spec_name spc))), s)
      else
        let ord = next_start_order s;
            child = \<lparr>child_id = new_id, spec = spc, state = ChildRunning, start_order = ord\<rparr>
        in (Ok new_id,
            s\<lparr>next_start_order := saturating_add ord 1,
              children := hm_insert (children s) (spec_name spc) child\<rparr>))"

definition stop_child :: "string \<Rightarrow> supervisor \<Rightarrow> unit result \<times> supervisor" where
  "stop_child nm s =
     (case hm_get (children s) nm of
        None \<Rightarrow> (Err (into_error (ChildNotFound nm)), s)
      | Some child \<Rightarrow>
          (case state child of
             ChildRunning \<Rightarrow>
               (Ok (), s\<lparr>children := hm_modify (children s) nm (\<lambda>c. c\<lparr>state := ChildStopping\<rparr>)\<rparr>)
           | ChildRestarting _ \<Rightarrow>
               (Ok (), s\<lparr>children := hm_modify (children s) nm (\<lambda>c. c\<lparr>state := ChildStopping\<rparr>)\<rparr>)
           | ChildStopping \<Rightarrow> (Ok (), s)
           | ChildStopped _ \<Rightarrow> (Ok (), s)))"

definition set_child_state :: "string \<Rightarrow> child_state \<Rightarrow> supervisor \<Rightarrow> supervisor" where
  "set_child_state nm st s =
     s\<lparr>children := hm_modify (children s) nm (\<lambda>c. c\<lparr>state := st\<rparr>)\<rparr>"

definition terminate_child :: "string \<Rightarrow> exit_reason \<Rightarrow> supervisor \<Rightarrow> unit result \<times> supervisor" where
  "terminate_child nm r s =
     (case hm_get (children s) nm of
        None \<Rightarrow> (Err (into_error (ChildNotFound nm)), s)
      | Some _ \<Rightarrow> (Ok (), set_child_state nm (ChildStopped r) s))"

definition which_children :: "supervisor \<Rightarrow> supervised_child list" where
  "which_children s = hm_values (children s)"

fun count_child :: "supervisor_stats \<Rightarrow> supervised_child \<Rightarrow> supervisor_stats" where
  "count_child st c =
     (case state c of
        ChildRunning \<Rightarrow> st\<lparr>running := running st + 1\<rparr>
      | ChildStopped _ \<Rightarrow> st\<lparr>stopped := stopped st + 1\<rparr>
      | ChildRestarting _ \<Rightarrow> st\<lparr>restarting := restarting st + 1\<rparr>
      | ChildStopping \<Rightarrow> st\<lparr>stopped := stopped st + 1\<rparr>)"

definition count_children :: "supervisor \<Rightarrow> supervisor_stats" where
  "count_children s =
     (let st = foldl count_child
                 \<lparr>total = 0, running = 0, stopped = 0, restarting = 0, stat_total_restarts = 0\<rparr>
                 (hm_values (children s))
      in st\<lparr>total := length (children s), stat_total_restarts := total_restarts s\<rparr>)"

definition check_restart_allowed ::
  "instant \<Rightarrow> string \<Rightarrow> u32 \<Rightarrow> duration \<Rightarrow> supervisor \<Rightarrow> bool" where
  "check_restart_allowed now nm max_r win s =
     (if max_r = 0 then True
      else case hm_get (restart_counts s) nm of
        Some timestamps \<Rightarrow>
          let recent = length (filter (\<lambda>t. duration_since now t < win) timestamps);
              recent_u32 = u32_try_from_or MAX_RESTART_THRESHOLD recent
          in recent_u32 < max_r
      | None \<Rightarrow> True)"

definition record_restart :: "instant \<Rightarrow> string \<Rightarrow> supervisor \<Rightarrow> supervisor" where
  "record_restart now nm s =
     (let timestamps = (case hm_get (restart_counts s) nm of None \<Rightarrow> [] | Some v \<Rightarrow> v) @ [now];
          timestamps' = (case within (strategy s) of
                           Some win \<Rightarrow> filter (\<lambda>t. duration_since now t < win) timestamps
                         | None \<Rightarrow> timestamps)
      in s\<lparr>restart_counts := hm_insert (restart_counts s) nm timestamps'\<rparr>)"

definition bump_total_restarts :: "supervisor \<Rightarrow> supervisor" where
  "bump_total_restarts s = s\<lparr>total_restarts := saturating_add (total_restarts s) 1\<rparr>"

definition handle_max_restarts_exceeded ::
  "string \<Rightarrow> u32 \<Rightarrow> supervisor \<Rightarrow> unit result \<times> supervisor" where
  "handle_max_restarts_exceeded nm max_r s =
     (let count = (case hm_get (restart_counts s) nm of
                     Some v \<Rightarrow> u32_try_from_or MAX_RESTART_THRESHOLD (length v)
                   | None \<Rightarrow> 0);
          reason = ExitError [Str ''max restarts exceeded ('', Num (unat count), Str ''/'',
                              Num (unat max_r), Str '')''];
          s' = set_child_state nm (ChildStopped reason) s
      in case escalation_action s of
           Escalate \<Rightarrow> (Err (into_error (MaxRestartsExceeded nm count max_r)), s')
         | ShutdownNode \<Rightarrow> (Err (into_error (MaxRestartsExceeded nm count max_r)), s')
         | GiveUp \<Rightarrow> (Ok (), s'))"

text \<open>
  What the environment supplies while one exit is handled: the two readings of
  \<open>Instant::now\<close> (in \<open>check_restart_allowed\<close>, then in \<open>record_restart\<close>) and the
  UUID minted for each restarted child, by the key of its entry.
\<close>

record exit_env =
  now_check :: instant
  now_record :: instant
  minted :: "string \<Rightarrow> actor_id"

definition restart_attempt :: "supervisor \<Rightarrow> string \<Rightarrow> u32" where
  "restart_attempt s nm =
     (case hm_get (restart_counts s) nm of Some v \<Rightarrow> as_u32 (length v) | None \<Rightarrow> 1)"

definition restart_one_for_one ::
  "exit_env \<Rightarrow> string \<Rightarrow> u32 \<Rightarrow> duration \<Rightarrow> supervisor \<Rightarrow> unit result \<times> supervisor" where
  "restart_one_for_one env nm max_r win s =
     (if \<not> check_restart_allowed (now_check env) nm max_r win s
      then handle_max_restarts_exceeded nm max_r s
      else
        let s1 = bump_total_restarts (record_restart (now_record env) nm s)
        in (Ok (),
            s1\<lparr>children := hm_modify (children s1) nm
                 (\<lambda>c. c\<lparr>state := ChildRestarting (restart_attempt s1 nm),
                        child_id := minted env nm\<rparr>)\<rparr>))"

definition restart_one_for_all ::
  "exit_env \<Rightarrow> string \<Rightarrow> u32 \<Rightarrow> duration \<Rightarrow> supervisor \<Rightarrow> unit result \<times> supervisor" where
  "restart_one_for_all env nm max_r win s =
     (if \<not> check_restart_allowed (now_check env) nm max_r win s
      then handle_max_restarts_exceeded nm max_r s
      else
        let s1 = bump_total_restarts (record_restart (now_record env) nm s)
        in (Ok (),
            s1\<lparr>children := hm_map (children s1)
                 (\<lambda>k c. c\<lparr>state := ChildRestarting (restart_attempt s1 (spec_name (spec c))),
                          child_id := minted env k\<rparr>)\<rparr>))"

definition restart_rest_for_one ::
  "exit_env \<Rightarrow> string \<Rightarrow> u32 \<Rightarrow> duration \<Rightarrow> supervisor \<Rightarrow> unit result \<times> supervisor" where
  "restart_rest_for_one env nm max_r win s =
     (if \<not> check_restart_allowed (now_check env) nm max_r win s
      then handle_max_restarts_exceeded nm max_r s
      else case hm_get (children s) nm of
        None \<Rightarrow> (Err (into_error (ChildNotFound nm)), s)
      | Some failed \<Rightarrow>
          let failed_order = start_order failed;
              s1 = bump_total_restarts (record_restart (now_record env) nm s)
          in (Ok (),
              s1\<lparr>children := hm_map (children s1)
                   (\<lambda>k c. if failed_order \<le> start_order c
                          then c\<lparr>state := ChildRestarting (restart_attempt s1 (spec_name (spec c))),
                                 child_id := minted env k\<rparr>
                          else c)\<rparr>))"

definition should_restart :: "restart_policy \<Rightarrow> exit_reason \<Rightarrow> bool" where
  "should_restart p r =
     (case p of Permanent \<Rightarrow> True | Transient \<Rightarrow> is_abnormal r | Temporary \<Rightarrow> False)"

definition handle_child_exit ::
  "exit_env \<Rightarrow> string \<Rightarrow> exit_reason \<Rightarrow> supervisor \<Rightarrow> unit result \<times> supervisor" where
  "handle_child_exit env nm r s =
     (case hm_get (children s) nm of
        None \<Rightarrow> (Err (into_error (ChildNotFound nm)), s)
      | Some child \<Rightarrow>
          if \<not> should_restart (restart_policy (spec child)) r
          then (Ok (), set_child_state nm (ChildStopped r) s)
          else (case strategy s of
                  SimpleOneForOne \<Rightarrow> (Ok (), set_child_state nm (ChildStopped r) s)
                | OneForOne m w \<Rightarrow> restart_one_for_one env nm m w s
                | OneForAll m w \<Rightarrow> restart_one_for_all env nm m w s
                | RestForOne m w \<Rightarrow> restart_rest_for_one env nm m w s))"

definition remove_child :: "string \<Rightarrow> supervisor \<Rightarrow> supervised_child result \<times> supervisor" where
  "remove_child nm s =
     (case hm_get (children s) nm of
        None \<Rightarrow> (Err (into_error (ChildNotFound nm)), s)
      | Some c \<Rightarrow> (Ok c, s\<lparr>children := hm_remove (children s) nm\<rparr>))"

definition get_child :: "supervisor \<Rightarrow> string \<Rightarrow> supervised_child option" where
  "get_child s nm = hm_get (children s) nm"

definition has_child :: "supervisor \<Rightarrow> string \<Rightarrow> bool" where
  "has_child s nm = hm_contains (children s) nm"

definition child_count :: "supervisor \<Rightarrow> nat" where
  "child_count s = length (children s)"

definition mark_child_running :: "string \<Rightarrow> supervisor \<Rightarrow> unit result \<times> supervisor" where
  "mark_child_running nm s =
     (case hm_get (children s) nm of
        None \<Rightarrow> (Err (into_error (ChildNotFound nm)), s)
      | Some child \<Rightarrow>
          (case state child of
             ChildRestarting _ \<Rightarrow> (Ok (), set_child_state nm ChildRunning s)
           | ChildRunning \<Rightarrow> (Ok (), set_child_state nm ChildRunning s)
           | ChildStopping \<Rightarrow>
               (Err (into_error (InvalidState nm (child_state_debug (state child))
                                   [Str ''mark_running''])), s)
           | ChildStopped _ \<Rightarrow>
               (Err (into_error (InvalidState nm (child_state_debug (state child))
                                   [Str ''mark_running''])), s)))"

section \<open>The exit handler, branch by branch\<close>

lemmas sup_restart_defs =
  restart_one_for_one_def restart_one_for_all_def restart_rest_for_one_def

lemmas sup_update_defs = set_child_state_def bump_total_restarts_def record_restart_def Let_def

text \<open>The restart decision, independent of the strategy.\<close>

definition restart_granted :: "exit_env \<Rightarrow> string \<Rightarrow> exit_reason \<Rightarrow> supervisor \<Rightarrow> bool" where
  "restart_granted env nm r s =
     (case hm_get (children s) nm of
        None \<Rightarrow> False
      | Some c \<Rightarrow> should_restart (restart_policy (spec c)) r \<and>
          (case (max_restarts (strategy s), within (strategy s)) of
             (Some m, Some w) \<Rightarrow> check_restart_allowed (now_check env) nm m w s
           | _ \<Rightarrow> False))"

text \<open>Which children a granted restart of \<open>nm\<close> reaches.\<close>

definition restart_scope :: "supervisor \<Rightarrow> string \<Rightarrow> string \<Rightarrow> supervised_child \<Rightarrow> bool" where
  "restart_scope s nm k c =
     (case strategy s of
        OneForOne _ _ \<Rightarrow> k = nm
      | OneForAll _ _ \<Rightarrow> True
      | RestForOne _ _ \<Rightarrow>
          (case hm_get (children s) nm of None \<Rightarrow> False | Some f \<Rightarrow> start_order f \<le> start_order c)
      | SimpleOneForOne \<Rightarrow> False)"

definition child_names_agree :: "supervisor \<Rightarrow> bool" where
  "child_names_agree s = (\<forall>k c. hm_get (children s) k = Some c \<longrightarrow> spec_name (spec c) = k)"

lemma set_child_state_simps [simp]:
  "hm_get (children (set_child_state nm st s)) k =
     (if k = nm then map_option (\<lambda>c. c\<lparr>state := st\<rparr>) (hm_get (children s) k)
      else hm_get (children s) k)"
  "restart_counts (set_child_state nm st s) = restart_counts s"
  "total_restarts (set_child_state nm st s) = total_restarts s"
  "strategy (set_child_state nm st s) = strategy s"
  "next_start_order (set_child_state nm st s) = next_start_order s"
  "hm_wf (children (set_child_state nm st s)) = hm_wf (children s)"
  by (simp_all add: set_child_state_def hm_simps hm_wf_def)

lemma record_bump_simps [simp]:
  "children (bump_total_restarts (record_restart now nm s)) = children s"
  "strategy (bump_total_restarts (record_restart now nm s)) = strategy s"
  "next_start_order (bump_total_restarts (record_restart now nm s)) = next_start_order s"
  "total_restarts (bump_total_restarts (record_restart now nm s)) =
     saturating_add (total_restarts s) 1"
  "restart_counts (bump_total_restarts s) = restart_counts s"
  by (simp_all add: sup_update_defs)

lemma handle_max_restarts_exceeded_snd:
  "\<exists>r. snd (handle_max_restarts_exceeded nm m s) = set_child_state nm (ChildStopped r) s"
  by (auto simp: handle_max_restarts_exceeded_def Let_def split: escalation_action.splits)

lemma exit_granted:
  assumes "restart_granted env nm r s" and "child_names_agree s"
  shows "fst (handle_child_exit env nm r s) = Ok ()"
    and "restart_counts (snd (handle_child_exit env nm r s)) =
           restart_counts (record_restart (now_record env) nm s)"
    and "total_restarts (snd (handle_child_exit env nm r s)) = saturating_add (total_restarts s) 1"
    and "hm_get (children (snd (handle_child_exit env nm r s))) k =
           map_option (\<lambda>c. if restart_scope s nm k c
             then c\<lparr>state := ChildRestarting (restart_attempt (record_restart (now_record env) nm s) k),
                    child_id := minted env k\<rparr>
             else c) (hm_get (children s) k)"
proof -
  obtain c where c: "hm_get (children s) nm = Some c"
    and sr: "should_restart (restart_policy (spec c)) r"
    using assms(1) by (auto simp: restart_granted_def split: option.splits)
  have agree: "spec_name (spec d) = k" if "hm_get (children s) k = Some d" for d
    using assms(2) that by (simp add: child_names_agree_def)
  have att: "restart_attempt (bump_total_restarts s1) = restart_attempt s1" for s1
    by (rule ext) (simp add: restart_attempt_def)
  note defs = handle_child_exit_def sup_restart_defs Let_def restart_granted_def c sr
  show "fst (handle_child_exit env nm r s) = Ok ()"
    and "restart_counts (snd (handle_child_exit env nm r s)) =
           restart_counts (record_restart (now_record env) nm s)"
    and "total_restarts (snd (handle_child_exit env nm r s)) = saturating_add (total_restarts s) 1"
    using assms(1) by (cases "strategy s"; simp add: defs)+
  show "hm_get (children (snd (handle_child_exit env nm r s))) k =
           map_option (\<lambda>c. if restart_scope s nm k c
             then c\<lparr>state := ChildRestarting (restart_attempt (record_restart (now_record env) nm s) k),
                    child_id := minted env k\<rparr>
             else c) (hm_get (children s) k)"
    using assms(1) agree c
    by (cases "strategy s"; cases "hm_get (children s) k"; cases "k = nm")
       (auto simp: defs hm_simps restart_scope_def att)
qed

lemma exit_refused:
  assumes "\<not> restart_granted env nm r s" and "hm_get (children s) nm = Some c"
  shows "\<exists>q. snd (handle_child_exit env nm r s) = set_child_state nm (ChildStopped q) s"
  using assms handle_max_restarts_exceeded_snd
  by (cases "strategy s")
     (auto simp: handle_child_exit_def sup_restart_defs Let_def restart_granted_def)

lemma exit_unknown:
  "hm_get (children s) nm = None \<Longrightarrow>
     handle_child_exit env nm r s = (Err (into_error (ChildNotFound nm)), s)"
  by (simp add: handle_child_exit_def)

section \<open>Runs of calls and the invariant\<close>

datatype sup_event =
    StartChild actor_id child_spec
  | StopChild string
  | TerminateChild string exit_reason
  | ChildExit string exit_reason exit_env
  | RemoveChild string
  | MarkRunning string
  | SetEscalation escalation_action

fun sup_apply :: "sup_event \<Rightarrow> supervisor \<Rightarrow> supervisor" where
  "sup_apply (StartChild i spc) s = snd (start_child i spc s)"
| "sup_apply (StopChild nm) s = snd (stop_child nm s)"
| "sup_apply (TerminateChild nm r) s = snd (terminate_child nm r s)"
| "sup_apply (ChildExit nm r env) s = snd (handle_child_exit env nm r s)"
| "sup_apply (RemoveChild nm) s = snd (remove_child nm s)"
| "sup_apply (MarkRunning nm) s = snd (mark_child_running nm s)"
| "sup_apply (SetEscalation a) s = set_escalation_action a s"

text \<open>
  The invariant of a supervisor: both tables have distinct keys, a child is stored under
  the name of its spec, every start order was handed out before the next one, and two
  children share a start order only after the 32-bit counter has saturated.
\<close>

definition start_orders_ok :: "supervisor \<Rightarrow> bool" where
  "start_orders_ok s =
     ((\<forall>k c. hm_get (children s) k = Some c \<longrightarrow>
          start_order c < next_start_order s \<or> next_start_order s = - 1) \<and>
      (\<forall>k l c d. hm_get (children s) k = Some c \<longrightarrow> hm_get (children s) l = Some d \<longrightarrow>
          start_order c = start_order d \<longrightarrow> k = l \<or> start_order c = - 1))"

definition sup_wf :: "supervisor \<Rightarrow> bool" where
  "sup_wf s = (hm_wf (children s) \<and> hm_wf (restart_counts s) \<and> child_names_agree s \<and>
     start_orders_ok s)"

text \<open>Updates that rewrite children in place keep names and orders.\<close>

lemma sup_wf_children_cong:
  assumes "sup_wf s" and "hm_wf (children t)" and "hm_wf (restart_counts t)"
    and "next_start_order t = next_start_order s"
    and "\<And>k d. hm_get (children t) k = Some d \<Longrightarrow>
           \<exists>c. hm_get (children s) k = Some c \<and> spec d = spec c \<and> start_order d = start_order c"
  shows "sup_wf t"
proof -
  have "child_names_agree t"
    using assms(1,5) by (fastforce simp: sup_wf_def child_names_agree_def)
  moreover have "start_orders_ok t"
    unfolding start_orders_ok_def
  proof (intro conjI allI impI)
    fix k c assume "hm_get (children t) k = Some c"
    then show "start_order c < next_start_order t \<or> next_start_order t = - 1"
      using assms(1,4,5) by (fastforce simp: sup_wf_def start_orders_ok_def)
  next
    fix k l c d
    assume k: "hm_get (children t) k = Some c" and l: "hm_get (children t) l = Some d"
      and eq: "start_order c = start_order d"
    obtain c' d' where "hm_get (children s) k = Some c'" "start_order c = start_order c'"
      and "hm_get (children s) l = Some d'" "start_order d = start_order d'"
      using assms(5)[OF k] assms(5)[OF l] by auto
    then show "k = l \<or> start_order c = - 1"
      using assms(1) eq unfolding sup_wf_def start_orders_ok_def by metis
  qed
  ultimately show ?thesis
    using assms(2,3) by (simp add: sup_wf_def)
qed

lemma sup_wf_set_child_state: "sup_wf s \<Longrightarrow> sup_wf (set_child_state nm st s)"
  by (rule sup_wf_children_cong [of s]) (auto simp: sup_wf_def split: if_splits)

lemma sup_wf_start_child: "sup_wf s \<Longrightarrow> sup_wf (snd (start_child i spc s))"
proof (cases "hm_contains (children s) (spec_name spc)")
  case True
  assume "sup_wf s" with True show ?thesis by (simp add: start_child_def)
next
  case False
  assume wf: "sup_wf s"
  let ?n = "next_start_order s"
  have lt: "start_order c < saturating_add ?n 1 \<or> saturating_add ?n 1 = - 1"
    if "start_order c \<le> ?n" for c
    using that by (simp add: saturating_add_def word_less_nat_alt word_le_nat_alt unat_add_no_wrap)
  let ?t = "snd (start_child i spc s)"
  have old: "start_order c \<le> ?n" "next_start_order s \<noteq> - 1 \<Longrightarrow> start_order c < ?n"
    if "hm_get (children s) k = Some c" for k c
    using wf that by (force simp: sup_wf_def start_orders_ok_def)+
  have t: "next_start_order ?t = saturating_add ?n 1"
    "hm_get (children ?t) k = (if k = spec_name spc
       then Some \<lparr>child_id = i, spec = spc, state = ChildRunning, start_order = ?n\<rparr>
       else hm_get (children s) k)" for k
    using False by (simp_all add: start_child_def Let_def hm_simps)
  have "start_orders_ok ?t"
    unfolding start_orders_ok_def
  proof (intro conjI allI impI)
    fix k c assume "hm_get (children ?t) k = Some c"
    then have "start_order c \<le> ?n" using old(1) by (auto simp: t split: if_splits)
    then show "start_order c < next_start_order ?t \<or> next_start_order ?t = - 1"
      unfolding t by (rule lt)
  next
    fix k l c d
    assume "hm_get (children ?t) k = Some c" "hm_get (children ?t) l = Some d"
      and "start_order c = start_order d"
    then show "k = l \<or> start_order c = - 1"
      using wf old(2) unfolding sup_wf_def start_orders_ok_def t(2)
      by (cases "k = spec_name spc"; cases "l = spec_name spc"; force)
  qed
  then show ?thesis
    using wf False
    by (simp add: sup_wf_def child_names_agree_def t(2))
       (simp add: start_child_def Let_def hm_intros)
qed

lemma hm_wf_record_restart:
  "hm_wf (restart_counts s) \<Longrightarrow> hm_wf (restart_counts (record_restart now nm s))"
  by (auto simp: record_restart_def Let_def intro: hm_intros split: option.splits)

lemma sup_wf_handle_child_exit: "sup_wf s \<Longrightarrow> sup_wf (snd (handle_child_exit env nm r s))"
proof (cases "hm_get (children s) nm")
  case None
  assume "sup_wf s" with None show ?thesis by (simp add: exit_unknown)
next
  case (Some c)
  assume wf: "sup_wf s"
  show ?thesis
  proof (cases "restart_granted env nm r s")
    case False
    then show ?thesis using exit_refused [OF False Some] wf by (auto intro: sup_wf_set_child_state)
  next
    case True
    let ?t = "snd (handle_child_exit env nm r s)"
    have agree: "child_names_agree s" using wf by (simp add: sup_wf_def)
    note ex = exit_granted [OF True agree]
    have "hm_wf (children ?t) \<and> next_start_order ?t = next_start_order s"
      using wf Some True
      by (cases "strategy s")
         (auto simp: handle_child_exit_def sup_restart_defs Let_def restart_granted_def sup_wf_def
           intro: hm_intros)
    moreover have "hm_wf (restart_counts ?t)"
      using wf by (simp add: ex(2) hm_wf_record_restart sup_wf_def)
    moreover have "\<exists>c. hm_get (children s) k = Some c \<and> spec d = spec c \<and> start_order d = start_order c"
      if "hm_get (children ?t) k = Some d" for k d
      using that unfolding ex(4) by (auto split: if_splits)
    ultimately show ?thesis using wf sup_wf_children_cong by blast
  qed
qed

lemma sup_wf_remove_child: "sup_wf s \<Longrightarrow> sup_wf (snd (remove_child nm s))"
  by (cases "hm_get (children s) nm")
     (auto simp: remove_child_def sup_wf_def start_orders_ok_def child_names_agree_def hm_simps
       hm_intros)

lemma sup_wf_apply: "sup_wf s \<Longrightarrow> sup_wf (sup_apply e s)"
proof (cases e)
  case (StopChild nm)
  assume "sup_wf s" with StopChild show ?thesis
    by (auto simp: stop_child_def set_child_state_def [symmetric] intro: sup_wf_set_child_state
        split: option.splits child_state.splits)
next
  case (MarkRunning nm)
  assume "sup_wf s" with MarkRunning show ?thesis
    by (auto simp: mark_child_running_def intro: sup_wf_set_child_state
        split: option.splits child_state.splits)
next
  case (TerminateChild nm r)
  assume "sup_wf s" with TerminateChild show ?thesis
    by (auto simp: terminate_child_def intro: sup_wf_set_child_state split: option.splits)
next
  case (SetEscalation a)
  assume "sup_wf s" with SetEscalation show ?thesis
    by (auto simp: set_escalation_action_def sup_wf_def start_orders_ok_def child_names_agree_def)
qed (auto intro: sup_wf_start_child sup_wf_handle_child_exit sup_wf_remove_child)

lemma sup_wf_new: "sup_wf (Supervisor_new i strat)" "sup_wf (with_parent i strat p)"
  by (simp_all add: Supervisor_new_def with_parent_def sup_wf_def start_orders_ok_def
      child_names_agree_def)

interpretation sup_machine: event_machine "\<lambda>_ _. True" sup_apply sup_wf
  by unfold_locales (rule sup_wf_apply)

lemma guarded_run_True: "guarded_run (\<lambda>_ _. True) ap es s"
  by (induction es arbitrary: s) auto

lemma sup_wf_run: "sup_wf s \<Longrightarrow> sup_wf (fold sup_apply es s)"
  by (rule sup_machine.run_inv [OF _ guarded_run_True])

lemmas sup_event_defs =
  start_child_def stop_child_def terminate_child_def remove_child_def mark_child_running_def
  set_escalation_action_def Let_def

lemma strategy_exit: "strategy (snd (handle_child_exit env nm r s)) = strategy s"
  by (auto simp: handle_child_exit_def sup_restart_defs handle_max_restarts_exceeded_def Let_def
      split: option.splits supervision_strategy.splits escalation_action.splits)

lemma strategy_apply: "strategy (sup_apply e s) = strategy s"
  by (cases e) (auto simp: sup_event_defs strategy_exit split: option.splits child_state.splits)

lemma strategy_run: "strategy (fold sup_apply es s) = strategy s"
  by (induction es arbitrary: s) (simp_all add: strategy_apply)

section \<open>Properties\<close>

text \<open>
  C7: invariant. Whatever sequence of calls a supervisor receives from its creation on,
  its tables keep distinct keys, every child sits under its own name, and start orders
  are handed out in increasing order, shared only once the 32-bit counter has saturated.
\<close>

theorem supervisor_run_wf: "sup_wf (fold sup_apply es (Supervisor_new i strat))"
  by (rule sup_wf_run) (rule sup_wf_new)

text \<open>
  Isolation of one-for-one: under this strategy the exit of one child, granted a
  restart or not, leaves the record of every other child untouched.
\<close>

lemma one_for_one_isolates:
  assumes "strategy s = OneForOne m w" and "k \<noteq> nm"
  shows "get_child (snd (handle_child_exit env nm r s)) k = get_child s k"
  using assms
  by (auto simp: get_child_def handle_child_exit_def restart_one_for_one_def Let_def hm_simps
      handle_max_restarts_exceeded_def split: option.splits escalation_action.splits)

definition demo_sup :: "supervision_strategy \<Rightarrow> supervisor" where
  "demo_sup strat = fold sup_apply
     [StartChild (ActorId 11) (ChildSpec_new ''a''), StartChild (ActorId 12) (ChildSpec_new ''b''),
      StartChild (ActorId 13) (ChildSpec_new ''c'')] (Supervisor_new (ActorId 1) strat)"

definition demo_env :: exit_env where
  "demo_env = \<lparr>now_check = 5, now_record = 6, minted = (\<lambda>_. ActorId 99)\<rparr>"

lemma one_for_one_isolates_example:
  "get_child (snd (handle_child_exit demo_env ''a'' Killed (demo_sup (OneForOne 2 100)))) ''b'' =
     get_child (demo_sup (OneForOne 2 100)) ''b''
   \<and> get_child (snd (handle_child_exit demo_env ''a'' Killed (demo_sup (OneForOne 2 100)))) ''a'' \<noteq>
     get_child (demo_sup (OneForOne 2 100)) ''a''"
proof
  show "get_child (snd (handle_child_exit demo_env ''a'' Killed (demo_sup (OneForOne 2 100)))) ''b'' =
     get_child (demo_sup (OneForOne 2 100)) ''b''"
    by (rule one_for_one_isolates [of _ 2 100]) code_simp+
  show "get_child (snd (handle_child_exit demo_env ''a'' Killed (demo_sup (OneForOne 2 100)))) ''a'' \<noteq>
     get_child (demo_sup (OneForOne 2 100)) ''a''"
    by code_simp
qed

text \<open>
  C14: scope of a granted restart. When the exit of \<open>nm\<close> is granted a restart, the call
  succeeds, exactly the children in the strategy's scope (the child itself; every child;
  every child whose start order is not below the failed one's) go to \<open>Restarting\<close> with
  a fresh identity and their attempt count, all others keep their record, no child
  appears or disappears, and the restart is counted once.
\<close>

theorem granted_restart_scope:
  assumes "sup_wf s" and "restart_granted env nm r s"
  shows "fst (handle_child_exit env nm r s) = Ok ()
    \<and> total_restarts (snd (handle_child_exit env nm r s)) = saturating_add (total_restarts s) 1
    \<and> get_child (snd (handle_child_exit env nm r s)) k =
        (case get_child s k of
           None \<Rightarrow> None
         | Some c \<Rightarrow> Some (if restart_scope s nm k c
             then c\<lparr>state := ChildRestarting (restart_attempt (record_restart (now_record env) nm s) k),
                    child_id := minted env k\<rparr>
             else c))"
proof -
  have "child_names_agree s" using assms(1) by (simp add: sup_wf_def)
  note ex = exit_granted [OF assms(2) this]
  show ?thesis
    using ex(1,3) ex(4) [of k] by (simp add: get_child_def split: option.split)
qed

theorem granted_restart_scope_witness:
  "restart_granted demo_env ''b'' Killed (demo_sup (RestForOne 2 100))
   \<and> get_child (snd (handle_child_exit demo_env ''b'' Killed (demo_sup (RestForOne 2 100)))) ''c'' =
     Some \<lparr>child_id = ActorId 99, spec = ChildSpec_new ''c'', state = ChildRestarting 1, start_order = 2\<rparr>
   \<and> get_child (snd (handle_child_exit demo_env ''b'' Killed (demo_sup (RestForOne 2 100)))) ''a'' =
     Some \<lparr>child_id = ActorId 11, spec = ChildSpec_new ''a'', state = ChildRunning, start_order = 0\<rparr>"
proof -
  let ?s = "demo_sup (RestForOne 2 100)"
  have wf: "sup_wf ?s" unfolding demo_sup_def by (rule sup_wf_run) (rule sup_wf_new)
  have gr: "restart_granted demo_env ''b'' Killed ?s" by code_simp
  have c: "get_child ?s ''c'' = Some \<lparr>child_id = ActorId 13, spec = ChildSpec_new ''c'',
       state = ChildRunning, start_order = 2\<rparr>" by code_simp
  have a: "get_child ?s ''a'' = Some \<lparr>child_id = ActorId 11, spec = ChildSpec_new ''a'',
       state = ChildRunning, start_order = 0\<rparr>" by code_simp
  have sc: "restart_scope ?s ''b'' ''c'' \<lparr>child_id = ActorId 13, spec = ChildSpec_new ''c'',
       state = ChildRunning, start_order = 2\<rparr>"
    "\<not> restart_scope ?s ''b'' ''a'' \<lparr>child_id = ActorId 11, spec = ChildSpec_new ''a'',
       state = ChildRunning, start_order = 0\<rparr>"
    "minted demo_env ''c'' = ActorId 99"
    "restart_attempt (record_restart (now_record demo_env) ''b'' ?s) ''c'' = 1"
    by code_simp+
  show ?thesis
    using gr granted_restart_scope [OF wf gr, of "''c''"] granted_restart_scope [OF wf gr, of "''a''"]
    by (simp add: c a sc)
qed

text \<open>
  Rest-for-one follows start time. Take any run of a rest-for-one supervisor, a child
  \<open>y\<close> alive in it and a child \<open>x\<close> started next, with the start counter not yet
  saturated. Then a granted restart of \<open>y\<close> restarts \<open>x\<close> as well, and a granted
  restart of \<open>x\<close> leaves \<open>y\<close> exactly as it was.
\<close>

lemma rest_for_one_follows_start_time:
  assumes "s = fold sup_apply es (Supervisor_new i (RestForOne m w))"
    and "get_child s y = Some cy" and "next_start_order s \<noteq> - 1"
    and "start_child j spc s = (Ok j, s')"
    and "restart_granted env y r s'" and "restart_granted env' (spec_name spc) r' s'"
  shows "(\<exists>c a. get_child (snd (handle_child_exit env y r s')) (spec_name spc) = Some c
            \<and> state c = ChildRestarting a \<and> child_id c = minted env (spec_name spc))
         \<and> get_child (snd (handle_child_exit env' (spec_name spc) r' s')) y = Some cy"
proof -
  let ?x = "spec_name spc"
  have wf: "sup_wf s" unfolding assms(1) by (rule sup_wf_run) (rule sup_wf_new)
  have strat: "strategy s = RestForOne m w"
    unfolding assms(1) strategy_run by (simp add: Supervisor_new_def)
  have lt: "start_order cy < next_start_order s"
    using wf assms(2,3) by (auto simp: sup_wf_def start_orders_ok_def get_child_def)
  have new: "\<not> hm_contains (children s) ?x" and s': "s' = snd (start_child j spc s)"
    using assms(4) by (auto simp: start_child_def Let_def split: if_splits)
  have y: "y \<noteq> ?x" using new assms(2) by (auto simp: hm_contains_def get_child_def)
  let ?cx = "\<lparr>child_id = j, spec = spc, state = ChildRunning, start_order = next_start_order s\<rparr>"
  have ch: "hm_get (children s') ?x = Some ?cx" "hm_get (children s') y = Some cy"
    "strategy s' = RestForOne m w"
    using new assms(2) y strat by (simp_all add: s' start_child_def Let_def hm_simps get_child_def)
  have agree: "child_names_agree s'"
    using sup_wf_start_child [OF wf] by (simp add: s' sup_wf_def)
  show ?thesis
    using exit_granted(4) [OF assms(5) agree, of ?x] exit_granted(4) [OF assms(6) agree, of y] ch lt
    by (simp add: get_child_def restart_scope_def less_imp_le)
qed

lemma rest_for_one_follows_start_time_example:
  "\<exists>s s' env cy.
     s = fold sup_apply [StartChild (ActorId 11) (ChildSpec_new ''a'')]
           (Supervisor_new (ActorId 1) (RestForOne 2 100))
     \<and> get_child s ''a'' = Some cy \<and> start_child (ActorId 12) (ChildSpec_new ''b'') s = (Ok (ActorId 12), s')
     \<and> (\<exists>c a. get_child (snd (handle_child_exit env ''a'' Killed s')) ''b'' = Some c
            \<and> state c = ChildRestarting a \<and> child_id c = minted env ''b'')
     \<and> get_child (snd (handle_child_exit env ''b'' Killed s')) ''a'' = Some cy"
proof -
  let ?s = "fold sup_apply [StartChild (ActorId 11) (ChildSpec_new ''a'')]
           (Supervisor_new (ActorId 1) (RestForOne 2 100))"
  let ?b = "ChildSpec_new ''b''"
  let ?s' = "snd (start_child (ActorId 12) ?b ?s)"
  let ?cy = "\<lparr>child_id = ActorId 11, spec = ChildSpec_new ''a'', state = ChildRunning, start_order = 0\<rparr>"
  have nm: "spec_name ?b = ''b''" by (simp add: ChildSpec_new_def)
  have y: "get_child ?s ''a'' = Some ?cy" and n: "next_start_order ?s \<noteq> - 1"
    and st: "start_child (ActorId 12) ?b ?s = (Ok (ActorId 12), ?s')"
    and ga: "restart_granted demo_env ''a'' Killed ?s'"
    and gb: "restart_granted demo_env (spec_name ?b) Killed ?s'"
    by code_simp+
  show ?thesis
    using rest_for_one_follows_start_time [OF refl y n st ga gb] y st unfolding nm by blast
qed


definition demo_exhausted :: supervisor where
  "demo_exhausted = sup_apply (ChildExit ''a'' Killed demo_env) (demo_sup (OneForOne 1 100))"


text \<open>Setting one child's \<open>significant\<close> flag.\<close>

definition with_significant :: "bool \<Rightarrow> string \<Rightarrow> supervisor \<Rightarrow> supervisor" where
  "with_significant b nm s =
     s\<lparr>children := hm_modify (children s) nm (\<lambda>c. c\<lparr>spec := ChildSpec_significant b (spec c)\<rparr>)\<rparr>"

lemma hm_map_commute:
  assumes "\<And>k v. f k (g k v) = h k (f' k v)"
  shows "hm_map (hm_map m g) f = hm_map (hm_map m f') h"
  using assms by (induction m) (auto simp: hm_map_def)

lemma with_significant_simps [simp]:
  "restart_counts (with_significant b nm s) = restart_counts s"
  "strategy (with_significant b nm s) = strategy s"
  "total_restarts (with_significant b nm s) = total_restarts s"
  "escalation_action (with_significant b nm s) = escalation_action s"
  "hm_get (children (with_significant b nm s)) k =
     (if k = nm then map_option (\<lambda>c. c\<lparr>spec := ChildSpec_significant b (spec c)\<rparr>) (hm_get (children s) k)
      else hm_get (children s) k)"
  by (simp_all add: with_significant_def hm_simps)

lemma with_significant_record_bump:
  "bump_total_restarts (record_restart now k (with_significant b nm s)) =
     with_significant b nm (bump_total_restarts (record_restart now k s))"
  by (simp add: sup_update_defs with_significant_def)

lemma with_significant_set_state:
  "set_child_state k st (with_significant b nm s) = with_significant b nm (set_child_state k st s)"
  unfolding set_child_state_def with_significant_def hm_modify_def
  by (simp, rule arg_cong [where f = "\<lambda>m. s\<lparr>children := m\<rparr>"], rule hm_map_commute, simp)

lemma with_significant_checks:
  "check_restart_allowed now k m w (with_significant b nm s) = check_restart_allowed now k m w s"
  "restart_attempt (with_significant b nm s) = restart_attempt s"
  by (auto simp: check_restart_allowed_def restart_attempt_def)

lemma with_significant_exceeded:
  "handle_max_restarts_exceeded k m (with_significant b nm s) =
     (fst (handle_max_restarts_exceeded k m s),
      with_significant b nm (snd (handle_max_restarts_exceeded k m s)))"
  by (simp add: handle_max_restarts_exceeded_def Let_def with_significant_set_state
      split: escalation_action.split)

lemma with_significant_map:
  assumes "\<And>k c. f k (c\<lparr>spec := ChildSpec_significant b (spec c)\<rparr>) =
             (f k c)\<lparr>spec := ChildSpec_significant b (spec (f k c))\<rparr>"
  shows "(with_significant b nm s)\<lparr>children := hm_map (children (with_significant b nm s)) f\<rparr> =
         with_significant b nm (s\<lparr>children := hm_map (children s) f\<rparr>)"
  unfolding with_significant_def hm_modify_def
  by (simp, rule arg_cong [where f = "\<lambda>m. s\<lparr>children := m\<rparr>"], rule hm_map_commute,
      simp add: assms)

text \<open>
  \<open>ChildSpec::significant\<close> has no effect on supervision. Two supervisors that differ
  only in the flag of the exiting child return the same result for its exit and end in
  states that differ only in that flag: no escalation to the parent takes place.
\<close>

lemma significant_flag_inert:
  "handle_child_exit env nm r (with_significant b nm s) =
     (fst (handle_child_exit env nm r s), with_significant b nm (snd (handle_child_exit env nm r s)))"
proof (cases "hm_get (children s) nm")
  case None
  then show ?thesis by (simp add: handle_child_exit_def)
next
  case (Some c)
  note wm = with_significant_map [where b = b and nm = nm]
  show ?thesis
    using Some
    by (cases "strategy s")
       (simp_all add: handle_child_exit_def sup_restart_defs Let_def with_significant_set_state
         with_significant_checks with_significant_exceeded with_significant_record_bump wm
         hm_modify_def ChildSpec_significant_def cong: if_cong)
qed


definition demo_transient :: supervisor where
  "demo_transient = sup_apply (StartChild (ActorId 20)
     (ChildSpec_restart_policy Transient (ChildSpec_new ''t''))) (demo_sup (OneForOne 3 100))"


lemma foldl_count_child:
  "running (foldl count_child st cs) = running st + length (filter (\<lambda>c. state c = ChildRunning) cs)"
  "stopped (foldl count_child st cs) = stopped st + length (filter (\<lambda>c. \<not> is_active (state c)) cs)"
  "restarting (foldl count_child st cs) = restarting st +
     length (filter (\<lambda>c. is_active (state c) \<and> state c \<noteq> ChildRunning) cs)"
  by (induction cs arbitrary: st) (auto simp: is_active_def split: child_state.splits)

lemma count_columns:
  "running (count_children s) = length (filter (\<lambda>c. state c = ChildRunning) (which_children s))"
  "stopped (count_children s) = length (filter (\<lambda>c. \<not> is_active (state c)) (which_children s))"
  "running (count_children s) + stopped (count_children s) + restarting (count_children s) =
     length (children s)"
proof -
  have "length (filter (\<lambda>c. state c = ChildRunning) (which_children s))
      + length (filter (\<lambda>c. \<not> is_active (state c)) (which_children s))
      + length (filter (\<lambda>c. is_active (state c) \<and> state c \<noteq> ChildRunning) (which_children s))
      = length (which_children s)"
    by (rule length_filter_partition3) (auto simp: is_active_def)
  then show "running (count_children s) + stopped (count_children s) + restarting (count_children s) =
     length (children s)"
    by (simp add: count_children_def which_children_def foldl_count_child hm_values_def Let_def)
qed (simp_all add: count_children_def which_children_def foldl_count_child Let_def)

text \<open>
  The statistics partition the children. Every child is counted in exactly one of
  the three columns (a stopping child counts as stopped), and the columns add up to the
  number of children.
\<close>

lemma count_children_partition:
  "let st = count_children s
   in total st = length (children s)
      \<and> running st + stopped st + restarting st = total st
      \<and> running st = length (filter (\<lambda>c. state c = ChildRunning) (which_children s))
      \<and> stopped st = length (filter (\<lambda>c. \<not> is_active (state c)) (which_children s))
      \<and> stat_total_restarts st = total_restarts s"
  using count_columns [of s] by (simp add: Let_def) (simp add: count_children_def Let_def)

end
