(* ===== verification/Supervisor_Window.thy ===== *)
theory Supervisor_Window
  imports Supervisor
begin

text \<open>
  The restart rate limit of \<open>src/supervisor.rs\<close> over whole runs: however calls are
  ordered, a child is granted at most \<open>max_restarts\<close> restarts in any window of length
  \<open>within\<close>, as long as the clock does not run backwards. The proof relates the
  timestamps that \<open>record_restart\<close> keeps, which forget what has left the window, to
  the full log of grants.
\<close>

section \<open>The log of granted restarts\<close>

text \<open>\<open>Instant::now\<close> is monotonic within one exit and from one exit to the next.\<close>

fun clock_ok :: "instant \<Rightarrow> sup_event list \<Rightarrow> bool" where
  "clock_ok c [] = True"
| "clock_ok c (ChildExit nm r env # es) =
     (c \<le> now_check env \<and> now_check env \<le> now_record env \<and> clock_ok (now_record env) es)"
| "clock_ok c (e # es) = clock_ok c es"

text \<open>
  A grant is visible from outside: after an exit is handled the child is either
  restarting (granted) or stopped.
\<close>

fun is_restarting :: "child_state \<Rightarrow> bool" where
  "is_restarting (ChildRestarting _) = True"
| "is_restarting _ = False"

definition restarted_now :: "string \<Rightarrow> supervisor \<Rightarrow> bool" where
  "restarted_now nm s =
     (case get_child s nm of None \<Rightarrow> False | Some c \<Rightarrow> is_restarting (state c))"

fun grants :: "supervisor \<Rightarrow> sup_event list \<Rightarrow> (string \<times> instant) list" where
  "grants s [] = []"
| "grants s (ChildExit nm r env # es) =
     (let s' = sup_apply (ChildExit nm r env) s
      in (if restarted_now nm s' then [(nm, now_record env)] else []) @ grants s' es)"
| "grants s (e # es) = grants (sup_apply e s) es"

definition log_times :: "string \<Rightarrow> (string \<times> instant) list \<Rightarrow> instant list" where
  "log_times nm log = map snd (filter (\<lambda>g. fst g = nm) log)"

definition granted_in_window ::
  "duration \<Rightarrow> instant \<Rightarrow> string \<Rightarrow> (string \<times> instant) list \<Rightarrow> nat" where
  "granted_in_window win T nm log =
     length (filter (\<lambda>t. t \<le> T \<and> duration_since T t < win) (log_times nm log))"

definition stored_times :: "supervisor \<Rightarrow> string \<Rightarrow> instant list" where
  "stored_times s nm = (case hm_get (restart_counts s) nm of None \<Rightarrow> [] | Some v \<Rightarrow> v)"

abbreviation recent :: "duration \<Rightarrow> instant \<Rightarrow> instant list \<Rightarrow> instant list" where
  "recent win now ts \<equiv> filter (\<lambda>t. duration_since now t < win) ts"

lemma log_times_append: "log_times nm (l @ l') = log_times nm l @ log_times nm l'"
  by (simp add: log_times_def)

lemma log_times_single: "log_times nm [(k, t)] = (if k = nm then [t] else [])"
  by (simp add: log_times_def)

section \<open>The stored history is the log, up to what has expired\<close>

definition window_inv ::
  "u32 \<Rightarrow> duration \<Rightarrow> supervisor \<Rightarrow> instant \<Rightarrow> (string \<times> instant) list \<Rightarrow> bool" where
  "window_inv m win s c log =
     (sup_wf s \<and> max_restarts (strategy s) = Some m \<and> within (strategy s) = Some win \<and>
      (\<forall>nm. \<forall>t \<in> set (log_times nm log). t \<le> c) \<and>
      (\<forall>nm now. c \<le> now \<longrightarrow>
         recent win now (stored_times s nm) = recent win now (log_times nm log)) \<and>
      (\<forall>nm T. granted_in_window win T nm log \<le> unat m))"

lemma restarted_iff_granted:
  assumes "sup_wf s" and "hm_get (children s) nm = Some ch"
  shows "restarted_now nm (snd (handle_child_exit env nm r s)) \<longleftrightarrow> restart_granted env nm r s"
proof (cases "restart_granted env nm r s")
  case True
  have "restart_scope s nm nm ch"
    using True assms(2) by (cases "strategy s") (auto simp: restart_scope_def restart_granted_def)
  then show ?thesis
    using True assms exit_granted(4) [OF True, of nm]
    by (simp add: restarted_now_def get_child_def sup_wf_def)
next
  case False
  then show ?thesis
    using exit_refused [OF False assms(2)] assms(2)
    by (auto simp: restarted_now_def get_child_def)
qed

lemma not_restarted_unknown:
  "hm_get (children s) nm = None \<Longrightarrow> \<not> restarted_now nm (snd (handle_child_exit env nm r s))"
  by (simp add: exit_unknown restarted_now_def get_child_def)

lemma stored_times_record:
  assumes "within (strategy s) = Some win"
  shows "stored_times (record_restart now nm s) k =
    (if k = nm then recent win now (stored_times s nm @ [now]) else stored_times s k)"
  using assms by (auto simp: stored_times_def record_restart_def Let_def hm_simps split: option.splits)

lemma recent_mono: "now \<le> now' \<Longrightarrow> recent win now' (recent win now ts) = recent win now' ts"
  by (rule filter_filter_subset) (simp add: duration_since_def)

lemma window_count_le_recent:
  assumes "now \<le> T"
  shows "length (filter (\<lambda>t. t \<le> T \<and> duration_since T t < win) ts) \<le> length (recent win now ts)"
  using assms by (intro length_filter_mono) (auto simp: duration_since_def)

lemma window_inv_grant:
  assumes inv: "window_inv m win s c log" and m: "m \<noteq> 0"
    and clk: "c \<le> now_check env" "now_check env \<le> now_record env"
    and gr: "restart_granted env nm r s"
  shows "window_inv m win (snd (handle_child_exit env nm r s)) (now_record env)
           (log @ [(nm, now_record env)])"
proof -
  let ?t = "snd (handle_child_exit env nm r s)" and ?nr = "now_record env" and ?nc = "now_check env"
  have wf: "sup_wf s" and mx: "max_restarts (strategy s) = Some m"
    and wi: "within (strategy s) = Some win"
    and old: "\<And>nm t. t \<in> set (log_times nm log) \<Longrightarrow> t \<le> c"
    and st: "\<And>nm now. c \<le> now \<Longrightarrow>
         recent win now (stored_times s nm) = recent win now (log_times nm log)"
    and cnt: "\<And>nm T. granted_in_window win T nm log \<le> unat m"
    using inv by (auto simp: window_inv_def)
  have rc: "stored_times ?t k = stored_times (record_restart ?nr nm s) k" for k
    using exit_granted(2) [OF gr] wf by (simp add: stored_times_def sup_wf_def)
  have small: "length (recent win ?nc (log_times nm log)) \<le> unat m"
  proof -
    have "recent win ?nc (log_times nm log) =
            filter (\<lambda>t. t \<le> ?nc \<and> duration_since ?nc t < win) (log_times nm log)"
      using old clk by (intro filter_cong) force+
    then show ?thesis using cnt [of ?nc nm] by (simp add: granted_in_window_def)
  qed
  have "length (recent win ?nc (log_times nm log)) < unat m"
  proof -
    have "length (recent win ?nc (stored_times s nm)) < unat m"
      if "length (recent win ?nc (stored_times s nm)) < 2 ^ 32"
      using gr mx wi m that
      by (auto simp: restart_granted_def check_restart_allowed_def Let_def stored_times_def
          word_less_nat_alt unat_u32_try_from_or unat_gt_0 split: option.splits)
    moreover have "length (recent win ?nc (stored_times s nm)) < 2 ^ 32"
      using small unat_u32_bound [of m] st [OF clk(1)] by simp
    ultimately show ?thesis using st [OF clk(1)] by simp
  qed
  then have room: "length (filter (\<lambda>t. t \<le> T \<and> duration_since T t < win) (log_times nm log)) < unat m"
    if "?nr \<le> T" for T
    using window_count_le_recent [of ?nc T win "log_times nm log"] clk(2) that by linarith
  have count: "granted_in_window win T k (log @ [(nm, ?nr)]) \<le> unat m" for T k
    using cnt [of T k] room [of T]
    by (cases "k = nm"; cases "?nr \<le> T")
       (auto simp: granted_in_window_def log_times_append log_times_single)
  have stored: "recent win now (stored_times ?t k) = recent win now (log_times k (log @ [(nm, ?nr)]))"
    if "?nr \<le> now" for now k
  proof -
    have le: "c \<le> now" using clk that by simp
    have "recent win now (stored_times ?t nm) = recent win now (stored_times s nm @ [?nr])"
      unfolding rc stored_times_record [OF wi] if_P [OF refl] by (rule recent_mono [OF that])
    then show ?thesis
      using st [OF le, of k] st [OF le, of nm]
      by (cases "k = nm")
         (simp_all add: rc stored_times_record [OF wi] log_times_append log_times_single)
  qed
  show ?thesis
    unfolding window_inv_def
    using sup_wf_handle_child_exit [OF wf] mx wi strategy_exit old clk count stored
    by (fastforce simp: log_times_append log_times_single split: if_splits)
qed

lemma window_inv_frame:
  assumes "window_inv m win s c log" and "sup_wf t" and "strategy t = strategy s"
    and "restart_counts t = restart_counts s" and "c \<le> c'"
  shows "window_inv m win t c' log"
  using assms unfolding window_inv_def stored_times_def by (metis le_trans)

lemma window_inv_other_event:
  assumes "window_inv m win s c log" and "\<And>nm r env. e \<noteq> ChildExit nm r env"
  shows "window_inv m win (sup_apply e s) c log"
proof (rule window_inv_frame [OF assms(1)])
  show "sup_wf (sup_apply e s)"
    using assms(1) by (simp add: window_inv_def sup_wf_apply)
  show "strategy (sup_apply e s) = strategy s" by (rule strategy_apply)
  show "restart_counts (sup_apply e s) = restart_counts s"
    using assms(2)
    by (cases e) (auto simp: sup_event_defs split: option.splits child_state.splits)
qed simp

lemma window_inv_exit:
  fixes nm r
  assumes inv: "window_inv m win s c log" and m: "m \<noteq> 0"
    and clk: "c \<le> now_check env" "now_check env \<le> now_record env"
  defines "t \<equiv> snd (handle_child_exit env nm r s)"
  shows "window_inv m win t (now_record env)
           (log @ (if restarted_now nm t then [(nm, now_record env)] else []))"
proof (cases "restart_granted env nm r s")
  case True
  obtain ch where "hm_get (children s) nm = Some ch"
    using True by (auto simp: restart_granted_def split: option.splits)
  then have "restarted_now nm t"
    using True restarted_iff_granted inv by (simp add: t_def window_inv_def)
  then show ?thesis using window_inv_grant [OF inv m clk True] by (simp add: t_def)
next
  case False
  have no: "\<not> restarted_now nm t"
    using False restarted_iff_granted [of s nm] not_restarted_unknown [of s nm] inv
    by (cases "hm_get (children s) nm") (auto simp: t_def window_inv_def)
  have "restart_counts t = restart_counts s"
    using exit_refused [OF False] exit_unknown [of s nm env r]
    by (cases "hm_get (children s) nm") (auto simp: t_def)
  then have "window_inv m win t (now_record env) log"
    using inv clk unfolding t_def
    by (intro window_inv_frame [OF inv]) (simp_all add: window_inv_def sup_wf_handle_child_exit strategy_exit)
  then show ?thesis using no by simp
qed

lemma window_inv_run:
  assumes "window_inv m win s c log" and "m \<noteq> 0" and "clock_ok c es"
  shows "\<exists>c'. window_inv m win (fold sup_apply es s) c' (log @ grants s es)"
  using assms
proof (induction es arbitrary: s c log)
  case Nil
  then show ?case by auto
next
  case (Cons e es)
  show ?case
  proof (cases "\<exists>nm r env. e = ChildExit nm r env")
    case False
    have "window_inv m win (sup_apply e s) c log"
      using window_inv_other_event [OF Cons.prems(1)] False by blast
    moreover have "clock_ok c es \<and> grants s (e # es) = grants (sup_apply e s) es"
      using False Cons.prems(3) by (cases e) auto
    ultimately show ?thesis using Cons.IH Cons.prems(2) by (metis fold_simps(2))
  next
    case True
    then obtain nm r env where ChildExit: "e = ChildExit nm r env" by blast
    have "window_inv m win (sup_apply e s) (now_record env)
            (log @ (if restarted_now nm (sup_apply e s) then [(nm, now_record env)] else []))"
      using window_inv_exit Cons.prems ChildExit by simp
    from Cons.IH [OF this Cons.prems(2)] Cons.prems(3) ChildExit show ?thesis
      by (simp add: Let_def)
  qed
qed

section \<open>The rate limit\<close>

text \<open>
  C3: sliding-window restart limit. Start a supervisor with a windowed strategy whose
  \<open>max_restarts\<close> is not zero, and let any sequence of calls (starts, stops, exits,
  removals, escalation changes) reach it in any order, with a clock that does not run
  backwards. Then for every child name and every instant \<open>T\<close>, at most
  \<open>max_restarts\<close> restarts of that child were granted in the window of length
  \<open>within\<close> that ends at \<open>T\<close>.
\<close>

theorem restart_rate_limited:
  assumes "max_restarts strat = Some m" and "within strat = Some win" and "m \<noteq> 0"
    and "clock_ok 0 es"
  shows "granted_in_window win T nm (grants (Supervisor_new i strat) es) \<le> unat m"
proof -
  have "window_inv m win (Supervisor_new i strat) 0 []"
    using assms(1,2) sup_wf_new
    by (simp add: window_inv_def stored_times_def granted_in_window_def log_times_def)
       (simp add: Supervisor_new_def)
  from window_inv_run [OF this assms(3,4)] show ?thesis
    by (auto simp: window_inv_def)
qed

definition demo_exit :: "nat \<Rightarrow> sup_event" where
  "demo_exit t = ChildExit ''w'' Killed
     \<lparr>now_check = t, now_record = t + 1, minted = (\<lambda>_. ActorId 7)\<rparr>"

definition demo_events :: "sup_event list" where
  "demo_events = [StartChild (ActorId 2) (ChildSpec_new ''w''),
     demo_exit 10, demo_exit 20, demo_exit 30, demo_exit 200]"

theorem restart_rate_limited_witness:
  "grants (Supervisor_new (ActorId 1) (OneForOne 2 100)) demo_events = [(''w'', 11), (''w'', 21), (''w'', 201)]
   \<and> granted_in_window 100 31 ''w'' (grants (Supervisor_new (ActorId 1) (OneForOne 2 100)) demo_events)
       \<le> unat (2 :: u32)"
proof
  show "grants (Supervisor_new (ActorId 1) (OneForOne 2 100)) demo_events =
          [(''w'', 11), (''w'', 21), (''w'', 201)]"
    by code_simp
  show "granted_in_window 100 31 ''w'' (grants (Supervisor_new (ActorId 1) (OneForOne 2 100)) demo_events)
       \<le> unat (2 :: u32)"
    by (rule restart_rate_limited) (simp_all add: demo_events_def demo_exit_def)
qed

end
