(* ===== verification/Supervisor_Spec.thy ===== *)
theory Supervisor_Spec
  imports Supervisor_Window
begin

text \<open>
  The abstract model of one-for-one supervision that the repository keeps in
  \<open>spec/supervisor.qnt\<close>, and the supervisor of \<open>src/supervisor.rs\<close> as an implementation of
  it. The model has no time, so the implementation is compared with it while the readings
  of the clock stay within one window of the strategy; what happens to the model's third
  invariant once the window has passed is shown at the end.
\<close>

section \<open>The model\<close>

text \<open>Its variables; the set of children is the domain of \<open>q_state\<close>.\<close>

record quint =
  q_state :: "string \<rightharpoonup> string"
  q_restarts :: "string \<Rightarrow> nat"
  q_escalated :: "string \<Rightarrow> bool"

definition LIFECYCLE :: "string set" where
  "LIFECYCLE = {''running'', ''restarting'', ''stopped''}"

definition quint_init :: "quint \<Rightarrow> bool" where
  "quint_init q =
     ((\<forall>c \<in> dom (q_state q). q_state q c = Some ''running'') \<and> q_restarts q = (\<lambda>_. 0)
      \<and> q_escalated q = (\<lambda>_. False))"

inductive quint_step :: "nat \<Rightarrow> quint \<Rightarrow> quint \<Rightarrow> bool" for MAX_RESTARTS :: nat where
  crash_restart:
    "q_state q c = Some ''running'' \<Longrightarrow> q_restarts q c < MAX_RESTARTS \<Longrightarrow>
     quint_step MAX_RESTARTS q
       (q\<lparr>q_restarts := (q_restarts q)(c := q_restarts q c + 1),
          q_state := (q_state q)(c \<mapsto> ''restarting'')\<rparr>)"
| crash_escalate:
    "q_state q c = Some ''running'' \<Longrightarrow> \<not> q_restarts q c < MAX_RESTARTS \<Longrightarrow>
     quint_step MAX_RESTARTS q
       (q\<lparr>q_state := (q_state q)(c \<mapsto> ''stopped''), q_escalated := (q_escalated q)(c := True)\<rparr>)"
| resume:
    "q_state q c = Some ''restarting'' \<Longrightarrow>
     quint_step MAX_RESTARTS q (q\<lparr>q_state := (q_state q)(c \<mapsto> ''running'')\<rparr>)"

definition all_invariants :: "nat \<Rightarrow> quint \<Rightarrow> bool" where
  "all_invariants MAX_RESTARTS q =
     ((\<forall>c \<in> dom (q_state q). the (q_state q c) \<in> LIFECYCLE)
      \<and> (\<forall>c. q_state q c = Some ''running'' \<longrightarrow> q_restarts q c \<le> MAX_RESTARTS)
      \<and> (\<forall>c. q_escalated q c \<longrightarrow> q_state q c = Some ''stopped''))"

text \<open>
  The invariants are not inductive as they stand: a restarting child becomes a running
  one, so its count has to be bounded too.
\<close>

definition quint_ok :: "nat \<Rightarrow> quint \<Rightarrow> bool" where
  "quint_ok MAX_RESTARTS q = (all_invariants MAX_RESTARTS q \<and> (\<forall>c. q_restarts q c \<le> MAX_RESTARTS))"

lemma quint_ok_init: "quint_init q \<Longrightarrow> quint_ok m q"
  by (auto simp: quint_init_def quint_ok_def all_invariants_def LIFECYCLE_def)

lemma quint_ok_step: "quint_step m q q' \<Longrightarrow> quint_ok m q \<Longrightarrow> quint_ok m q'"
  by (induction rule: quint_step.induct) (auto simp: quint_ok_def all_invariants_def LIFECYCLE_def)

lemma quint_ok_reachable: "(quint_step m)\<^sup>*\<^sup>* q q' \<Longrightarrow> quint_ok m q \<Longrightarrow> quint_ok m q'"
  by (induction rule: rtranclp_induct) (auto intro: quint_ok_step)

lemma quint_escalated_step: "quint_step m q q' \<Longrightarrow> q_escalated q c \<Longrightarrow> q_escalated q' c"
  by (induction rule: quint_step.induct) auto

lemma quint_escalated_reachable: "(quint_step m)\<^sup>*\<^sup>* q q' \<Longrightarrow> q_escalated q c \<Longrightarrow> q_escalated q' c"
  by (induction rule: rtranclp_induct) (auto intro: quint_escalated_step)

section \<open>The supervisor as an instance of the model\<close>

fun lifecycle_of :: "child_state \<Rightarrow> string" where
  "lifecycle_of ChildRunning = ''running''"
| "lifecycle_of (ChildRestarting _) = ''restarting''"
| "lifecycle_of (ChildStopped _) = ''stopped''"
| "lifecycle_of ChildStopping = ''stopping''"

definition quint_of :: "supervisor \<Rightarrow> quint" where
  "quint_of s =
     \<lparr>q_state = (\<lambda>nm. map_option (\<lambda>c. lifecycle_of (state c)) (hm_get (children s) nm)),
      q_restarts = (\<lambda>nm. length (stored_times s nm)),
      q_escalated = (\<lambda>nm. \<exists>c r. hm_get (children s) nm = Some c \<and> state c = ChildStopped r)\<rparr>"

text \<open>
  The calls that the model covers: abnormal exits, not of a child that is already
  restarting, and reports that a child runs again, with clock readings from \<open>T\<close>.
\<close>

fun quint_guard :: "instant set \<Rightarrow> sup_event \<Rightarrow> supervisor \<Rightarrow> bool" where
  "quint_guard T (ChildExit nm r env) s =
     (is_abnormal r \<and> now_check env \<in> T \<and> now_record env \<in> T \<and> \<not> restarted_now nm s)"
| "quint_guard T (MarkRunning nm) s = True"
| "quint_guard T _ s = False"

text \<open>What the supervisor keeps beside the variables of the model.\<close>

definition quint_side :: "u32 \<Rightarrow> duration \<Rightarrow> instant set \<Rightarrow> supervisor \<Rightarrow> bool" where
  "quint_side m win T s =
     (strategy s = OneForOne m win
      \<and> (\<forall>nm c. hm_get (children s) nm = Some c \<longrightarrow> restart_policy (spec c) = Permanent)
      \<and> (\<forall>nm. set (stored_times s nm) \<subseteq> T \<and> length (stored_times s nm) \<le> unat m)
      \<and> (\<forall>nm c r. hm_get (children s) nm = Some c \<longrightarrow> state c = ChildStopped r \<longrightarrow> length (stored_times s nm) = unat m))"

definition one_window :: "duration \<Rightarrow> instant set \<Rightarrow> bool" where
  "one_window win T = (\<forall>a \<in> T. \<forall>b \<in> T. duration_since a b < win)"

lemma recent_all: "one_window win T \<Longrightarrow> now \<in> T \<Longrightarrow> set ts \<subseteq> T \<Longrightarrow> recent win now ts = ts"
  unfolding filter_id_conv one_window_def by blast

lemma check_in_window:
  assumes "quint_side m win T s" and "one_window win T" and "now \<in> T" and "m \<noteq> 0"
  shows "check_restart_allowed now nm m win s \<longleftrightarrow> length (stored_times s nm) < unat m"
proof -
  have ts: "set (stored_times s nm) \<subseteq> T" "length (stored_times s nm) \<le> unat m"
    using assms(1) by (auto simp: quint_side_def)
  have "recent win now (stored_times s nm) = stored_times s nm" by (rule recent_all [OF assms(2,3) ts(1)])
  moreover have "unat (u32_try_from_or MAX_RESTART_THRESHOLD (length (stored_times s nm))) = length (stored_times s nm)"
    using ts(2) unat_u32_bound [of m] by (intro unat_u32_try_from_or) simp
  ultimately show ?thesis
    using assms(4) by (auto simp: check_restart_allowed_def stored_times_def word_less_nat_alt unat_gt_0 split: option.splits)
qed

lemma record_in_window:
  assumes "quint_side m win T s" and "one_window win T" and "now \<in> T"
  shows "stored_times (record_restart now nm s) k = (if k = nm then stored_times s nm @ [now] else stored_times s k)"
proof -
  have "within (strategy s) = Some win" using assms(1) by (simp add: quint_side_def)
  moreover have "recent win now (stored_times s nm @ [now]) = stored_times s nm @ [now]"
    using assms(1,3) by (intro recent_all [OF assms(2,3)]) (simp add: quint_side_def)
  ultimately show ?thesis using stored_times_record [of s win now nm k] by simp
qed


text \<open>One abnormal exit of a child, in the terms of the model.\<close>

lemma exit_cases:
  assumes side: "quint_side m win T s" and win: "one_window win T" and m: "m \<noteq> 0"
    and g: "quint_guard T (ChildExit nm r env) s" and c: "hm_get (children s) nm = Some c"
  defines "s' \<equiv> sup_apply (ChildExit nm r env) s"
  shows "length (stored_times s nm) < unat m \<Longrightarrow>
      (\<exists>a i. \<forall>k. hm_get (children s') k =
         (if k = nm then Some (c\<lparr>state := ChildRestarting a, child_id := i\<rparr>) else hm_get (children s) k))
      \<and> (\<forall>k. stored_times s' k = (if k = nm then stored_times s nm @ [now_record env] else stored_times s k))"
    and "\<not> length (stored_times s nm) < unat m \<Longrightarrow> \<exists>q. s' = set_child_state nm (ChildStopped q) s"
proof -
  have st: "strategy s = OneForOne m win" "should_restart (restart_policy (spec c)) r"
    using side c by (auto simp: quint_side_def should_restart_def)
  have h: "s' = snd (restart_one_for_one env nm m win s)"
    using c st by (simp add: s'_def handle_child_exit_def)
  have t: "now_check env \<in> T" "now_record env \<in> T" using g by auto
  note chk = check_in_window [OF side win t(1) m, of nm]
  show "(\<exists>a i. \<forall>k. hm_get (children s') k =
         (if k = nm then Some (c\<lparr>state := ChildRestarting a, child_id := i\<rparr>) else hm_get (children s) k))
      \<and> (\<forall>k. stored_times s' k = (if k = nm then stored_times s nm @ [now_record env] else stored_times s k))"
    if "length (stored_times s nm) < unat m"
    using that chk c record_in_window [OF side win t(2), of nm]
    unfolding h by (auto simp: restart_one_for_one_def Let_def hm_simps stored_times_def)
  show "\<exists>q. s' = set_child_state nm (ChildStopped q) s" if "\<not> length (stored_times s nm) < unat m"
    using that chk handle_max_restarts_exceeded_snd [of nm m s] unfolding h by (simp add: restart_one_for_one_def)
qed


lemma stored_times_set_child_state [simp]: "stored_times (set_child_state nm st s) = stored_times s"
  by (simp add: stored_times_def fun_eq_iff)

lemma quint_of_set_child_state:
  assumes "hm_get (children s) nm = Some c"
  shows "quint_of (set_child_state nm st s) =
    (quint_of s)\<lparr>q_state := (q_state (quint_of s))(nm \<mapsto> lifecycle_of st),
                 q_escalated := (q_escalated (quint_of s))(nm := (\<exists>r. st = ChildStopped r))\<rparr>"
  using assms by (auto simp: quint_of_def fun_eq_iff)

lemma quint_side_set_child_state:
  assumes "quint_side m win T s" and "\<And>r. st = ChildStopped r \<Longrightarrow> length (stored_times s nm) = unat m"
  shows "quint_side m win T (set_child_state nm st s)"
  using assms unfolding quint_side_def by (auto split: if_splits)

text \<open>Every covered call is a step of the model or leaves its variables unchanged.\<close>

lemma exit_refines:
  assumes side: "quint_side m win T s" and ok: "quint_ok (unat m) (quint_of s)" and win: "one_window win T" and m: "m \<noteq> 0"
    and g: "quint_guard T (ChildExit nm r env) s"
  defines "s' \<equiv> sup_apply (ChildExit nm r env) s"
  shows "(quint_step (unat m))\<^sup>=\<^sup>= (quint_of s) (quint_of s') \<and> quint_side m win T s'"
proof (cases "hm_get (children s) nm")
  case None
  then show ?thesis using side by (simp add: s'_def exit_unknown)
next
  case (Some c)
  note ex = exit_cases [OF side win m g Some, folded s'_def]
  have "nm \<in> dom (q_state (quint_of s))" using Some by (simp add: quint_of_def dom_def)
  then have "the (q_state (quint_of s) nm) \<in> LIFECYCLE"
    using ok unfolding quint_ok_def all_invariants_def by blast
  then have st: "state c = ChildRunning \<or> (\<exists>q. state c = ChildStopped q)"
    using g Some by (cases "state c") (auto simp: LIFECYCLE_def quint_of_def restarted_now_def get_child_def)
  have len: "length (stored_times s nm) \<le> unat m" using side by (simp add: quint_side_def)
  show ?thesis
  proof (cases "length (stored_times s nm) < unat m")
    case True
    then have run: "state c = ChildRunning" using st side Some unfolding quint_side_def by force
    obtain a i where ch: "\<And>k. hm_get (children s') k =
        (if k = nm then Some (c\<lparr>state := ChildRestarting a, child_id := i\<rparr>) else hm_get (children s) k)"
      and ts: "\<And>k. stored_times s' k = (if k = nm then stored_times s nm @ [now_record env] else stored_times s k)"
      using ex(1) [OF True] by blast
    have "quint_of s' = (quint_of s)\<lparr>q_restarts := (q_restarts (quint_of s))(nm := q_restarts (quint_of s) nm + 1),
        q_state := (q_state (quint_of s))(nm \<mapsto> ''restarting'')\<rparr>"
      using run Some by (auto simp: quint_of_def ch ts fun_eq_iff)
    moreover have "q_state (quint_of s) nm = Some ''running''" "q_restarts (quint_of s) nm < unat m"
      using run Some True by (simp_all add: quint_of_def)
    ultimately have "quint_step (unat m) (quint_of s) (quint_of s')" by (simp only: quint_step.crash_restart)
    moreover have "quint_side m win T s'"
      using side True g Some strategy_apply [of "ChildExit nm r env" s] unfolding quint_side_def s'_def [symmetric] ch ts
      by (auto split: if_splits)
    ultimately show ?thesis by blast
  next
    case False
    then have full: "length (stored_times s nm) = unat m" using len by simp
    obtain q where s': "s' = set_child_state nm (ChildStopped q) s" using ex(2) [OF False] by blast
    have "(quint_step (unat m))\<^sup>=\<^sup>= (quint_of s) (quint_of s')"
    proof (cases "state c = ChildRunning")
      case True
      then have "quint_step (unat m) (quint_of s)
          ((quint_of s)\<lparr>q_state := (q_state (quint_of s))(nm \<mapsto> ''stopped''),
                        q_escalated := (q_escalated (quint_of s))(nm := True)\<rparr>)"
        using Some full by (intro quint_step.crash_escalate) (simp_all add: quint_of_def)
      then show ?thesis
        unfolding s' quint_of_set_child_state [OF Some] by simp
    next
      case False
      then obtain q' where "state c = ChildStopped q'" using st by blast
      then have "quint_of s' = quint_of s"
        using Some by (auto simp: quint_of_def s' fun_eq_iff)
      then show ?thesis by simp
    qed
    then show ?thesis using quint_side_set_child_state [OF side] full unfolding s' by blast
  qed
qed

lemma mark_refines:
  fixes nm :: string
  assumes side: "quint_side m win T s"
  defines "s' \<equiv> sup_apply (MarkRunning nm) s"
  shows "(quint_step (unat m))\<^sup>=\<^sup>= (quint_of s) (quint_of s') \<and> quint_side m win T s'"
proof (cases "\<exists>c a. hm_get (children s) nm = Some c \<and> state c = ChildRestarting a")
  case True
  then obtain c a where c: "hm_get (children s) nm = Some c" "state c = ChildRestarting a" by blast
  then have s': "s' = set_child_state nm ChildRunning s" by (simp add: s'_def mark_child_running_def)
  have "quint_step (unat m) (quint_of s) ((quint_of s)\<lparr>q_state := (q_state (quint_of s))(nm \<mapsto> ''running'')\<rparr>)"
    using c by (intro quint_step.resume) (simp add: quint_of_def)
  moreover have "(quint_of s)\<lparr>q_state := (q_state (quint_of s))(nm \<mapsto> ''running'')\<rparr> = quint_of s'"
    using c unfolding s' by (auto simp: quint_of_def fun_eq_iff)
  ultimately show ?thesis using quint_side_set_child_state [OF side, of ChildRunning nm] s' by simp
next
  case False
  then have "s' = s \<or> (\<exists>c. hm_get (children s) nm = Some c \<and> state c = ChildRunning \<and> s' = set_child_state nm ChildRunning s)"
    by (auto simp: s'_def mark_child_running_def split: option.splits child_state.splits)
  moreover have "quint_of (set_child_state nm ChildRunning s) = quint_of s"
    if "hm_get (children s) nm = Some c" "state c = ChildRunning" for c
    using that by (auto simp: quint_of_def fun_eq_iff)
  ultimately show ?thesis using side quint_side_set_child_state [OF side, of ChildRunning nm] by auto
qed


definition quint_run_inv :: "u32 \<Rightarrow> duration \<Rightarrow> instant set \<Rightarrow> quint \<Rightarrow> supervisor \<Rightarrow> bool" where
  "quint_run_inv m win T q s =
     (m \<noteq> 0 \<and> one_window win T \<and> quint_side m win T s \<and> quint_ok (unat m) (quint_of s)
      \<and> (quint_step (unat m))\<^sup>*\<^sup>* q (quint_of s))"

lemma quint_run_inv_step:
  assumes "quint_run_inv m win T q s" and "quint_guard T e s"
  shows "quint_run_inv m win T q (sup_apply e s)"
proof -
  have "(quint_step (unat m))\<^sup>=\<^sup>= (quint_of s) (quint_of (sup_apply e s)) \<and> quint_side m win T (sup_apply e s)"
    using assms exit_refines [of m win T s] mark_refines [of m win T s] unfolding quint_run_inv_def
    by (cases e) (simp_all only: quint_guard.simps simp_thms)
  then have "(quint_step (unat m))\<^sup>*\<^sup>* (quint_of s) (quint_of (sup_apply e s))" "quint_side m win T (sup_apply e s)"
    by auto
  then show ?thesis
    using assms(1) quint_ok_reachable unfolding quint_run_inv_def by (metis rtranclp_trans)
qed

interpretation quint_machine: event_machine "quint_guard T" sup_apply "quint_run_inv m win T q" for m win T q
  by unfold_locales (rule quint_run_inv_step)

lemma quint_run_inv_start: "quint_run_inv m win T q s \<Longrightarrow> quint_run_inv m win T (quint_of s) s"
  by (simp add: quint_run_inv_def)

lemma quint_start:
  assumes "strategy s = OneForOne m win" and "m \<noteq> 0" and "one_window win T"
    and "\<forall>nm c. hm_get (children s) nm = Some c \<longrightarrow> restart_policy (spec c) = Permanent" and "quint_init (quint_of s)"
  shows "quint_run_inv m win T (quint_of s) s"
proof -
  have "stored_times s nm = []" for nm using assms(5) by (simp add: quint_init_def quint_of_def fun_eq_iff)
  moreover have "state c \<noteq> ChildStopped r" if "hm_get (children s) nm = Some c" for nm c r
    using assms(5) that by (auto simp: quint_init_def quint_of_def fun_eq_iff)
  ultimately have "quint_side m win T s" using assms(1,4) by (auto simp: quint_side_def)
  then show ?thesis using assms(2,3) quint_ok_init [OF assms(5)] by (simp add: quint_run_inv_def)
qed

section \<open>Properties\<close>

text \<open>
  C5: the one-for-one supervisor implements the abstract model of \<open>spec/supervisor.qnt\<close>.
  From a supervisor whose children are permanent and running and have no restarts on
  record, every sequence of abnormal exits (of children that are not just restarting) and
  of reports that a child runs again, with clock readings within one window, is a path of
  the model; so the invariants of the model hold after it, and a child that was
  escalated stays stopped in whatever follows.
\<close>

theorem one_for_one_implements_model:
  assumes "strategy s = OneForOne m win" and "m \<noteq> 0" and "one_window win T"
    and "\<forall>nm c. hm_get (children s) nm = Some c \<longrightarrow> restart_policy (spec c) = Permanent" and "quint_init (quint_of s)"
    and "guarded_run (quint_guard T) sup_apply (es @ fs) s"
  shows "(quint_step (unat m))\<^sup>*\<^sup>* (quint_of s) (quint_of (fold sup_apply es s))
    \<and> (quint_step (unat m))\<^sup>*\<^sup>* (quint_of (fold sup_apply es s)) (quint_of (fold sup_apply (es @ fs) s))
    \<and> all_invariants (unat m) (quint_of (fold sup_apply (es @ fs) s))
    \<and> (q_escalated (quint_of (fold sup_apply es s)) nm \<longrightarrow>
         q_state (quint_of (fold sup_apply (es @ fs) s)) nm = Some ''stopped'')"
proof (intro conjI impI)
  note start = quint_start [OF assms(1-5)]
  have mid: "quint_run_inv m win T (quint_of s) (fold sup_apply es s)"
    by (rule quint_machine.run_inv_prefix [OF start assms(6)])
  have fin: "quint_run_inv m win T (quint_of (fold sup_apply es s)) (fold sup_apply (es @ fs) s)"
    using quint_machine.run_inv [OF quint_run_inv_start [OF mid]] assms(6) by (simp add: guarded_run_append)
  show "(quint_step (unat m))\<^sup>*\<^sup>* (quint_of s) (quint_of (fold sup_apply es s))"
    using mid by (simp add: quint_run_inv_def)
  show path: "(quint_step (unat m))\<^sup>*\<^sup>* (quint_of (fold sup_apply es s)) (quint_of (fold sup_apply (es @ fs) s))"
    and inv: "all_invariants (unat m) (quint_of (fold sup_apply (es @ fs) s))"
    using fin by (simp_all add: quint_run_inv_def quint_ok_def)
  show "q_state (quint_of (fold sup_apply (es @ fs) s)) nm = Some ''stopped''"
    if "q_escalated (quint_of (fold sup_apply es s)) nm"
    using quint_escalated_reachable [OF path that] inv unfolding all_invariants_def by blast
qed

definition demo_crash :: "nat \<Rightarrow> sup_event" where
  "demo_crash t = ChildExit ''a'' Killed \<lparr>now_check = t, now_record = t + 1, minted = (\<lambda>_. ActorId 7)\<rparr>"

definition demo_crashes :: "sup_event list" where
  "demo_crashes = [demo_crash 10, MarkRunning ''a'', demo_crash 20, MarkRunning ''a'', demo_crash 30]"

lemma demo_sup_start: "hm_get (children (demo_sup st)) nm = Some c \<Longrightarrow>
    restart_policy (spec c) = Permanent \<and> state c = ChildRunning"
  by (auto simp: demo_sup_def start_child_def ChildSpec_new_def Supervisor_new_def hm_eval Let_def split: if_splits)

theorem one_for_one_implements_model_witness:
  "q_state (quint_of (fold sup_apply (demo_crashes @ [MarkRunning ''a'', demo_crash 40]) (demo_sup (OneForOne 2 100)))) ''a''
     = Some ''stopped''"
proof -
  let ?s = "demo_sup (OneForOne 2 100)"
  have "strategy ?s = OneForOne 2 100" "restart_counts ?s = []" by code_simp+
  moreover have "one_window 100 {0..<50}" by (auto simp: one_window_def duration_since_def)
  moreover have "quint_init (quint_of ?s)"
    using demo_sup_start [of "OneForOne 2 100"] \<open>restart_counts ?s = []\<close>
    by (auto simp: quint_init_def quint_of_def stored_times_def fun_eq_iff)
  moreover have "guarded_run (quint_guard {0..<50}) sup_apply (demo_crashes @ [MarkRunning ''a'', demo_crash 40]) ?s"
    by code_simp
  moreover have "q_escalated (quint_of (fold sup_apply demo_crashes ?s)) ''a''"
  proof -
    have "case hm_get (children (fold sup_apply demo_crashes ?s)) ''a'' of Some c \<Rightarrow> lifecycle_of (state c) = ''stopped'' | None \<Rightarrow> False"
      by code_simp
    then show ?thesis by (auto simp: quint_of_def elim: lifecycle_of.elims split: option.splits)
  qed
  ultimately show ?thesis
    using one_for_one_implements_model [of ?s 2 100 "{0..<50}" demo_crashes "[MarkRunning ''a'', demo_crash 40]" "''a''"]
      demo_sup_start [of "OneForOne 2 100"] by simp
qed

text \<open>
  The third invariant of the model does not survive the passage of time. A handled exit
  does not look at the state of its child: an exit that is reported again for an escalated
  child once its restarts have left the window is granted, and the child runs again.
\<close>

lemma escalated_child_returns:
  assumes "strategy s = OneForOne m win" and "hm_get (children s) nm = Some c" and "restart_policy (spec c) = Permanent"
    and "state c = ChildStopped q" and "\<forall>t \<in> set (stored_times s nm). win \<le> duration_since (now_check env) t"
  shows "\<exists>c'. hm_get (children (fold sup_apply [ChildExit nm r env, MarkRunning nm] s)) nm = Some c' \<and> state c' = ChildRunning"
proof -
  have "recent win (now_check env) (stored_times s nm) = []" using assms(5) by (auto simp: filter_empty_conv)
  then have "check_restart_allowed (now_check env) nm m win s"
    by (auto simp: check_restart_allowed_def stored_times_def u32_try_from_or_def word_less_nat_alt unat_gt_0 split: option.splits)
  then show ?thesis
    using assms(1-3)
    by (auto simp: handle_child_exit_def should_restart_def restart_one_for_one_def mark_child_running_def Let_def hm_simps)
qed

lemma escalated_child_returns_example:
  "\<exists>c. hm_get (children (fold sup_apply (demo_crashes @ [demo_crash 200, MarkRunning ''a'']) (demo_sup (OneForOne 2 100)))) ''a''
     = Some c \<and> state c = ChildRunning"
proof -
  have "case hm_get (children (fold sup_apply (demo_crashes @ [demo_crash 200, MarkRunning ''a'']) (demo_sup (OneForOne 2 100)))) ''a''
    of Some c \<Rightarrow> lifecycle_of (state c) = ''running'' | None \<Rightarrow> False" by code_simp
  then show ?thesis by (auto elim: lifecycle_of.elims split: option.splits)
qed

end
