(* ===== verification/Supervisor_Tree.thy ===== *)
theory Supervisor_Tree
  imports Supervisor
begin

text \<open>
  The hierarchy of supervisors of \<open>src/supervisor.rs\<close>: \<open>SupervisorTree\<close> with its two
  tables, every operation on it, and the proofs that its two recursive walks terminate
  on every tree the operations can build, that a subtree is terminated completely and
  nothing else is touched, and that statistics and depth describe the whole tree.
\<close>

section \<open>Data and operations\<close>

record supervisor_tree =
  root :: actor_id
  supervisors :: "(actor_id, supervisor) hashmap"
  supervisor_children :: "(actor_id, actor_id list) hashmap"

record supervisor_tree_stats =
  supervisor_count :: nat
  total_children :: nat
  running_children :: nat
  stopped_children :: nat
  restarting_children :: nat
  tree_total_restarts :: u64

definition SupervisorTree_new :: "actor_id \<Rightarrow> supervision_strategy \<Rightarrow> supervisor_tree" where
  "SupervisorTree_new new_id root_strategy =
     (let root_supervisor = Supervisor_new new_id root_strategy;
          root_id = sup_id root_supervisor
      in \<lparr>root = root_id,
          supervisors = hm_insert [] root_id root_supervisor,
          supervisor_children = hm_insert [] root_id []\<rparr>)"

definition add_supervisor ::
  "actor_id \<Rightarrow> actor_id \<Rightarrow> supervision_strategy \<Rightarrow> supervisor_tree
   \<Rightarrow> actor_id result \<times> supervisor_tree" where
  "add_supervisor new_id p strat t =
     (if \<not> hm_contains (supervisors t) p
      then (Err (into_error (SupervisorNotFound p)), t)
      else
        let sup = with_parent new_id strat p;
            i = sup_id sup;
            t1 = t\<lparr>supervisors := hm_insert (supervisors t) i sup\<rparr>;
            t2 = t1\<lparr>supervisor_children := hm_insert (supervisor_children t1) i []\<rparr>;
            t3 = t2\<lparr>supervisor_children := hm_modify (supervisor_children t2) p (\<lambda>cs. cs @ [i])\<rparr>
        in (Ok i, t3))"

text \<open>
  \<open>get_supervisor_mut\<close> lends one supervisor out: an operation run through it writes
  the changed supervisor back.
\<close>

definition get_supervisor :: "supervisor_tree \<Rightarrow> actor_id \<Rightarrow> supervisor option" where
  "get_supervisor t i = hm_get (supervisors t) i"

definition on_supervisor ::
  "actor_id \<Rightarrow> (supervisor \<Rightarrow> 'a result \<times> supervisor) \<Rightarrow> supervisor_tree
   \<Rightarrow> 'a result \<times> supervisor_tree" where
  "on_supervisor i f t =
     (case hm_get (supervisors t) i of
        None \<Rightarrow> (Err (into_error (SupervisorNotFound i)), t)
      | Some s \<Rightarrow> (fst (f s), t\<lparr>supervisors := hm_modify (supervisors t) i (\<lambda>_. snd (f s))\<rparr>))"

definition start_child_under ::
  "actor_id \<Rightarrow> actor_id \<Rightarrow> child_spec \<Rightarrow> supervisor_tree \<Rightarrow> actor_id result \<times> supervisor_tree" where
  "start_child_under new_id i spc = on_supervisor i (start_child new_id spc)"

definition tree_handle_child_exit ::
  "exit_env \<Rightarrow> actor_id \<Rightarrow> string \<Rightarrow> exit_reason \<Rightarrow> supervisor_tree
   \<Rightarrow> unit result \<times> supervisor_tree" where
  "tree_handle_child_exit env i nm r = on_supervisor i (handle_child_exit env nm r)"

text \<open>
  The two recursive walks take fuel, and running out of it is \<open>None\<close>: on a cyclic
  table the Rust functions would recurse until the stack is exhausted. The callers
  supply one unit per supervisor.
\<close>

fun collect_subtree_recursive ::
  "nat \<Rightarrow> supervisor_tree \<Rightarrow> actor_id \<Rightarrow> actor_id list \<Rightarrow> actor_id list option" where
  "collect_subtree_recursive 0 t i acc = None"
| "collect_subtree_recursive (Suc n) t i acc =
     (let acc = acc @ [i]
      in case hm_get (supervisor_children t) i of
           None \<Rightarrow> Some acc
         | Some cs \<Rightarrow>
             fold (\<lambda>c r. case r of None \<Rightarrow> None | Some a \<Rightarrow> collect_subtree_recursive n t c a)
               cs (Some acc))"

definition collect_subtree :: "supervisor_tree \<Rightarrow> actor_id \<Rightarrow> actor_id list option" where
  "collect_subtree t i = collect_subtree_recursive (length (supervisors t)) t i []"

definition shutdown_children :: "actor_id \<Rightarrow> supervisor_tree \<Rightarrow> supervisor_tree" where
  "shutdown_children i t =
     (case hm_get (supervisors t) i of
        None \<Rightarrow> t
      | Some s \<Rightarrow>
          fold (\<lambda>nm t. t\<lparr>supervisors :=
                  hm_modify (supervisors t) i (\<lambda>s. snd (terminate_child nm ExitShutdown s))\<rparr>)
            (map (\<lambda>c. spec_name (spec c)) (which_children s)) t)"

definition detach_supervisor :: "actor_id \<Rightarrow> supervisor_tree \<Rightarrow> supervisor_tree" where
  "detach_supervisor i t =
     (if i = root t then t
      else
        let sc = hm_remove (supervisor_children t) i
        in t\<lparr>supervisors := hm_remove (supervisors t) i,
             supervisor_children := hm_map sc (\<lambda>_ cs. filter (\<lambda>c. c \<noteq> i) cs)\<rparr>)"

definition terminate_tree ::
  "actor_id \<Rightarrow> supervisor_tree \<Rightarrow> (unit result \<times> supervisor_tree) option" where
  "terminate_tree i t =
     (if \<not> hm_contains (supervisors t) i
      then Some (Err (into_error (SupervisorNotFound i)), t)
      else case collect_subtree t i of
        None \<Rightarrow> None
      | Some to_terminate \<Rightarrow>
          Some (Ok (), fold detach_supervisor to_terminate
                         (fold shutdown_children (rev to_terminate) t)))"

text \<open>The \<open>u64\<close> total of restarts is summed at its width.\<close>

definition tree_stats :: "supervisor_tree \<Rightarrow> supervisor_tree_stats" where
  "tree_stats t =
     foldl (\<lambda>st s. let ss = count_children s
              in st\<lparr>total_children := total_children st + total ss,
                    running_children := running_children st + running ss,
                    stopped_children := stopped_children st + stopped ss,
                    restarting_children := restarting_children st + restarting ss,
                    tree_total_restarts := tree_total_restarts st + stat_total_restarts ss\<rparr>)
       \<lparr>supervisor_count = length (supervisors t), total_children = 0, running_children = 0,
        stopped_children = 0, restarting_children = 0, tree_total_restarts = 0\<rparr>
       (hm_values (supervisors t))"

fun calculate_depth :: "nat \<Rightarrow> supervisor_tree \<Rightarrow> actor_id \<Rightarrow> nat \<Rightarrow> nat option" where
  "calculate_depth 0 t i d = None"
| "calculate_depth (Suc n) t i d =
     (let cs = (case hm_get (supervisor_children t) i of None \<Rightarrow> [] | Some cs \<Rightarrow> cs);
          child_depths = those (map (\<lambda>c. calculate_depth n t c (d + 1)) cs)
      in case child_depths of
           None \<Rightarrow> None
         | Some ds \<Rightarrow> Some (if ds = [] then d else Max (set ds)))"

definition tree_depth :: "supervisor_tree \<Rightarrow> nat option" where
  "tree_depth t = calculate_depth (length (supervisors t)) t (root t) 0"

section \<open>The shape of a tree\<close>

definition kids :: "supervisor_tree \<Rightarrow> actor_id \<Rightarrow> actor_id list" where
  "kids t i = (case hm_get (supervisor_children t) i of None \<Rightarrow> [] | Some cs \<Rightarrow> cs)"

definition edges :: "supervisor_tree \<Rightarrow> (actor_id \<times> actor_id) set" where
  "edges t = {(p, c). c \<in> set (kids t p)}"

definition desc :: "supervisor_tree \<Rightarrow> actor_id \<Rightarrow> actor_id set" where
  "desc t i = {j. (i, j) \<in> (edges t)\<^sup>*}"

text \<open>
  The invariant: both tables have the same distinct keys, every supervisor is stored
  under its own identity and is itself well formed, the child lists are exactly the
  parent pointers read backwards, nothing supervises the root, there is no cycle, and
  every supervisor hangs below the root.
\<close>

definition tree_wf :: "supervisor_tree \<Rightarrow> bool" where
  "tree_wf t =
     (hm_wf (supervisors t) \<and> hm_wf (supervisor_children t)
      \<and> dom (hm_get (supervisor_children t)) = dom (hm_get (supervisors t))
      \<and> (\<forall>i s. hm_get (supervisors t) i = Some s \<longrightarrow> sup_id s = i \<and> sup_wf s)
      \<and> (\<forall>i s p. hm_get (supervisors t) i = Some s \<longrightarrow> parent s = Some p \<longleftrightarrow> (p, i) \<in> edges t)
      \<and> (\<forall>p c. (p, c) \<in> edges t \<longrightarrow> hm_get (supervisors t) c \<noteq> None \<and> c \<noteq> root t)
      \<and> (\<forall>p. distinct (kids t p))
      \<and> acyclic (edges t)
      \<and> (\<forall>i. hm_get (supervisors t) i \<noteq> None \<longleftrightarrow> i \<in> desc t (root t)))"


section \<open>The recursive walks\<close>

lemma finite_keys: "finite (dom (hm_get m))"
proof -
  have "hm_get m = map_of m" by (rule ext) (simp add: hm_get_def)
  then show ?thesis by (simp add: finite_dom_map_of)
qed

lemma card_keys: "hm_wf m \<Longrightarrow> card (dom (hm_get m)) = length m"
proof -
  assume "hm_wf m"
  moreover have "dom (hm_get m) = set (map fst m)"
    using hm_get_None_iff [of m] by (auto simp: dom_def)
  ultimately show ?thesis by (simp only: hm_wf_def distinct_card length_map)
qed

lemma desc_refl [simp]: "i \<in> desc t i"
  by (simp add: desc_def)

lemma desc_unfold: "desc t i = insert i (\<Union>c \<in> set (kids t i). desc t c)"
  unfolding desc_def edges_def by (auto elim: converse_rtranclE intro: converse_rtrancl_into_rtrancl)

lemma desc_trans: "j \<in> desc t i \<Longrightarrow> desc t j \<subseteq> desc t i"
  by (auto simp: desc_def)

lemma desc_sub_keys:
  assumes "tree_wf t" and "hm_get (supervisors t) i \<noteq> None"
  shows "desc t i \<subseteq> dom (hm_get (supervisors t))"
proof
  fix j assume "j \<in> desc t i"
  moreover have "i \<in> desc t (root t)" using assms by (simp add: tree_wf_def)
  ultimately have "j \<in> desc t (root t)" using desc_trans by blast
  then show "j \<in> dom (hm_get (supervisors t))" using assms(1) by (auto simp: tree_wf_def)
qed

lemma tree_wf_root: "tree_wf t \<Longrightarrow> hm_get (supervisors t) (root t) \<noteq> None"
  unfolding tree_wf_def using desc_refl by metis

lemma tree_wf_tables:
  "tree_wf t \<Longrightarrow> hm_get (supervisor_children t) j = None \<longleftrightarrow> hm_get (supervisors t) j = None"
  unfolding tree_wf_def by (metis domIff)

lemma dom_eqI: "(\<And>j. f j = None \<longleftrightarrow> g j = None) \<Longrightarrow> dom f = dom g"
  by (auto simp: dom_def)

lemma finite_desc:
  "tree_wf t \<Longrightarrow> hm_get (supervisors t) i \<noteq> None \<Longrightarrow> finite (desc t i)"
  using desc_sub_keys finite_keys finite_subset by metis

lemma kid_stored: "tree_wf t \<Longrightarrow> c \<in> set (kids t i) \<Longrightarrow> hm_get (supervisors t) c \<noteq> None"
  by (auto simp: tree_wf_def edges_def)

lemma card_desc_kid:
  assumes wf: "tree_wf t" and i: "hm_get (supervisors t) i \<noteq> None" and c: "c \<in> set (kids t i)"
  shows "card (desc t c) < card (desc t i)"
proof (rule psubset_card_mono [OF finite_desc [OF wf i]])
  have "(i, c) \<in> edges t" using c by (simp add: edges_def)
  then have "i \<notin> desc t c"
    using wf by (auto simp: tree_wf_def acyclic_def desc_def dest: rtrancl_into_trancl2)
  then show "desc t c \<subset> desc t i" using desc_unfold [of t i] c by auto
qed

lemma collect_subtree_recursive_desc:
  assumes "tree_wf t"
  shows "hm_get (supervisors t) i \<noteq> None \<Longrightarrow> card (desc t i) \<le> n \<Longrightarrow>
    \<exists>sub. collect_subtree_recursive n t i acc = Some (acc @ sub) \<and> set sub = desc t i"
proof (induction n arbitrary: i acc)
  case 0
  then show ?case using finite_desc [OF assms 0(1)] desc_refl [of i t] by auto
next
  case (Suc n)
  have step: "\<exists>sub. fold (\<lambda>c r. case r of None \<Rightarrow> None | Some a \<Rightarrow> collect_subtree_recursive n t c a)
        cs (Some a) = Some (a @ sub) \<and> set sub = (\<Union>c \<in> set cs. desc t c)"
    if "set cs \<subseteq> set (kids t i)" for cs a
    using that
  proof (induction cs arbitrary: a)
    case Nil
    show ?case by simp
  next
    case (Cons c cs)
    have "card (desc t c) \<le> n" using card_desc_kid [OF assms Suc.prems(1), of c] Cons.prems Suc.prems(2)
      by simp
    then obtain sub where sub: "collect_subtree_recursive n t c a = Some (a @ sub)" "set sub = desc t c"
      using Suc.IH [of c a] kid_stored [OF assms, of c i] Cons.prems by auto
    obtain sub' where sub': "fold (\<lambda>c r. case r of None \<Rightarrow> None | Some a \<Rightarrow> collect_subtree_recursive n t c a)
        cs (Some (a @ sub)) = Some ((a @ sub) @ sub')" "set sub' = (\<Union>c \<in> set cs. desc t c)"
      using Cons.IH [of "a @ sub"] Cons.prems by auto
    show ?case using sub sub' by (intro exI [of _ "sub @ sub'"]) auto
  qed
  show ?case
  proof (cases "hm_get (supervisor_children t) i")
    case None
    then show ?thesis by (intro exI [of _ "[i]"]) (simp add: desc_unfold [of t i] kids_def)
  next
    case (Some cs)
    then have k: "kids t i = cs" by (simp add: kids_def)
    obtain sub where "fold (\<lambda>c r. case r of None \<Rightarrow> None | Some a \<Rightarrow> collect_subtree_recursive n t c a)
        cs (Some (acc @ [i])) = Some ((acc @ [i]) @ sub)" "set sub = (\<Union>c \<in> set cs. desc t c)"
      using step [of cs "acc @ [i]"] k by auto
    then show ?thesis using Some k by (intro exI [of _ "i # sub"]) (simp add: desc_unfold [of t i])
  qed
qed

lemma collect_subtree_desc:
  assumes "tree_wf t" and "hm_get (supervisors t) i \<noteq> None"
  obtains sub where "collect_subtree t i = Some sub" and "set sub = desc t i"
proof -
  have "card (desc t i) \<le> length (supervisors t)"
    using card_mono [OF finite_keys desc_sub_keys [OF assms]] card_keys [of "supervisors t"] assms(1)
    by (simp add: tree_wf_def)
  then show ?thesis
    using collect_subtree_recursive_desc [OF assms, of _ "[]"] that by (auto simp: collect_subtree_def)
qed

lemma those_map_Some: "those (map (\<lambda>x. Some (f x)) xs) = Some (map f xs)"
  by (induction xs) simp_all

text \<open>The depth walk returns the length of a longest path down from its start.\<close>

lemma calculate_depth_longest:
  assumes "tree_wf t"
  shows "hm_get (supervisors t) i \<noteq> None \<Longrightarrow> card (desc t i) \<le> n \<Longrightarrow>
    \<exists>k j. calculate_depth n t i d = Some (d + k) \<and> (i, j) \<in> edges t ^^ k
      \<and> (\<forall>l m. (i, m) \<in> edges t ^^ l \<longrightarrow> l \<le> k)"
proof (induction n arbitrary: i d)
  case 0
  then show ?case using finite_desc [OF assms 0(1)] desc_refl [of i t] by auto
next
  case (Suc n)
  let ?f = "\<lambda>c. calculate_depth n t c (d + 1)"
  define h where "h c = (SOME k. ?f c = Some (d + 1 + k) \<and> (\<exists>j. (c, j) \<in> edges t ^^ k)
      \<and> (\<forall>l m. (c, m) \<in> edges t ^^ l \<longrightarrow> l \<le> k))" for c
  have h: "?f c = Some (d + 1 + h c) \<and> (\<exists>j. (c, j) \<in> edges t ^^ h c)
      \<and> (\<forall>l m. (c, m) \<in> edges t ^^ l \<longrightarrow> l \<le> h c)" if "c \<in> set (kids t i)" for c
    unfolding h_def
    by (rule someI_ex) (use Suc.IH [of c "d + 1"] kid_stored [OF assms that]
        card_desc_kid [OF assms Suc.prems(1) that] Suc.prems(2) in fastforce)
  have ds: "map ?f (kids t i) = map (\<lambda>c. Some (d + 1 + h c)) (kids t i)"
    using h by auto
  have eq: "calculate_depth (Suc n) t i d =
      Some (if kids t i = [] then d else Max ((\<lambda>c. d + 1 + h c) ` set (kids t i)))"
    unfolding calculate_depth.simps Let_def kids_def [symmetric] ds those_map_Some by simp
  show ?case
  proof (cases "kids t i = []")
    case True
    then have "l = 0" if "(i, m) \<in> edges t ^^ l" for l m
      using that relpow_Suc_D2 [of i m _ "edges t"] by (cases l) (auto simp: edges_def)
    then show ?thesis using eq True by (intro exI [of _ 0] exI [of _ i]) auto
  next
    case False
    let ?M = "Max (h ` set (kids t i))"
    have M: "Max ((\<lambda>c. d + 1 + h c) ` set (kids t i)) = d + (1 + ?M)"
    proof (rule Max_eqI)
      show "d + (1 + ?M) \<in> (\<lambda>c. d + 1 + h c) ` set (kids t i)"
        using Max_in [of "h ` set (kids t i)"] False by (auto simp: image_iff)
    qed auto
    obtain c where c: "c \<in> set (kids t i)" "h c = ?M"
      using Max_in [of "h ` set (kids t i)"] False by fastforce
    obtain j where j: "(c, j) \<in> edges t ^^ ?M" using h [OF c(1)] c(2) by auto
    have "(i, j) \<in> edges t ^^ (1 + ?M)"
      using relpow_Suc_I2 [OF _ j, of i] c(1) by (simp add: edges_def)
    moreover have "l \<le> 1 + ?M" if lm: "(i, m) \<in> edges t ^^ l" for l m
    proof (cases l)
      case (Suc l')
      then obtain c' where c': "(i, c') \<in> edges t" "(c', m) \<in> edges t ^^ l'"
        using lm relpow_Suc_D2 by metis
      then have "l' \<le> h c'" using h [of c'] by (auto simp: edges_def)
      also have "\<dots> \<le> ?M" using c'(1) by (auto simp: edges_def)
      finally show ?thesis using Suc by simp
    qed simp
    ultimately show ?thesis using eq False M by (intro exI [of _ "1 + ?M"] exI [of _ j]) auto
  qed
qed


section \<open>Terminating a subtree\<close>

lemma hm_map_map: "hm_map (hm_map m f) g = hm_map m (\<lambda>k v. g k (f k v))"
  by (simp add: hm_map_def case_prod_beta comp_def)

lemma hm_map_id: "hm_map m (\<lambda>k v. v) = m"
  by (simp add: hm_map_def)

lemma hm_map_cong_keys:
  "(\<And>k v. (k, v) \<in> set m \<Longrightarrow> f k v = g k v) \<Longrightarrow> hm_map m f = hm_map m g"
  by (auto simp: hm_map_def)

lemma snd_terminate_child: "snd (terminate_child nm r s) = set_child_state nm (ChildStopped r) s"
proof (cases "hm_get (children s) nm")
  case None
  then have "hm_modify (children s) nm (\<lambda>c. c\<lparr>state := ChildStopped r\<rparr>) = hm_map (children s) (\<lambda>k v. v)"
    unfolding hm_modify_def by (intro hm_map_cong_keys) (force simp: hm_get_None_iff)
  then show ?thesis using None by (simp add: terminate_child_def set_child_state_def hm_map_id)
qed (simp add: terminate_child_def)

definition child_names :: "supervisor \<Rightarrow> string list" where
  "child_names s = map (\<lambda>c. spec_name (spec c)) (which_children s)"

definition shut_down :: "supervisor \<Rightarrow> supervisor" where
  "shut_down s = s\<lparr>children := hm_map (children s)
     (\<lambda>k c. if k \<in> set (child_names s) then c\<lparr>state := ChildStopped ExitShutdown\<rparr> else c)\<rparr>"

lemma fold_terminate_child:
  "fold (\<lambda>nm s. snd (terminate_child nm r s)) ns s =
     s\<lparr>children := hm_map (children s)
        (\<lambda>k c. if k \<in> set ns then c\<lparr>state := ChildStopped r\<rparr> else c)\<rparr>"
proof (induction ns arbitrary: s)
  case Nil
  show ?case by (simp add: hm_map_id)
next
  case (Cons n ns)
  show ?case
    unfolding fold_simps comp_apply Cons.IH
    unfolding snd_terminate_child set_child_state_def hm_modify_def
    by (auto simp: hm_map_map intro!: arg_cong [where f = "\<lambda>m. s\<lparr>children := m\<rparr>"] hm_map_cong_keys)
qed

lemma child_names_shut_down: "child_names (shut_down s) = child_names s"
  by (auto simp: child_names_def shut_down_def which_children_def hm_values_def hm_map_def)

lemma sup_wf_shut_down: "sup_wf s \<Longrightarrow> sup_wf (shut_down s)"
  by (rule sup_wf_children_cong [of s])
     (auto simp: shut_down_def sup_wf_def hm_simps hm_intros split: if_splits)

lemma shut_down_idem: "shut_down (shut_down s) = shut_down s"
  unfolding shut_down_def [of "shut_down s"] child_names_shut_down
  by (auto simp: shut_down_def hm_map_map
      intro!: arg_cong [where f = "\<lambda>m. s\<lparr>children := m\<rparr>"] hm_map_cong_keys)

lemma hm_modify_modify: "hm_modify (hm_modify m k f) k g = hm_modify m k (\<lambda>v. g (f v))"
  by (auto simp: hm_modify_def hm_map_map intro!: hm_map_cong_keys)

lemma fold_modify_supervisor:
  "fold (\<lambda>x t. t\<lparr>supervisors := hm_modify (supervisors t) i (g x)\<rparr>) xs t =
     t\<lparr>supervisors := hm_modify (supervisors t) i (fold g xs)\<rparr>"
proof (induction xs arbitrary: t)
  case Nil
  then show ?case by (simp add: hm_modify_def hm_map_id)
next
  case (Cons x xs)
  then show ?case by (simp add: hm_modify_modify comp_def)
qed

lemma shutdown_children_simps [simp]:
  "root (shutdown_children i t) = root t"
  "supervisor_children (shutdown_children i t) = supervisor_children t"
  "hm_wf (supervisors (shutdown_children i t)) = hm_wf (supervisors t)"
  "hm_get (supervisors (shutdown_children i t)) j =
     (if j = i then map_option shut_down (hm_get (supervisors t) j) else hm_get (supervisors t) j)"
  by (auto simp: shutdown_children_def fold_modify_supervisor fold_terminate_child shut_down_def
      child_names_def hm_simps hm_wf_def split: option.splits)

lemma fold_shutdown_children [simp]:
  "root (fold shutdown_children js t) = root t"
  "supervisor_children (fold shutdown_children js t) = supervisor_children t"
  "hm_wf (supervisors (fold shutdown_children js t)) = hm_wf (supervisors t)"
  "hm_get (supervisors (fold shutdown_children js t)) j =
     (if j \<in> set js then map_option shut_down (hm_get (supervisors t) j)
      else hm_get (supervisors t) j)"
  by (induction js arbitrary: t) (auto simp: option.map_comp comp_def shut_down_idem)

lemma detach_supervisor_simps [simp]:
  "root (detach_supervisor i t) = root t"
  "hm_get (supervisors (detach_supervisor i t)) j =
     (if j = i \<and> i \<noteq> root t then None else hm_get (supervisors t) j)"
  "hm_get (supervisor_children (detach_supervisor i t)) j =
     (if j = i \<and> i \<noteq> root t then None
      else map_option (filter (\<lambda>c. c \<noteq> i \<or> i = root t)) (hm_get (supervisor_children t) j))"
  by (auto simp: detach_supervisor_def Let_def hm_simps option.map_ident map_option_case
      split: option.splits)

lemma hm_wf_detach:
  "hm_wf (supervisors t) \<Longrightarrow> hm_wf (supervisors (detach_supervisor i t))"
  "hm_wf (supervisor_children t) \<Longrightarrow> hm_wf (supervisor_children (detach_supervisor i t))"
  by (simp_all add: detach_supervisor_def Let_def hm_intros)

lemma fold_detach_supervisor:
  "root (fold detach_supervisor js t) = root t"
  "hm_get (supervisors (fold detach_supervisor js t)) j =
     (if j \<in> set js - {root t} then None else hm_get (supervisors t) j)"
  "hm_get (supervisor_children (fold detach_supervisor js t)) j =
     (if j \<in> set js - {root t} then None
      else map_option (filter (\<lambda>c. c \<notin> set js - {root t})) (hm_get (supervisor_children t) j))"
  "hm_wf (supervisors t) \<Longrightarrow> hm_wf (supervisors (fold detach_supervisor js t))"
  "hm_wf (supervisor_children t) \<Longrightarrow> hm_wf (supervisor_children (fold detach_supervisor js t))"
proof (induction js arbitrary: t)
  case Nil
  { case 1 then show ?case by simp
  next case 2 then show ?case by simp
  next case 3 then show ?case by (simp add: map_option_case split: option.splits)
  next case 4 then show ?case by simp
  next case 5 then show ?case by simp }
next
  case (Cons i js)
  { case 1 then show ?case using Cons by simp
  next case 2 then show ?case using Cons by auto
  next case 3 then show ?case using Cons
      by (auto simp: option.map_comp comp_def intro!: option.map_cong filter_cong)
  next case 4 then show ?case using Cons by (simp add: hm_wf_detach)
  next case 5 then show ?case using Cons by (simp add: hm_wf_detach) }
qed

lemma terminate_tree_closed_form:
  assumes wf: "tree_wf t" and i: "hm_get (supervisors t) i \<noteq> None"
  defines "D \<equiv> desc t i - {root t}"
  obtains t' where "terminate_tree i t = Some (Ok (), t')" and "root t' = root t"
    and "\<And>j. hm_get (supervisors t') j =
          (if j \<in> D then None
           else if j \<in> desc t i then map_option shut_down (hm_get (supervisors t) j)
           else hm_get (supervisors t) j)"
    and "\<And>j. hm_get (supervisor_children t') j =
          (if j \<in> D then None else map_option (filter (\<lambda>c. c \<notin> D)) (hm_get (supervisor_children t) j))"
    and "hm_wf (supervisors t')" and "hm_wf (supervisor_children t')"
proof -
  obtain sub where sub: "collect_subtree t i = Some sub" "set sub = desc t i"
    by (rule collect_subtree_desc [OF wf i])
  let ?t = "fold detach_supervisor sub (fold shutdown_children (rev sub) t)"
  have "hm_wf (supervisors t)" "hm_wf (supervisor_children t)" using wf by (simp_all add: tree_wf_def)
  moreover have "terminate_tree i t = Some (Ok (), ?t)"
    using i sub(1) by (simp add: terminate_tree_def hm_contains_def)
  ultimately show thesis
    by (intro that [of ?t]) (auto simp: fold_detach_supervisor sub(2) D_def)
qed


section \<open>Runs of calls and the invariant\<close>

lemma sup_apply_identity: "sup_id (sup_apply e s) = sup_id s" "parent (sup_apply e s) = parent s"
  by (cases e; auto simp: sup_event_defs set_child_state_def handle_child_exit_def sup_restart_defs
      sup_update_defs handle_max_restarts_exceeded_def split: option.splits child_state.splits
      supervision_strategy.splits escalation_action.splits)+

datatype tree_event =
    AddSupervisor actor_id actor_id supervision_strategy
  | StartChildUnder actor_id actor_id child_spec
  | TreeChildExit actor_id string exit_reason exit_env
  | TerminateTree actor_id
  | OnSupervisor actor_id sup_event

fun tree_apply :: "tree_event \<Rightarrow> supervisor_tree \<Rightarrow> supervisor_tree" where
  "tree_apply (AddSupervisor new_id p strat) t = snd (add_supervisor new_id p strat t)"
| "tree_apply (StartChildUnder new_id i spc) t = snd (start_child_under new_id i spc t)"
| "tree_apply (TreeChildExit i nm r env) t = snd (tree_handle_child_exit env i nm r t)"
| "tree_apply (TerminateTree i) t = (case terminate_tree i t of None \<Rightarrow> t | Some (_, t') \<Rightarrow> t')"
| "tree_apply (OnSupervisor i e) t = snd (on_supervisor i (\<lambda>s. (Ok (), sup_apply e s)) t)"

text \<open>A minted UUID is new to the tree.\<close>

fun tree_guard :: "tree_event \<Rightarrow> supervisor_tree \<Rightarrow> bool" where
  "tree_guard (AddSupervisor new_id p strat) t = (hm_get (supervisors t) new_id = None)"
| "tree_guard _ t = True"

lemma tree_wf_new: "tree_wf (SupervisorTree_new i strat)"
proof -
  let ?t = "SupervisorTree_new i strat"
  have k: "kids ?t p = []" for p
    by (simp add: kids_def SupervisorTree_new_def Let_def hm_simps)
  then have e: "edges ?t = {}" by (simp add: edges_def)
  show ?thesis
    unfolding tree_wf_def e k desc_def
    by (auto simp: SupervisorTree_new_def Let_def hm_simps hm_intros Supervisor_new_def sup_wf_new
        [unfolded Supervisor_new_def] dom_def acyclic_def split: if_splits)
qed

lemma edges_cong: "supervisor_children t' = supervisor_children t \<Longrightarrow> edges t' = edges t"
  by (simp add: edges_def kids_def)

lemma tree_wf_on_supervisor:
  assumes "tree_wf t"
    and "\<And>s. sup_wf s \<Longrightarrow> sup_wf (snd (f s)) \<and> sup_id (snd (f s)) = sup_id s \<and> parent (snd (f s)) = parent s"
  shows "tree_wf (snd (on_supervisor i f t))"
proof (cases "hm_get (supervisors t) i")
  case None
  then show ?thesis using assms(1) by (simp add: on_supervisor_def)
next
  case (Some s)
  let ?t = "snd (on_supervisor i f t)"
  have sc: "supervisor_children ?t = supervisor_children t" "root ?t = root t"
    using Some by (simp_all add: on_supervisor_def)
  have k: "kids ?t = kids t" by (rule ext) (simp add: kids_def sc)
  have g: "hm_get (supervisors ?t) j = (if j = i then Some (snd (f s)) else hm_get (supervisors t) j)" for j
    using Some by (simp add: on_supervisor_def hm_simps)
  have wf: "hm_wf (supervisors ?t)"
    using assms(1) Some by (simp add: on_supervisor_def tree_wf_def hm_intros)
  have s: "sup_wf (snd (f s))" "sup_id (snd (f s)) = i" "parent (snd (f s)) = parent s"
    using assms Some by (auto simp: tree_wf_def)
  have d: "dom (hm_get (supervisors ?t)) = dom (hm_get (supervisors t))"
    using Some by (auto simp: dom_def g)
  show ?thesis
    unfolding tree_wf_def edges_cong [OF sc(1)] desc_def d k sc
    using assms(1) wf s Some unfolding tree_wf_def desc_def by (auto simp: g)
qed

lemma tree_wf_terminate:
  assumes wf: "tree_wf t" and i: "hm_get (supervisors t) i \<noteq> None"
    and t': "terminate_tree i t = Some (r, t')"
  shows "tree_wf t'"
proof -
  define D where "D = desc t i - {root t}"
  obtain u where u: "terminate_tree i t = Some (Ok (), u)" and rtu: "root u = root t"
    and supu: "\<And>j. hm_get (supervisors u) j = (if j \<in> D then None
       else if j \<in> desc t i then map_option shut_down (hm_get (supervisors t) j)
       else hm_get (supervisors t) j)"
    and scu: "\<And>j. hm_get (supervisor_children u) j = (if j \<in> D then None
       else map_option (filter (\<lambda>c. c \<notin> D)) (hm_get (supervisor_children t) j))"
    and hwu: "hm_wf (supervisors u)" "hm_wf (supervisor_children u)"
    by (rule terminate_tree_closed_form [OF wf i, folded D_def]) (rule that, assumption+)
  have "u = t'" using u t' by simp
  note rt = rtu [unfolded this] and sup = supu [unfolded this] and sc = scu [unfolded this]
    and hw = hwu [unfolded this]
  have edge: "hm_get (supervisors t) c \<noteq> None \<and> c \<noteq> root t" if "(p, c) \<in> edges t" for p c
    using wf that by (auto simp: tree_wf_def)
  have down: "c \<in> D" if "p \<in> desc t i" "(p, c) \<in> edges t" for p c
    using that edge [OF that(2)] by (auto simp: D_def desc_def intro: rtrancl.rtrancl_into_rtrancl)
  have kids': "kids t' p = (if p \<in> D then [] else filter (\<lambda>c. c \<notin> D) (kids t p))" for p
    by (simp add: kids_def sc split: option.splits)
  have edges': "edges t' = {(p, c) \<in> edges t. c \<notin> D}"
  proof -
    have "(p, c) \<in> edges t' \<longleftrightarrow> (p, c) \<in> edges t \<and> p \<notin> D \<and> c \<notin> D" for p c
      by (simp add: edges_def kids')
    moreover have "p \<notin> D" if "(p, c) \<in> edges t" "c \<notin> D" for p c
      using that down by (metis DiffD1 D_def)
    ultimately show ?thesis by auto
  qed
  have desc': "j \<in> desc t' (root t) \<longleftrightarrow> j \<in> desc t (root t) \<and> j \<notin> D" for j
  proof
    assume "j \<in> desc t' (root t)"
    then have "(root t, j) \<in> (edges t')\<^sup>*" by (simp add: desc_def)
    then show "j \<in> desc t (root t) \<and> j \<notin> D"
      by induction (auto simp: D_def desc_def edges' intro: rtrancl.rtrancl_into_rtrancl)
  next
    assume "j \<in> desc t (root t) \<and> j \<notin> D"
    moreover have "(root t, j) \<in> (edges t)\<^sup>* \<Longrightarrow> j \<notin> D \<longrightarrow> (root t, j) \<in> (edges t')\<^sup>*" for j
      by (induction rule: rtrancl_induct) (use down in \<open>auto simp: D_def edges' intro: rtrancl.rtrancl_into_rtrancl\<close>)
    ultimately show "j \<in> desc t' (root t)" by (simp add: desc_def)
  qed
  have shut: "sup_id (shut_down s) = sup_id s" "parent (shut_down s) = parent s"
    "sup_wf s \<Longrightarrow> sup_wf (shut_down s)" for s
    by (simp_all add: shut_down_def sup_wf_shut_down [unfolded shut_down_def])
  show ?thesis
    unfolding tree_wf_def rt edges' kids' desc'
  proof (intro conjI allI impI)
    show "acyclic {(p, c) \<in> edges t. c \<notin> D}"
      using wf by (auto simp: tree_wf_def intro: acyclic_subset [of "edges t"])
  next
    fix j s p assume "hm_get (supervisors t') j = Some s"
    then show "(parent s = Some p) = ((p, j) \<in> {(p, c) \<in> edges t. c \<notin> D})"
      using wf by (auto simp: sup tree_wf_def shut split: if_splits)
  next
    show "dom (hm_get (supervisor_children t')) = dom (hm_get (supervisors t'))"
      using tree_wf_tables [OF wf] by (intro dom_eqI) (simp add: sup sc)
  next
    fix p show "distinct (if p \<in> D then [] else filter (\<lambda>c. c \<notin> D) (kids t p))"
      using wf by (simp add: tree_wf_def)
  next
    fix j s assume "hm_get (supervisors t') j = Some s"
    then show "sup_id s = j" "sup_wf s"
      using wf shut by (auto simp: sup tree_wf_def split: if_splits)
  next
    fix j show "(hm_get (supervisors t') j \<noteq> None) = (j \<in> desc t (root t) \<and> j \<notin> D)"
      using wf by (simp add: sup tree_wf_def)
  next
    fix p c assume "(p, c) \<in> {(p, c) \<in> edges t. c \<notin> D}"
    then show "hm_get (supervisors t') c \<noteq> None" "c \<noteq> root t"
      using edge by (auto simp: sup)
  qed (use hw in auto)
qed

lemma tree_wf_add:
  assumes wf: "tree_wf t" and new: "hm_get (supervisors t) new_id = None"
  shows "tree_wf (snd (add_supervisor new_id p strat t))"
proof (cases "hm_get (supervisors t) p")
  case None
  then show ?thesis using wf by (simp add: add_supervisor_def hm_contains_def)
next
  case (Some ps)
  let ?t = "snd (add_supervisor new_id p strat t)"
  have pn: "p \<noteq> new_id" using Some new by auto
  note dom_sc = tree_wf_tables [OF wf]
  have rt: "root ?t = root t" "new_id \<noteq> root t"
    using Some new tree_wf_root [OF wf] by (auto simp: add_supervisor_def hm_contains_def Let_def)
  have sup: "hm_get (supervisors ?t) j =
      (if j = new_id then Some (with_parent new_id strat p) else hm_get (supervisors t) j)" for j
    using Some by (simp add: add_supervisor_def hm_contains_def Let_def with_parent_def hm_simps)
  have sc: "hm_get (supervisor_children ?t) j =
      (if j = new_id then Some [] else if j = p then map_option (\<lambda>cs. cs @ [new_id])
         (hm_get (supervisor_children t) j) else hm_get (supervisor_children t) j)" for j
    using Some pn by (simp add: add_supervisor_def hm_contains_def Let_def with_parent_def hm_simps)
  have hw: "hm_wf (supervisors ?t)" "hm_wf (supervisor_children ?t)"
    using wf Some by (simp_all add: add_supervisor_def hm_contains_def Let_def tree_wf_def hm_intros)
  have old: "hm_get (supervisors t) q \<noteq> None" if "(q, c) \<in> edges t" for q c
    using that dom_sc [of q] by (auto simp: edges_def kids_def split: option.splits)
  have kids': "kids ?t j = (if j = p then kids t j @ [new_id] else kids t j)" for j
    using dom_sc [of new_id] dom_sc [of p] new Some pn
    by (auto simp: kids_def sc split: option.splits)
  have edges': "edges ?t = insert (p, new_id) (edges t)"
    by (auto simp: edges_def kids' split: if_splits)
  have edge: "hm_get (supervisors t) c \<noteq> None \<and> c \<noteq> root t" if "(q, c) \<in> edges t" for q c
    using wf that by (auto simp: tree_wf_def)
  have stuck: "(new_id, j) \<in> (edges t)\<^sup>* \<Longrightarrow> j = new_id" for j
    using old new by (metis converse_rtranclE)
  have acyc: "acyclic (insert (p, new_id) (edges t))"
    using wf stuck [of p] pn by (auto simp: acyclic_insert tree_wf_def)
  have desc': "j \<in> desc ?t (root t) \<longleftrightarrow> j = new_id \<or> j \<in> desc t (root t)" for j
  proof
    assume "j \<in> desc ?t (root t)"
    then show "j = new_id \<or> j \<in> desc t (root t)"
      using stuck by (auto simp: desc_def edges' rtrancl_insert)
  next
    have "p \<in> desc t (root t)" using wf Some by (auto simp: tree_wf_def)
    moreover assume "j = new_id \<or> j \<in> desc t (root t)"
    ultimately show "j \<in> desc ?t (root t)"
      by (auto simp: desc_def edges' rtrancl_insert)
  qed
  have fresh: "new_id \<notin> set (kids t q)" for q
    using edge [of q new_id] new by (auto simp: edges_def)
  show ?thesis
    unfolding tree_wf_def rt edges' desc'
  proof (intro conjI allI impI)
    fix i s q assume "hm_get (supervisors ?t) i = Some s"
    then show "(parent s = Some q) = ((q, i) \<in> insert (p, new_id) (edges t))"
      using wf edge [of q new_id] new by (auto simp: sup tree_wf_def with_parent_def split: if_splits)
  next
    fix i s assume "hm_get (supervisors ?t) i = Some s"
    then show "sup_id s = i" "sup_wf s"
      using wf sup_wf_new(2) by (auto simp: sup tree_wf_def with_parent_def split: if_splits)
  next
    fix q show "distinct (kids ?t q)" using wf fresh by (simp add: kids' tree_wf_def)
  next
    fix i show "(hm_get (supervisors ?t) i \<noteq> None) = (i = new_id \<or> i \<in> desc t (root t))"
      using wf by (auto simp: sup tree_wf_def)
  next
    show "dom (hm_get (supervisor_children ?t)) = dom (hm_get (supervisors ?t))"
      using Some dom_sc by (intro dom_eqI) (simp add: sup sc)
  qed (use hw acyc edge rt new in \<open>auto simp: sup\<close>)
qed

lemma tree_wf_apply: "tree_wf t \<Longrightarrow> tree_guard e t \<Longrightarrow> tree_wf (tree_apply e t)"
proof (induction e)
  case (AddSupervisor i p strat)
  then show ?case by (simp add: tree_wf_add)
next
  case (StartChildUnder n i spc)
  show ?case using sup_wf_start_child sup_apply_identity [of "StartChild n spc"] StartChildUnder
    by (auto simp: start_child_under_def intro!: tree_wf_on_supervisor)
next
  case (TreeChildExit i nm r env)
  show ?case using sup_wf_handle_child_exit sup_apply_identity [of "ChildExit nm r env"] TreeChildExit
    by (auto simp: tree_handle_child_exit_def intro!: tree_wf_on_supervisor)
next
  case (TerminateTree i)
  then show ?case
    using tree_wf_terminate [of t i]
    by (cases "hm_get (supervisors t) i")
       (auto simp: terminate_tree_def hm_contains_def split: option.splits)
next
  case (OnSupervisor i e)
  then show ?case using sup_wf_apply sup_apply_identity by (auto intro!: tree_wf_on_supervisor)
qed

interpretation tree_machine: event_machine tree_guard tree_apply tree_wf
  by unfold_locales (rule tree_wf_apply)


section \<open>Properties\<close>

definition demo_tree_calls :: "tree_event list" where
  "demo_tree_calls =
     [AddSupervisor (ActorId 2) (ActorId 1) SimpleOneForOne,
      AddSupervisor (ActorId 3) (ActorId 2) (OneForAll 3 100),
      AddSupervisor (ActorId 4) (ActorId 1) SimpleOneForOne,
      StartChildUnder (ActorId 50) (ActorId 1) (ChildSpec_new ''a''),
      StartChildUnder (ActorId 51) (ActorId 3) (ChildSpec_new ''b''),
      OnSupervisor (ActorId 3) (StopChild ''b'')]"

definition demo_tree :: supervisor_tree where
  "demo_tree = fold tree_apply demo_tree_calls (SupervisorTree_new (ActorId 1) SimpleOneForOne)"

lemmas tree_eval =
  add_supervisor_def on_supervisor_def start_child_under_def SupervisorTree_new_def
  with_parent_def Supervisor_new_def start_child_def stop_child_def ChildSpec_new_def Let_def
  saturating_add_def

lemma demo_tree_tables:
  "root demo_tree = ActorId 1"
  "map fst (supervisors demo_tree) = [ActorId 1, ActorId 2, ActorId 3, ActorId 4]"
  "supervisor_children demo_tree =
     [(ActorId 1, [ActorId 2, ActorId 4]), (ActorId 2, [ActorId 3]), (ActorId 3, []), (ActorId 4, [])]"
  by (simp_all add: demo_tree_def demo_tree_calls_def hm_eval tree_eval)

lemma demo_tree_size: "length (supervisors demo_tree) = Suc (Suc (Suc (Suc 0)))"
  using arg_cong [OF demo_tree_tables(2), of length] by simp

lemma demo_tree_wf: "tree_wf demo_tree"
proof -
  have "guarded_run tree_guard tree_apply demo_tree_calls
          (SupervisorTree_new (ActorId 1) SimpleOneForOne)" by code_simp
  then show ?thesis
    unfolding demo_tree_def by (rule tree_machine.run_inv [OF tree_wf_new])
qed

text \<open>
  C18: invariant. From the creation of a tree on, whatever is called on it with newly
  minted identities, the supervisors keep forming one tree below the root: the child
  lists mirror the parent pointers, there are no cycles and no dangling entries, and
  every supervisor in it stays well formed.
\<close>

theorem supervisor_tree_run_wf:
  assumes "guarded_run tree_guard tree_apply es (SupervisorTree_new i strat)"
  shows "tree_wf (fold tree_apply es (SupervisorTree_new i strat))"
  by (rule tree_machine.run_inv [OF tree_wf_new assms])

theorem supervisor_tree_run_wf_witness:
  "tree_wf (fold tree_apply demo_tree_calls (SupervisorTree_new (ActorId 1) SimpleOneForOne))"
  by (rule supervisor_tree_run_wf) code_simp

text \<open>
  C15: termination and exactness of \<open>terminate_tree\<close>. On a well-formed tree the call
  always returns, with success for a known supervisor; afterwards precisely the
  supervisors below the given one are gone (the root itself is never removed, its
  children are marked as shut down instead), no child list mentions a removed one, and
  every supervisor outside the subtree is unchanged.
\<close>

theorem terminate_tree_exact:
  assumes "tree_wf t" and "get_supervisor t i \<noteq> None"
  shows "\<exists>t'. terminate_tree i t = Some (Ok (), t') \<and> tree_wf t' \<and> root t' = root t
    \<and> (\<forall>j. j \<in> desc t i \<and> j \<noteq> root t \<longrightarrow>
          get_supervisor t' j = None \<and> (\<forall>p. j \<notin> set (kids t' p)))
    \<and> (\<forall>j. j \<notin> desc t i \<longrightarrow> get_supervisor t' j = get_supervisor t j)
    \<and> (i = root t \<longrightarrow> (\<forall>s'. get_supervisor t' i = Some s' \<longrightarrow>
          (\<forall>c \<in> set (which_children s'). state c = ChildStopped ExitShutdown)))"
proof -
  have i: "hm_get (supervisors t) i \<noteq> None" using assms(2) by (simp add: get_supervisor_def)
  obtain u where u: "terminate_tree i t = Some (Ok (), u)" and rt: "root u = root t"
    and sup: "\<And>j. hm_get (supervisors u) j = (if j \<in> desc t i - {root t} then None
       else if j \<in> desc t i then map_option shut_down (hm_get (supervisors t) j)
       else hm_get (supervisors t) j)"
    and sc: "\<And>j. hm_get (supervisor_children u) j = (if j \<in> desc t i - {root t} then None
       else map_option (filter (\<lambda>c. c \<notin> desc t i - {root t})) (hm_get (supervisor_children t) j))"
    by (rule terminate_tree_closed_form [OF assms(1) i]) (rule that, assumption+)
  have shut: "state c = ChildStopped ExitShutdown"
    if "sup_wf s" "c \<in> set (which_children (shut_down s))" for s c
    using that by (force simp: shut_down_def which_children_def hm_values_def hm_map_def child_names_def
        sup_wf_def child_names_agree_def hm_get_iff_mem image_iff split: if_splits)
  have swf: "sup_wf s" if "hm_get (supervisors t) i = Some s" for s
    using assms(1) that by (simp add: tree_wf_def)
  show ?thesis
    using u rt tree_wf_terminate [OF assms(1) i u] shut swf
    by (intro exI [of _ u]) (auto simp: get_supervisor_def sup kids_def sc map_option_case split: option.splits)
qed

theorem terminate_tree_exact_witness:
  "\<exists>t'. terminate_tree (ActorId 2) demo_tree = Some (Ok (), t') \<and> tree_wf t'
     \<and> get_supervisor t' (ActorId 3) = None
     \<and> get_supervisor t' (ActorId 4) = get_supervisor demo_tree (ActorId 4)"
proof -
  have h: "get_supervisor demo_tree (ActorId 2) \<noteq> None"
    unfolding get_supervisor_def hm_get_None_iff demo_tree_tables by simp
  have k: "kids demo_tree (ActorId 2) = [ActorId 3]" "kids demo_tree (ActorId 3) = []"
    "root demo_tree = ActorId 1" by (simp_all add: kids_def demo_tree_tables hm_get_def)
  have d: "desc demo_tree (ActorId 2) = {ActorId 2, ActorId 3}"
    using desc_unfold [of demo_tree "ActorId 2"] desc_unfold [of demo_tree "ActorId 3"] k by simp
  show ?thesis using terminate_tree_exact [OF demo_tree_wf h] unfolding d k by auto
qed

text \<open>
  C19: termination and meaning of \<open>tree_depth\<close>. On a well-formed tree the recursion
  returns the number of links on a longest path from the root down, a number below the
  number of supervisors.
\<close>

theorem tree_depth_longest_path:
  assumes "tree_wf t"
  shows "\<exists>d. tree_depth t = Some d \<and> (\<exists>j. (root t, j) \<in> edges t ^^ d)
    \<and> (\<forall>l j. (root t, j) \<in> edges t ^^ l \<longrightarrow> l \<le> d)"
proof -
  have r: "hm_get (supervisors t) (root t) \<noteq> None" using tree_wf_root [OF assms] .
  have "card (desc t (root t)) \<le> length (supervisors t)"
    using card_mono [OF finite_keys desc_sub_keys [OF assms r]] card_keys [of "supervisors t"] assms
    by (simp add: tree_wf_def)
  then show ?thesis
    using calculate_depth_longest [OF assms r, of _ 0] by (auto simp: tree_depth_def)
qed

theorem tree_depth_longest_path_witness:
  "tree_depth demo_tree = Some 2 \<and> (\<exists>j. (root demo_tree, j) \<in> edges demo_tree ^^ 2)"
proof -
  have "tree_depth demo_tree = Some 2"
    by (simp add: tree_depth_def demo_tree_size demo_tree_tables hm_get_def)
  then show ?thesis using tree_depth_longest_path [OF demo_tree_wf] by auto
qed

lemma foldl_tree_stats:
  fixes st :: supervisor_tree_stats
  defines "f \<equiv> \<lambda>st s. let ss = count_children s
              in st\<lparr>total_children := total_children st + total ss,
                    running_children := running_children st + running ss,
                    stopped_children := stopped_children st + stopped ss,
                    restarting_children := restarting_children st + restarting ss,
                    tree_total_restarts := tree_total_restarts st + stat_total_restarts ss\<rparr>"
  shows "supervisor_count (foldl f st ss) = supervisor_count st"
    "total_children (foldl f st ss) = total_children st + sum_list (map (total \<circ> count_children) ss)"
    "running_children (foldl f st ss) = running_children st + sum_list (map (running \<circ> count_children) ss)"
    "stopped_children (foldl f st ss) = stopped_children st + sum_list (map (stopped \<circ> count_children) ss)"
    "restarting_children (foldl f st ss) =
       restarting_children st + sum_list (map (restarting \<circ> count_children) ss)"
    "tree_total_restarts (foldl f st ss) =
       tree_total_restarts st + sum_list (map (stat_total_restarts \<circ> count_children) ss)"
  by (induction ss arbitrary: st) (simp_all add: f_def Let_def)

text \<open>
  The statistics of a tree count every actor of every supervisor once: the total is
  the sum of the child tables' sizes and splits exactly into running, stopped and
  restarting children.
\<close>

lemma tree_stats_complete:
  "total_children (tree_stats t) = sum_list (map child_count (hm_values (supervisors t)))
   \<and> running_children (tree_stats t) + stopped_children (tree_stats t)
       + restarting_children (tree_stats t) = total_children (tree_stats t)
   \<and> supervisor_count (tree_stats t) = length (supervisors t)
   \<and> tree_total_restarts (tree_stats t) = sum_list (map total_restarts (hm_values (supervisors t)))"
proof -
  have tot: "total (count_children s) = child_count s"
    "stat_total_restarts (count_children s) = total_restarts s" for s
    by (simp_all add: count_children_def child_count_def Let_def)
  have split: "running (count_children s) + stopped (count_children s) + restarting (count_children s)
      = child_count s" for s
    using count_columns [of s] by (simp add: child_count_def)
  have "sum_list (map (running \<circ> count_children) ss) + sum_list (map (stopped \<circ> count_children) ss)
      + sum_list (map (restarting \<circ> count_children) ss) = sum_list (map child_count ss)" for ss
    by (induction ss) (use split in \<open>auto simp: algebra_simps\<close>)
  then show ?thesis
    unfolding tree_stats_def foldl_tree_stats by (simp add: comp_def tot)
qed

end
