(* ===== verification/Supervisor_Handle.thy ===== *)
theory Supervisor_Handle
  imports Supervisor
begin

text \<open>
  \<open>SupervisorHandle\<close> of \<open>src/supervisor.rs\<close>: a supervisor behind a lock. Each operation
  holds the lock for its whole duration, so concurrent use is a sequence of operations,
  and whatever the clones of a handle do, the supervisor behind them stays well formed.
\<close>

record supervisor_handle =
  inner :: supervisor

definition SupervisorHandle_new :: "supervisor \<Rightarrow> supervisor_handle" where
  "SupervisorHandle_new sv = \<lparr>inner = sv\<rparr>"

definition handle_id :: "supervisor_handle \<Rightarrow> actor_id" where
  "handle_id h = sup_id (inner h)"

definition handle_start_child ::
  "actor_id \<Rightarrow> child_spec \<Rightarrow> supervisor_handle \<Rightarrow> actor_id result \<times> supervisor_handle" where
  "handle_start_child new_id spc h =
     (case start_child new_id spc (inner h) of (res, sv) \<Rightarrow> (res, h\<lparr>inner := sv\<rparr>))"

definition handle_stop_child :: "string \<Rightarrow> supervisor_handle \<Rightarrow> unit result \<times> supervisor_handle" where
  "handle_stop_child nm h = (case stop_child nm (inner h) of (res, sv) \<Rightarrow> (res, h\<lparr>inner := sv\<rparr>))"

definition handle_count_children :: "supervisor_handle \<Rightarrow> supervisor_stats" where
  "handle_count_children h = count_children (inner h)"

definition handle_which_children :: "supervisor_handle \<Rightarrow> supervised_child list" where
  "handle_which_children h = which_children (inner h)"

datatype handle_call = CallStart actor_id child_spec | CallStop string

fun handle_apply :: "handle_call \<Rightarrow> supervisor_handle \<Rightarrow> supervisor_handle" where
  "handle_apply (CallStart i spc) h = snd (handle_start_child i spc h)"
| "handle_apply (CallStop nm) h = snd (handle_stop_child nm h)"

primrec handle_event :: "handle_call \<Rightarrow> sup_event" where
  "handle_event (CallStart i spc) = StartChild i spc"
| "handle_event (CallStop nm) = StopChild nm"

lemma handle_apply_inner: "inner (handle_apply c h) = sup_apply (handle_event c) (inner h)"
  by (cases c) (simp_all add: handle_start_child_def handle_stop_child_def split: prod.split)

lemma handle_run_inner: "inner (fold handle_apply cs h) = fold sup_apply (map handle_event cs) (inner h)"
  by (induction cs arbitrary: h) (simp_all add: handle_apply_inner)

text \<open>Whatever is called through the clones of a handle, in whatever order, the tables stay well formed.\<close>

lemma handle_run_wf: "sup_wf (inner (fold handle_apply cs (SupervisorHandle_new (Supervisor_new i strat))))"
  unfolding handle_run_inner SupervisorHandle_new_def by (simp add: sup_wf_run sup_wf_new)

end
