(* ===== verification/Degradation.thy ===== *)
theory Degradation
  imports Core_Types Floats
begin

text \<open>
  Graceful degradation of \<open>src/supervisor.rs\<close>: resource monitors, the admission
  decision they lead to, and the batch size under pressure, computed in \<open>f64\<close>.
\<close>

section \<open>Monitors\<close>

datatype pressure_level = NormalPressure | Elevated | CriticalPressure

fun pressure_display :: "pressure_level \<Rightarrow> string" where
  "pressure_display NormalPressure = ''normal''"
| "pressure_display Elevated = ''elevated''"
| "pressure_display CriticalPressure = ''critical''"

text \<open>
  \<open>ResourceMonitor\<close> is a trait with one method: a function of the monitor. The two
  monitors the crate ships are a constant and a pair of closures, whose current answers
  are the arguments.
\<close>

record static_resource_monitor =
  level :: pressure_level

definition StaticResourceMonitor_new :: "pressure_level \<Rightarrow> static_resource_monitor" where
  "StaticResourceMonitor_new l = \<lparr>level = l\<rparr>"

definition StaticResourceMonitor_current_pressure :: "static_resource_monitor \<Rightarrow> pressure_level" where
  "StaticResourceMonitor_current_pressure m = level m"

record fn_resource_monitor =
  elevated_fn :: "unit \<Rightarrow> bool"
  critical_fn :: "unit \<Rightarrow> bool"

definition FnResourceMonitor_new :: "(unit \<Rightarrow> bool) \<Rightarrow> (unit \<Rightarrow> bool) \<Rightarrow> fn_resource_monitor" where
  "FnResourceMonitor_new e c = \<lparr>elevated_fn = e, critical_fn = c\<rparr>"

definition FnResourceMonitor_current_pressure :: "fn_resource_monitor \<Rightarrow> pressure_level" where
  "FnResourceMonitor_current_pressure m =
     (if critical_fn m () then CriticalPressure
      else if elevated_fn m () then Elevated
      else NormalPressure)"

section \<open>The controller\<close>

datatype degradation_decision = Allow | Throttle | Reject

definition is_allowed :: "degradation_decision \<Rightarrow> bool" where
  "is_allowed d = (case d of Allow \<Rightarrow> True | Throttle \<Rightarrow> True | Reject \<Rightarrow> False)"

record 'm degradation_controller =
  current_pressure :: "'m \<Rightarrow> pressure_level"
  monitor :: 'm
  elevated_batch_factor :: float

definition DegradationController_new ::
  "('m \<Rightarrow> pressure_level) \<Rightarrow> 'm \<Rightarrow> float \<Rightarrow> 'm degradation_controller" where
  "DegradationController_new cp m factor =
     \<lparr>current_pressure = cp, monitor = m,
      elevated_batch_factor = float_clamp (Fin 0 0) (Fin 1 0) factor\<rparr>"

definition pressure :: "'m degradation_controller \<Rightarrow> pressure_level" where
  "pressure c = current_pressure c (monitor c)"

definition admit_spawn :: "'m degradation_controller \<Rightarrow> degradation_decision" where
  "admit_spawn c =
     (case current_pressure c (monitor c) of
        NormalPressure \<Rightarrow> Allow | Elevated \<Rightarrow> Throttle | CriticalPressure \<Rightarrow> Reject)"

definition effective_batch_size :: "'m degradation_controller \<Rightarrow> usize \<Rightarrow> usize" where
  "effective_batch_size c normal =
     (case current_pressure c (monitor c) of
        NormalPressure \<Rightarrow> normal
      | Elevated \<Rightarrow>
          let scaled = float_as_usize (float_mul f64 (float_of_nat f64 (unat normal))
                                         (elevated_batch_factor c))
          in max scaled 1
      | CriticalPressure \<Rightarrow> 1)"

definition should_pause_non_essential :: "'m degradation_controller \<Rightarrow> bool" where
  "should_pause_non_essential c =
     (case current_pressure c (monitor c) of
        NormalPressure \<Rightarrow> False | Elevated \<Rightarrow> True | CriticalPressure \<Rightarrow> True)"

section \<open>Properties\<close>

text \<open>A clamped factor is \<open>NaN\<close> or a number between zero and one.\<close>

lemma float_clamp_unit:
  "float_clamp (Fin 0 0) (Fin 1 0) x = NaN
   \<or> (\<exists>t k. float_clamp (Fin 0 0) (Fin 1 0) x = Fin t (- int k) \<and> 0 \<le> t \<and> t \<le> 2 ^ k)
   \<or> (\<exists>t e. float_clamp (Fin 0 0) (Fin 1 0) x = Fin t e \<and> 0 < e \<and> t = 0)"
proof (cases x)
  case (Fin m e)
  show ?thesis
  proof (cases "float_less x (Fin 0 0) \<or> float_less (Fin 1 0) x")
    case True
    then show ?thesis by (auto simp: float_clamp_def intro!: exI [of _ "0 :: nat"])
  next
    case False
    then have c: "float_clamp (Fin 0 0) (Fin 1 0) x = Fin m e" using Fin by (simp add: float_clamp_def)
    show ?thesis
    proof (cases "e \<le> 0")
      case True
      then have "0 \<le> m \<and> m \<le> 2 ^ nat (- e) \<and> Fin m e = Fin m (- int (nat (- e)))"
        using False Fin by (auto simp: dyadic_less_def Let_def min_def not_less split: if_splits)
      then show ?thesis using c by metis
    next
      case e: False
      then have pos: "(2 :: int) ^ nat e = 2 * 2 ^ (nat e - 1)"
        by (cases "nat e") auto
      have "0 \<le> m * 2 ^ nat e" "m * 2 ^ nat e \<le> 1"
        using False Fin e by (auto simp: dyadic_less_def Let_def min_def not_less split: if_splits)
      moreover have "m * 2 ^ nat e = 2 * (m * 2 ^ (nat e - 1))" unfolding pos by simp
      ultimately have "m * 2 ^ nat e = 0" by presburger
      then have "m = 0" by simp
      then show ?thesis using c e by auto
    qed
  qed
qed (auto simp: float_clamp_def intro!: exI [of _ "0 :: nat"])

text \<open>
  Bounds of the batch size. Whatever the monitor reports and whatever factor the
  controller was built with, \<open>NaN\<close> and infinities included, a positive batch size
  below \<open>2 ^ 53\<close> is never enlarged and never reduced to zero.
\<close>

lemma effective_batch_size_bounds:
  assumes "0 < unat normal" and "unat normal < 2 ^ 53"
  shows "1 \<le> unat (effective_batch_size (DegradationController_new cp m factor) normal)
       \<and> unat (effective_batch_size (DegradationController_new cp m factor) normal) \<le> unat normal"
proof -
  let ?x = "float_clamp (Fin 0 0) (Fin 1 0) factor"
  let ?s = "float_as_usize (float_mul f64 (float_of_nat f64 (unat normal)) ?x)"
  have ex: "float_of_nat f64 (unat normal) = Fin (int (unat normal)) 0"
    by (rule float_of_nat_exact) (use assms(2) in \<open>simp_all add: f64_def\<close>)
  have "unat ?s \<le> unat normal"
    using float_clamp_unit [of factor]
  proof (elim disjE exE conjE)
    fix t k assume "?x = Fin t (- int k)" "0 \<le> t" "t \<le> 2 ^ k"
    then show ?thesis using scaled_le [of "unat normal" f64 t k] assms(2) by (simp add: f64_def)
  next
    fix t e assume "?x = Fin t e" "t = 0"
    then show ?thesis by (simp add: ex float_round_def Let_def round_shift_def)
  qed (simp add: ex)
  then have "unat (max ?s 1) \<le> unat normal" "1 \<le> unat (max ?s 1)"
    using assms(1) by (auto simp: max_def word_le_nat_alt)
  then show ?thesis
    using assms(1)
    by (simp add: effective_batch_size_def DegradationController_new_def Let_def
        split: pressure_level.split)
qed

lemma effective_batch_size_bounds_example:
  "unat (effective_batch_size
     (DegradationController_new StaticResourceMonitor_current_pressure \<lparr>level = Elevated\<rparr> (Fin 3 (- 2))) 10) \<le> 10
   \<and> effective_batch_size
     (DegradationController_new StaticResourceMonitor_current_pressure \<lparr>level = Elevated\<rparr> (Fin 3 (- 2))) 10 = 7"
proof -
  have "effective_batch_size
     (DegradationController_new StaticResourceMonitor_current_pressure \<lparr>level = Elevated\<rparr> (Fin 3 (- 2))) 10 = 7"
    by code_simp
  then show ?thesis
    using effective_batch_size_bounds [of 10 StaticResourceMonitor_current_pressure "\<lparr>level = Elevated\<rparr>" "Fin 3 (- 2)"]
    by simp
qed

end
