(* ===== verification/Mailbox.thy ===== *)
theory Mailbox
  imports Core_Types Floats "HOL-Library.Monad_Syntax"
begin

text \<open>
  The bounded mailbox of \<open>src/mailbox.rs\<close>. The lock-free queues (\<open>crossbeam_queue\<close>)
  and the semaphore and wakeup primitives (\<open>tokio::sync\<close>) are code outside the
  repository: a record of operations is passed to every definition, and the locales
  below state what their documentation promises. On top of these the mailbox is proved
  to be a bounded two-lane queue that never loses, duplicates or reorders a message.
\<close>

section \<open>The external primitives\<close>

text \<open>
  \<open>sem_try_acquire\<close> and \<open>sem_acquire\<close> take a permit that is then forgotten, the only
  way the mailbox uses them: a forgotten permit is not given back. An asynchronous
  acquire is polled once and may be left pending. \<open>nt_enable\<close> creates and enables a
  \<open>Notified\<close> future, named by a ticket; \<open>nt_woken\<close> polls it.
\<close>

datatype acquire_poll = Acquired | AcquirePending | AcquireClosed rust_string

record ('q, 's, 'n) mb_ext =
  aq_new :: "usize \<Rightarrow> 'q"
  aq_push :: "'q \<Rightarrow> message \<Rightarrow> (message + unit) \<times> 'q"
  aq_pop :: "'q \<Rightarrow> message option \<times> 'q"
  sem_new :: "usize \<Rightarrow> 's"
  sem_try_acquire :: "'s \<Rightarrow> bool \<times> 's"
  sem_acquire :: "'s \<Rightarrow> acquire_poll \<times> 's"
  sem_add_permits :: "'s \<Rightarrow> usize \<Rightarrow> 's"
  nt_new :: 'n
  nt_enable :: "'n \<Rightarrow> nat \<times> 'n"
  nt_notify_waiters :: "'n \<Rightarrow> 'n"
  nt_woken :: "'n \<Rightarrow> nat \<Rightarrow> bool"

section \<open>Data\<close>

record mailbox_config =
  capacity :: usize
  priority_queue :: bool
  backpressure_threshold :: float

text \<open>The literal \<open>0.8\<close> as an \<open>f32\<close> is \<open>13421773 / 2 ^ 24\<close>.\<close>

definition MailboxConfig_default :: mailbox_config where
  "MailboxConfig_default =
     \<lparr>capacity = 10000, priority_queue = True, backpressure_threshold = Fin 13421773 (- 24)\<rparr>"

definition MailboxConfig_new :: "usize \<Rightarrow> mailbox_config" where
  "MailboxConfig_new cap = MailboxConfig_default\<lparr>capacity := cap\<rparr>"

definition backpressure_count :: "mailbox_config \<Rightarrow> usize" where
  "backpressure_count cfg =
     float_as_usize (float_mul f32 (float_of_nat f32 (unat (capacity cfg)))
                       (backpressure_threshold cfg))"

record ('q, 's, 'n) mailbox =
  mb_actor_id :: actor_id
  config :: mailbox_config
  queue :: 'q
  mb_size :: usize
  semaphore :: 's
  backpressure :: bool
  critical_queue :: 'q
  notify :: 'n

section \<open>Operations\<close>

definition Mailbox_new ::
  "('q, 's, 'n, 'z) mb_ext_scheme \<Rightarrow> actor_id \<Rightarrow> mailbox_config \<Rightarrow> ('q, 's, 'n) mailbox" where
  "Mailbox_new X i cfg =
     \<lparr>mb_actor_id = i, config = cfg, queue = aq_new X (capacity cfg), mb_size = 0,
      semaphore = sem_new X (capacity cfg), backpressure = False,
      critical_queue = aq_new X (capacity cfg), notify = nt_new X\<rparr>"

definition mailbox_full :: "actor_id \<Rightarrow> error" where
  "mailbox_full i = ResourceExhausted [Str ''mailbox for actor '', DbgId i, Str '' is full'']"

definition internal_queue_full :: "actor_id \<Rightarrow> error" where
  "internal_queue_full i =
     ResourceExhausted [Str ''mailbox for actor '', DbgId i, Str '' internal queue is full'']"

text \<open>
  What \<open>try_send\<close> and \<open>send\<close> both do once they hold a permit: count the message,
  push it on its lane, undo both on a refused push, raise the backpressure flag and wake
  the receivers.
\<close>

definition enqueue ::
  "('q, 's, 'n, 'z) mb_ext_scheme \<Rightarrow> message \<Rightarrow> ('q, 's, 'n) mailbox
   \<Rightarrow> (message + unit) \<times> ('q, 's, 'n) mailbox" where
  "enqueue X msg mb =
     (let sz = mb_size mb + 1;
          mb = mb\<lparr>mb_size := sz\<rparr>;
          (pushed, mb) =
            (if priority_queue (config mb) \<and> priority msg = Critical
             then (case aq_push X (critical_queue mb) msg of
                     (r, q) \<Rightarrow> (r, mb\<lparr>critical_queue := q\<rparr>))
             else (case aq_push X (queue mb) msg of (r, q) \<Rightarrow> (r, mb\<lparr>queue := q\<rparr>)))
      in case pushed of
           Inl rejected \<Rightarrow>
             (Inl rejected, mb\<lparr>mb_size := mb_size mb - 1,
                              semaphore := sem_add_permits X (semaphore mb) 1\<rparr>)
         | Inr _ \<Rightarrow>
             let mb = (if backpressure_count (config mb) \<le> sz
                       then mb\<lparr>backpressure := True\<rparr> else mb)
             in (Inr (), mb\<lparr>notify := nt_notify_waiters X (notify mb)\<rparr>))"

definition Mailbox_try_send ::
  "('q, 's, 'n, 'z) mb_ext_scheme \<Rightarrow> message \<Rightarrow> ('q, 's, 'n) mailbox
   \<Rightarrow> (message \<times> error + unit) \<times> ('q, 's, 'n) mailbox" where
  "Mailbox_try_send X msg mb =
     (let (permit, sem) = sem_try_acquire X (semaphore mb); mb = mb\<lparr>semaphore := sem\<rparr>
      in if \<not> permit then (Inl (msg, mailbox_full (mb_actor_id mb)), mb)
         else case enqueue X msg mb of
                (Inl rejected, mb) \<Rightarrow> (Inl (rejected, internal_queue_full (mb_actor_id mb)), mb)
              | (Inr _, mb) \<Rightarrow> (Inr (), mb))"

text \<open>One poll of the asynchronous \<open>send\<close>: \<open>None\<close> is a send that waits for a permit.\<close>

definition Mailbox_send ::
  "('q, 's, 'n, 'z) mb_ext_scheme \<Rightarrow> message \<Rightarrow> ('q, 's, 'n) mailbox
   \<Rightarrow> unit result option \<times> ('q, 's, 'n) mailbox" where
  "Mailbox_send X msg mb =
     (let (permit, sem) = sem_acquire X (semaphore mb); mb = mb\<lparr>semaphore := sem\<rparr>
      in case permit of
           AcquirePending \<Rightarrow> (None, mb)
         | AcquireClosed e \<Rightarrow> (Some (Err (ResourceExhausted e)), mb)
         | Acquired \<Rightarrow>
             (case enqueue X msg mb of
                (Inl _, mb) \<Rightarrow> (Some (Err (internal_queue_full (mb_actor_id mb))), mb)
              | (Inr _, mb) \<Rightarrow> (Some (Ok ()), mb)))"

definition check_backpressure :: "('q, 's, 'n) mailbox \<Rightarrow> ('q, 's, 'n) mailbox" where
  "check_backpressure mb =
     (if mb_size mb < backpressure_count (config mb) div 2
      then mb\<lparr>backpressure := False\<rparr> else mb)"

definition release_slot ::
  "('q, 's, 'n, 'z) mb_ext_scheme \<Rightarrow> ('q, 's, 'n) mailbox \<Rightarrow> ('q, 's, 'n) mailbox" where
  "release_slot X mb =
     check_backpressure (mb\<lparr>mb_size := mb_size mb - 1,
                            semaphore := sem_add_permits X (semaphore mb) 1\<rparr>)"

definition recv_normal ::
  "('q, 's, 'n, 'z) mb_ext_scheme \<Rightarrow> ('q, 's, 'n) mailbox
   \<Rightarrow> message option \<times> ('q, 's, 'n) mailbox" where
  "recv_normal X mb =
     (case aq_pop X (queue mb) of
        (Some msg, q) \<Rightarrow> (Some msg, release_slot X (mb\<lparr>queue := q\<rparr>))
      | (None, q) \<Rightarrow> (None, mb\<lparr>queue := q\<rparr>))"

definition Mailbox_try_recv ::
  "('q, 's, 'n, 'z) mb_ext_scheme \<Rightarrow> ('q, 's, 'n) mailbox
   \<Rightarrow> message option \<times> ('q, 's, 'n) mailbox" where
  "Mailbox_try_recv X mb =
     (if priority_queue (config mb)
      then (case aq_pop X (critical_queue mb) of
              (Some msg, q) \<Rightarrow> (Some msg, release_slot X (mb\<lparr>critical_queue := q\<rparr>))
            | (None, q) \<Rightarrow> recv_normal X (mb\<lparr>critical_queue := q\<rparr>))
      else recv_normal X mb)"

text \<open>
  One turn of the loop of the asynchronous \<open>recv\<close>: the wakeup is enabled before the
  mailbox is looked at, and a receiver that finds nothing parks on its ticket until it
  is woken, which starts the next turn.
\<close>

datatype recv_turn = Received message | Parked nat

definition recv_once ::
  "('q, 's, 'n, 'z) mb_ext_scheme \<Rightarrow> ('q, 's, 'n) mailbox \<Rightarrow> recv_turn \<times> ('q, 's, 'n) mailbox" where
  "recv_once X mb =
     (let (tk, nt) = nt_enable X (notify mb)
      in case Mailbox_try_recv X (mb\<lparr>notify := nt\<rparr>) of
           (Some msg, mb) \<Rightarrow> (Received msg, mb)
         | (None, mb) \<Rightarrow> (Parked tk, mb))"

definition Mailbox_len :: "('q, 's, 'n) mailbox \<Rightarrow> usize" where
  "Mailbox_len mb = mb_size mb"

definition Mailbox_is_empty :: "('q, 's, 'n) mailbox \<Rightarrow> bool" where
  "Mailbox_is_empty mb = (Mailbox_len mb = 0)"

definition is_backpressured :: "('q, 's, 'n) mailbox \<Rightarrow> bool" where
  "is_backpressured mb = backpressure mb"

definition Mailbox_capacity :: "('q, 's, 'n) mailbox \<Rightarrow> usize" where
  "Mailbox_capacity mb = capacity (config mb)"

definition remaining_capacity :: "('q, 's, 'n) mailbox \<Rightarrow> usize" where
  "remaining_capacity mb = saturating_sub (capacity (config mb)) (Mailbox_len mb)"

text \<open>
  The two loops of \<open>clear\<close> pop until a queue is empty. They take fuel; \<open>None\<close> means
  that it did not suffice. One unit more than the capacity is enough.
\<close>

fun drain_queue ::
  "('q, 's, 'n, 'z) mb_ext_scheme \<Rightarrow> nat \<Rightarrow> 'q \<Rightarrow> usize \<Rightarrow> (usize \<times> 'q) option" where
  "drain_queue X 0 q tot = None"
| "drain_queue X (Suc n) q tot =
     (case aq_pop X q of
        (Some _, q) \<Rightarrow> drain_queue X n q (tot + 1)
      | (None, q) \<Rightarrow> Some (tot, q))"

definition Mailbox_clear ::
  "('q, 's, 'n, 'z) mb_ext_scheme \<Rightarrow> ('q, 's, 'n) mailbox \<Rightarrow> ('q, 's, 'n) mailbox option" where
  "Mailbox_clear X mb =
     (let fuel = Suc (unat (capacity (config mb)))
      in do {
        (tot, cq) \<leftarrow> drain_queue X fuel (critical_queue mb) 0;
        (tot, q) \<leftarrow> drain_queue X fuel (queue mb) tot;
        let mb = mb\<lparr>critical_queue := cq, queue := q\<rparr>;
        let mb = (if 0 < tot
                  then mb\<lparr>mb_size := mb_size mb - tot,
                          semaphore := sem_add_permits X (semaphore mb) tot\<rparr>
                  else mb);
        Some (mb\<lparr>backpressure := False\<rparr>)
      })"


section \<open>What the primitives promise\<close>

text \<open>\<open>ArrayQueue\<close>: a bounded FIFO. Its documentation gives no meaning to capacity 0.\<close>

locale array_queue =
  fixes new :: "usize \<Rightarrow> 'q"
    and push :: "'q \<Rightarrow> 'a \<Rightarrow> ('a + unit) \<times> 'q"
    and pop :: "'q \<Rightarrow> 'a option \<times> 'q"
    and items :: "'q \<Rightarrow> 'a list"
    and cap :: "'q \<Rightarrow> nat"
  assumes items_new: "0 < n \<Longrightarrow> items (new n) = []"
    and cap_new: "0 < n \<Longrightarrow> cap (new n) = unat n"
    and push_result: "fst (push q a) = (if length (items q) < cap q then Inr () else Inl a)"
    and items_push: "items (snd (push q a)) = (if length (items q) < cap q then items q @ [a] else items q)"
    and cap_push: "cap (snd (push q a)) = cap q"
    and pop_result: "fst (pop q) = (case items q of [] \<Rightarrow> None | a # _ \<Rightarrow> Some a)"
    and items_pop: "items (snd (pop q)) = tl (items q)"
    and cap_pop: "cap (snd (pop q)) = cap q"
begin

lemmas queue_laws = items_push cap_push items_pop cap_pop

lemma pushE:
  assumes "length (items q) < cap q"
  obtains q' where "push q a = (Inr (), q')" and "items q' = items q @ [a]" and "cap q' = cap q"
proof (rule that [of "snd (push q a)"])
  show "push q a = (Inr (), snd (push q a))" using push_result [of q a] assms by (simp add: prod_eq_iff)
qed (simp_all add: queue_laws assms)

lemma popE:
  assumes "items q = a # as"
  obtains q' where "pop q = (Some a, q')" and "items q' = as" and "cap q' = cap q"
proof (rule that [of "snd (pop q)"])
  show "pop q = (Some a, snd (pop q))" using pop_result [of q] assms by (simp add: prod_eq_iff)
qed (simp_all add: queue_laws assms)

lemma pop_emptyE:
  assumes "items q = []"
  obtains q' where "pop q = (None, q')" and "items q' = []" and "cap q' = cap q"
proof (rule that [of "snd (pop q)"])
  show "pop q = (None, snd (pop q))" using pop_result [of q] assms by (simp add: prod_eq_iff)
qed (simp_all add: queue_laws assms)

end

text \<open>
  \<open>Semaphore\<close>: a counter of permits. The laws speak of a semaphore nobody waits on
  (\<open>idle\<close>): with waiters, released permits are handed to them in order of arrival.
  More than \<open>MAX_PERMITS\<close> permits are not supported.
\<close>

definition MAX_PERMITS :: nat where
  "MAX_PERMITS = 2 ^ 61 - 1"

locale counting_semaphore =
  fixes new :: "usize \<Rightarrow> 's"
    and try_acquire :: "'s \<Rightarrow> bool \<times> 's"
    and acquire :: "'s \<Rightarrow> acquire_poll \<times> 's"
    and add_permits :: "'s \<Rightarrow> usize \<Rightarrow> 's"
    and permits :: "'s \<Rightarrow> nat"
    and idle :: "'s \<Rightarrow> bool"
  assumes sem_new: "unat n \<le> MAX_PERMITS \<Longrightarrow> permits (new n) = unat n \<and> idle (new n)"
    and try_acquire_result: "idle s \<Longrightarrow> fst (try_acquire s) = (0 < permits s)"
    and try_acquire_permits: "idle s \<Longrightarrow> permits (snd (try_acquire s)) = permits s - 1"
    and try_acquire_idle: "idle s \<Longrightarrow> idle (snd (try_acquire s))"
    and acquire_result: "idle s \<Longrightarrow> fst (acquire s) = (if 0 < permits s then Acquired else AcquirePending)"
    and acquire_permits: "idle s \<Longrightarrow> permits (snd (acquire s)) = permits s - 1"
    and acquire_idle: "idle s \<Longrightarrow> 0 < permits s \<Longrightarrow> idle (snd (acquire s))"
    and add_permits: "idle s \<Longrightarrow> permits s + unat n \<le> MAX_PERMITS \<Longrightarrow>
           permits (add_permits s n) = permits s + unat n \<and> idle (add_permits s n)"

text \<open>\<open>Notify\<close>: \<open>notify_waiters\<close> wakes every future enabled before it.\<close>

locale notifier =
  fixes enable :: "'n \<Rightarrow> nat \<times> 'n"
    and notify_waiters :: "'n \<Rightarrow> 'n"
    and woken :: "'n \<Rightarrow> nat \<Rightarrow> bool"
    and waiting :: "'n \<Rightarrow> nat set"
  assumes enable_waiting: "fst (enable n) \<in> waiting (snd (enable n))"
    and waiting_enable: "waiting n \<subseteq> waiting (snd (enable n))"
    and notify_wakes: "t \<in> waiting n \<Longrightarrow> woken (notify_waiters n) t"

locale mailbox_env =
  aq: array_queue "aq_new X" "aq_push X" "aq_pop X" items cap +
  sem: counting_semaphore "sem_new X" "sem_try_acquire X" "sem_acquire X" "sem_add_permits X"
    permits idle +
  nt: notifier "nt_enable X" "nt_notify_waiters X" "nt_woken X" waiting
  for X :: "('q, 's, 'n, 'z) mb_ext_scheme"
    and items :: "'q \<Rightarrow> message list" and cap :: "'q \<Rightarrow> nat"
    and permits :: "'s \<Rightarrow> nat" and idle :: "'s \<Rightarrow> bool" and waiting :: "'n \<Rightarrow> nat set"

section \<open>The abstract mailbox\<close>

text \<open>
  What a mailbox promises: two lanes of messages, \<open>Critical\<close> ones in the first when the
  priority queue is enabled, at most \<open>capacity\<close> messages in all, the first lane served
  before the second, each in order of arrival.
\<close>

record lanes =
  critical_lane :: "message list"
  normal_lane :: "message list"

definition lanes_len :: "lanes \<Rightarrow> nat" where
  "lanes_len l = length (critical_lane l) + length (normal_lane l)"

definition lanes_add :: "mailbox_config \<Rightarrow> message \<Rightarrow> lanes \<Rightarrow> lanes" where
  "lanes_add cfg m l =
     (if priority_queue cfg \<and> priority m = Critical
      then l\<lparr>critical_lane := critical_lane l @ [m]\<rparr>
      else l\<lparr>normal_lane := normal_lane l @ [m]\<rparr>)"

definition spec_send :: "mailbox_config \<Rightarrow> message \<Rightarrow> lanes \<Rightarrow> bool \<times> lanes" where
  "spec_send cfg m l =
     (if lanes_len l < unat (capacity cfg) then (True, lanes_add cfg m l) else (False, l))"

definition spec_recv :: "lanes \<Rightarrow> message option \<times> lanes" where
  "spec_recv l =
     (case critical_lane l of
        m # ms \<Rightarrow> (Some m, l\<lparr>critical_lane := ms\<rparr>)
      | [] \<Rightarrow> (case normal_lane l of
                 m # ms \<Rightarrow> (Some m, l\<lparr>normal_lane := ms\<rparr>)
               | [] \<Rightarrow> (None, l)))"

definition lanes_empty :: lanes where
  "lanes_empty = \<lparr>critical_lane = [], normal_lane = []\<rparr>"

datatype mb_event = TrySend message | Send message | TryRecv | Recv | Clear

datatype mb_outcome =
    Sent
  | Refused message error
  | Waiting
  | SendError error
  | Got message
  | Nothing
  | Cleared
  | Hung

fun mb_step ::
  "('q, 's, 'n, 'z) mb_ext_scheme \<Rightarrow> mb_event \<Rightarrow> ('q, 's, 'n) mailbox
   \<Rightarrow> mb_outcome \<times> ('q, 's, 'n) mailbox" where
  "mb_step X (TrySend m) mb =
     (case Mailbox_try_send X m mb of
        (Inl (m, e), mb) \<Rightarrow> (Refused m e, mb) | (Inr _, mb) \<Rightarrow> (Sent, mb))"
| "mb_step X (Send m) mb =
     (case Mailbox_send X m mb of
        (None, mb) \<Rightarrow> (Waiting, mb)
      | (Some (Inl e), mb) \<Rightarrow> (SendError e, mb)
      | (Some (Inr _), mb) \<Rightarrow> (Sent, mb))"
| "mb_step X TryRecv mb =
     (case Mailbox_try_recv X mb of (Some m, mb) \<Rightarrow> (Got m, mb) | (None, mb) \<Rightarrow> (Nothing, mb))"
| "mb_step X Recv mb =
     (case recv_once X mb of (Received m, mb) \<Rightarrow> (Got m, mb) | (Parked _, mb) \<Rightarrow> (Waiting, mb))"
| "mb_step X Clear mb =
     (case Mailbox_clear X mb of None \<Rightarrow> (Hung, mb) | Some mb \<Rightarrow> (Cleared, mb))"

fun spec_step :: "mailbox_config \<Rightarrow> actor_id \<Rightarrow> mb_event \<Rightarrow> lanes \<Rightarrow> mb_outcome \<times> lanes" where
  "spec_step cfg i (TrySend m) l =
     (case spec_send cfg m l of
        (True, l) \<Rightarrow> (Sent, l) | (False, l) \<Rightarrow> (Refused m (mailbox_full i), l))"
| "spec_step cfg i (Send m) l =
     (case spec_send cfg m l of (True, l) \<Rightarrow> (Sent, l) | (False, l) \<Rightarrow> (Waiting, l))"
| "spec_step cfg i TryRecv l =
     (case spec_recv l of (Some m, l) \<Rightarrow> (Got m, l) | (None, l) \<Rightarrow> (Nothing, l))"
| "spec_step cfg i Recv l =
     (case spec_recv l of (Some m, l) \<Rightarrow> (Got m, l) | (None, l) \<Rightarrow> (Waiting, l))"
| "spec_step cfg i Clear l = (Cleared, lanes_empty)"

text \<open>
  The correspondence: the lanes are the contents of the two queues, the size counter
  counts them, and permits and messages together make up the capacity. A send may wait
  only on a mailbox that is not full: afterwards somebody waits on the semaphore.
\<close>

definition lanes_of :: "('q \<Rightarrow> message list) \<Rightarrow> ('q, 's, 'n) mailbox \<Rightarrow> lanes" where
  "lanes_of items mb = \<lparr>critical_lane = items (critical_queue mb), normal_lane = items (queue mb)\<rparr>"

definition mb_inv ::
  "('q \<Rightarrow> message list) \<Rightarrow> ('q \<Rightarrow> nat) \<Rightarrow> ('s \<Rightarrow> nat) \<Rightarrow> ('s \<Rightarrow> bool) \<Rightarrow> mailbox_config \<Rightarrow> actor_id
   \<Rightarrow> ('q, 's, 'n) mailbox \<Rightarrow> bool" where
  "mb_inv items cap permits idle cfg i mb =
     (config mb = cfg \<and> mb_actor_id mb = i \<and> idle (semaphore mb)
      \<and> 0 < unat (capacity cfg) \<and> unat (capacity cfg) \<le> MAX_PERMITS
      \<and> cap (queue mb) = unat (capacity cfg) \<and> cap (critical_queue mb) = unat (capacity cfg)
      \<and> unat (mb_size mb) = lanes_len (lanes_of items mb)
      \<and> permits (semaphore mb) + lanes_len (lanes_of items mb) = unat (capacity cfg)
      \<and> (priority_queue cfg \<or> items (critical_queue mb) = []))"

fun mb_guard :: "mailbox_config \<Rightarrow> mb_event \<Rightarrow> lanes \<Rightarrow> bool" where
  "mb_guard cfg (Send m) l = (lanes_len l < unat (capacity cfg))"
| "mb_guard cfg _ l = True"

lemmas lanes_defs = lanes_of_def lanes_len_def lanes_add_def lanes_empty_def

lemma word_zero_less_unat: "0 < n \<longleftrightarrow> 0 < unat (n :: 'a::len word)"
  by (simp add: word_less_nat_alt)

context mailbox_env
begin

abbreviation inv_of :: "mailbox_config \<Rightarrow> actor_id \<Rightarrow> ('q, 's, 'n) mailbox \<Rightarrow> bool" where
  "inv_of \<equiv> mb_inv items cap permits idle"

lemma new_inv:
  assumes "0 < unat (capacity cfg)" and "unat (capacity cfg) \<le> MAX_PERMITS"
  shows "inv_of cfg i (Mailbox_new X i cfg)" and "lanes_of items (Mailbox_new X i cfg) = lanes_empty"
  using assms sem.sem_new [of "capacity cfg"] aq.items_new [of "capacity cfg"] aq.cap_new [of "capacity cfg"]
  by (simp_all add: mb_inv_def Mailbox_new_def lanes_defs word_zero_less_unat)

text \<open>With a permit in hand, both queues have room: the refused push is unreachable.\<close>

lemma enqueue_ok:
  assumes inv: "inv_of cfg i mb" and room: "lanes_len (lanes_of items mb) < unat (capacity cfg)"
    and sem': "idle sem'" "permits sem' = permits (semaphore mb) - 1"
  shows "\<exists>mb'. enqueue X m (mb\<lparr>semaphore := sem'\<rparr>) = (Inr (), mb') \<and> inv_of cfg i mb'
    \<and> lanes_of items mb' = lanes_add cfg m (lanes_of items mb)
    \<and> notify mb' = nt_notify_waiters X (notify mb)"
proof -
  note I = inv [unfolded mb_inv_def]
  have sz: "unat (mb_size mb + 1) = Suc (unat (mb_size mb))"
    by (rule unat_succ_no_wrap) (use I room in \<open>simp add: MAX_PERMITS_def\<close>)
  show ?thesis
  proof (cases "priority_queue cfg \<and> priority m = Critical")
    case True
    have "length (items (critical_queue mb)) < cap (critical_queue mb)"
      using I room by (simp add: lanes_defs)
    then obtain q' where "aq_push X (critical_queue mb) m = (Inr (), q')"
      "items q' = items (critical_queue mb) @ [m]" "cap q' = cap (critical_queue mb)"
      by (rule aq.pushE)
    then show ?thesis
      using True I room sz sem' by (auto simp: enqueue_def Let_def mb_inv_def lanes_defs)
  next
    case False
    have "length (items (queue mb)) < cap (queue mb)"
      using I room by (simp add: lanes_defs)
    then obtain q' where "aq_push X (queue mb) m = (Inr (), q')"
      "items q' = items (queue mb) @ [m]" "cap q' = cap (queue mb)"
      by (rule aq.pushE)
    then show ?thesis
      using False I room sz sem' by (auto simp: enqueue_def Let_def mb_inv_def lanes_defs)
  qed
qed

lemma try_send_full:
  assumes inv: "inv_of cfg i mb" and full: "\<not> lanes_len (lanes_of items mb) < unat (capacity cfg)"
  shows "\<exists>mb'. Mailbox_try_send X m mb = (Inl (m, mailbox_full i), mb') \<and> inv_of cfg i mb'
    \<and> lanes_of items mb' = lanes_of items mb"
proof -
  have "fst (sem_try_acquire X (semaphore mb)) = False" "idle (snd (sem_try_acquire X (semaphore mb)))"
    "permits (snd (sem_try_acquire X (semaphore mb))) = permits (semaphore mb)"
    using inv full sem.try_acquire_result sem.try_acquire_idle sem.try_acquire_permits
    by (auto simp: mb_inv_def)
  then show ?thesis
    using inv by (cases "sem_try_acquire X (semaphore mb)")
      (auto simp: Mailbox_try_send_def Let_def mb_inv_def lanes_defs)
qed

lemma try_send_room:
  assumes inv: "inv_of cfg i mb" and room: "lanes_len (lanes_of items mb) < unat (capacity cfg)"
  shows "\<exists>mb'. Mailbox_try_send X m mb = (Inr (), mb') \<and> inv_of cfg i mb'
    \<and> lanes_of items mb' = lanes_add cfg m (lanes_of items mb)
    \<and> notify mb' = nt_notify_waiters X (notify mb)"
proof -
  let ?s = "sem_try_acquire X (semaphore mb)"
  have "fst ?s" "idle (snd ?s)" "permits (snd ?s) = permits (semaphore mb) - 1"
    using inv room sem.try_acquire_result sem.try_acquire_idle sem.try_acquire_permits
    by (auto simp: mb_inv_def)
  then show ?thesis
    using enqueue_ok [OF inv room, of "snd ?s" m]
    by (cases ?s) (auto simp: Mailbox_try_send_def Let_def)
qed

lemma send_room:
  assumes inv: "inv_of cfg i mb" and room: "lanes_len (lanes_of items mb) < unat (capacity cfg)"
  shows "\<exists>mb'. Mailbox_send X m mb = (Some (Ok ()), mb') \<and> inv_of cfg i mb'
    \<and> lanes_of items mb' = lanes_add cfg m (lanes_of items mb)
    \<and> notify mb' = nt_notify_waiters X (notify mb)"
proof -
  let ?s = "sem_acquire X (semaphore mb)"
  have "fst ?s = Acquired" "idle (snd ?s)" "permits (snd ?s) = permits (semaphore mb) - 1"
    using inv room sem.acquire_result [of "semaphore mb"] sem.acquire_idle [of "semaphore mb"]
      sem.acquire_permits [of "semaphore mb"] by (auto simp: mb_inv_def)
  then show ?thesis
    using enqueue_ok [OF inv room, of "snd ?s" m]
    by (cases ?s) (auto simp: Mailbox_send_def Let_def)
qed

lemma send_full:
  assumes inv: "inv_of cfg i mb" and full: "\<not> lanes_len (lanes_of items mb) < unat (capacity cfg)"
  shows "fst (Mailbox_send X m mb) = None" and "lanes_of items (snd (Mailbox_send X m mb)) = lanes_of items mb"
  using inv full sem.acquire_result [of "semaphore mb"]
  by (auto simp: Mailbox_send_def Let_def mb_inv_def lanes_defs split: prod.splits)

lemma release_slot_inv:
  assumes "config mb = cfg" "mb_actor_id mb = i" "idle (semaphore mb)" "0 < unat (capacity cfg)"
    "unat (capacity cfg) \<le> MAX_PERMITS" "cap (queue mb) = unat (capacity cfg)"
    "cap (critical_queue mb) = unat (capacity cfg)"
    "unat (mb_size mb) = Suc (lanes_len (lanes_of items mb))"
    "permits (semaphore mb) + Suc (lanes_len (lanes_of items mb)) = unat (capacity cfg)"
    "priority_queue cfg \<or> items (critical_queue mb) = []"
  shows "inv_of cfg i (release_slot X mb)" "lanes_of items (release_slot X mb) = lanes_of items mb"
proof -
  have sz: "unat (mb_size mb - 1) = unat (mb_size mb) - 1"
    by (rule unat_pred_no_wrap) (use assms in simp)
  have "permits (semaphore mb) + unat (1 :: usize) \<le> MAX_PERMITS"
    using assms(5,9) by simp
  note ap = sem.add_permits [OF assms(3) this]
  show "inv_of cfg i (release_slot X mb)" "lanes_of items (release_slot X mb) = lanes_of items mb"
    using assms sz ap
    by (auto simp: release_slot_def check_backpressure_def mb_inv_def lanes_defs)
qed

lemma try_recv_spec:
  assumes inv: "inv_of cfg i mb"
  shows "fst (Mailbox_try_recv X mb) = fst (spec_recv (lanes_of items mb))
    \<and> lanes_of items (snd (Mailbox_try_recv X mb)) = snd (spec_recv (lanes_of items mb))
    \<and> inv_of cfg i (snd (Mailbox_try_recv X mb))"
proof -
  note I = inv [unfolded mb_inv_def]
  have normal: "fst (recv_normal X mb') = fst (spec_recv (lanes_of items mb'))
    \<and> lanes_of items (snd (recv_normal X mb')) = snd (spec_recv (lanes_of items mb'))
    \<and> inv_of cfg i (snd (recv_normal X mb'))"
    if inv': "inv_of cfg i mb'" and ce: "items (critical_queue mb') = []" for mb'
  proof (cases "items (queue mb')")
    case Nil
    then obtain q' where "aq_pop X (queue mb') = (None, q')" "items q' = []" "cap q' = cap (queue mb')"
      by (rule aq.pop_emptyE)
    then show ?thesis
      using ce Nil inv' by (auto simp: recv_normal_def spec_recv_def mb_inv_def lanes_defs)
  next
    case (Cons m ms)
    then obtain q' where q': "aq_pop X (queue mb') = (Some m, q')" "items q' = ms" "cap q' = cap (queue mb')"
      by (rule aq.popE)
    have "inv_of cfg i (release_slot X (mb'\<lparr>queue := q'\<rparr>))"
      "lanes_of items (release_slot X (mb'\<lparr>queue := q'\<rparr>)) = lanes_of items (mb'\<lparr>queue := q'\<rparr>)"
      by (rule release_slot_inv [of _ cfg i]; use inv' ce Cons q' in \<open>simp add: mb_inv_def lanes_defs\<close>)+
    then show ?thesis
      using ce Cons q' by (simp add: recv_normal_def spec_recv_def lanes_defs)
  qed
  show ?thesis
  proof (cases "items (critical_queue mb)")
    case Nil
    then obtain q' where q': "aq_pop X (critical_queue mb) = (None, q')" "items q' = []"
      "cap q' = cap (critical_queue mb)"
      by (rule aq.pop_emptyE)
    then have "inv_of cfg i (mb\<lparr>critical_queue := q'\<rparr>)"
      "lanes_of items (mb\<lparr>critical_queue := q'\<rparr>) = lanes_of items mb"
      using inv Nil by (auto simp: mb_inv_def lanes_defs)
    then show ?thesis
      using normal [of "mb\<lparr>critical_queue := q'\<rparr>"] normal [of mb] inv Nil q'
      by (simp add: Mailbox_try_recv_def)
  next
    case (Cons m ms)
    then obtain q' where q': "aq_pop X (critical_queue mb) = (Some m, q')" "items q' = ms"
      "cap q' = cap (critical_queue mb)"
      by (rule aq.popE)
    have "inv_of cfg i (release_slot X (mb\<lparr>critical_queue := q'\<rparr>))"
      "lanes_of items (release_slot X (mb\<lparr>critical_queue := q'\<rparr>)) = lanes_of items (mb\<lparr>critical_queue := q'\<rparr>)"
      by (rule release_slot_inv [of _ cfg i]; use I Cons q' in \<open>simp add: lanes_defs\<close>)+
    moreover have "priority_queue (config mb)" using I Cons by auto
    ultimately show ?thesis
      using Cons q' by (simp add: Mailbox_try_recv_def spec_recv_def lanes_defs)
  qed
qed

lemma inv_of_notify:
  "inv_of cfg i (mb\<lparr>notify := n\<rparr>) = inv_of cfg i mb" "lanes_of items (mb\<lparr>notify := n\<rparr>) = lanes_of items mb"
  by (simp_all add: mb_inv_def lanes_defs)

lemma drain_queue_ok:
  "length (items q) < n \<Longrightarrow>
     \<exists>q'. drain_queue X n q t = Some (t + of_nat (length (items q)), q') \<and> items q' = [] \<and> cap q' = cap q"
proof (induction n arbitrary: q t)
  case (Suc n)
  show ?case
  proof (cases "items q")
    case Nil
    then obtain q' where "aq_pop X q = (None, q')" "items q' = []" "cap q' = cap q" by (rule aq.pop_emptyE)
    then show ?thesis using Nil by simp
  next
    case (Cons m ms)
    then obtain q' where q': "aq_pop X q = (Some m, q')" "items q' = ms" "cap q' = cap q" by (rule aq.popE)
    then show ?thesis using Suc.IH [of q' "t + 1"] Suc.prems Cons by (auto simp: algebra_simps)
  qed
qed simp

lemma clear_ok:
  assumes inv: "inv_of cfg i mb"
  shows "\<exists>mb'. Mailbox_clear X mb = Some mb' \<and> inv_of cfg i mb' \<and> lanes_of items mb' = lanes_empty
    \<and> backpressure mb' = False"
proof -
  note I = inv [unfolded mb_inv_def]
  let ?n = "Suc (unat (capacity cfg))"
  let ?c = "length (items (critical_queue mb))" and ?q = "length (items (queue mb))"
  have sum: "unat (mb_size mb) = ?c + ?q" "?c + ?q \<le> unat (capacity cfg)" using I by (auto simp: lanes_defs)
  obtain cq where cq: "drain_queue X ?n (critical_queue mb) 0 = Some (of_nat ?c, cq)"
    "items cq = []" "cap cq = cap (critical_queue mb)"
    using drain_queue_ok [of "critical_queue mb" ?n 0] sum(2) by auto
  obtain q where q: "drain_queue X ?n (queue mb) (of_nat ?c) = Some (of_nat ?c + of_nat ?q, q)"
    "items q = []" "cap q = cap (queue mb)"
    using drain_queue_ok [of "queue mb" ?n "of_nat ?c"] sum(2) by auto
  have tot: "(of_nat ?c + of_nat ?q :: usize) = mb_size mb"
    by (simp flip: of_nat_add) (simp flip: sum(1))
  have ap: "permits (sem_add_permits X (semaphore mb) (mb_size mb)) = permits (semaphore mb) + unat (mb_size mb)
    \<and> idle (sem_add_permits X (semaphore mb) (mb_size mb))"
    by (rule sem.add_permits) (use I in auto)
  show ?thesis
    using I cq q ap sum tot
    by (auto simp: Mailbox_clear_def Let_def mb_inv_def lanes_defs word_zero_less_unat)
qed

lemma step_refines_spec:
  assumes inv: "inv_of cfg i mb" and g: "mb_guard cfg e (lanes_of items mb)"
  shows "fst (mb_step X e mb) = fst (spec_step cfg i e (lanes_of items mb))
    \<and> lanes_of items (snd (mb_step X e mb)) = snd (spec_step cfg i e (lanes_of items mb))
    \<and> inv_of cfg i (snd (mb_step X e mb))"
proof (cases e)
  case (TrySend m)
  then show ?thesis
    using try_send_room [OF inv, of m] try_send_full [OF inv, of m]
    by (cases "lanes_len (lanes_of items mb) < unat (capacity cfg)") (auto simp: spec_send_def)
next
  case (Send m)
  then show ?thesis using send_room [OF inv, of m] g by (auto simp: spec_send_def)
next
  case TryRecv
  then show ?thesis using try_recv_spec [OF inv]
    by (cases "Mailbox_try_recv X mb"; cases "spec_recv (lanes_of items mb)") (auto split: option.splits)
next
  case Recv
  have "inv_of cfg i (mb\<lparr>notify := snd (nt_enable X (notify mb))\<rparr>)" using inv inv_of_notify by simp
  from try_recv_spec [OF this] show ?thesis
    using Recv inv_of_notify
    by (cases "Mailbox_try_recv X (mb\<lparr>notify := snd (nt_enable X (notify mb))\<rparr>)";
        cases "spec_recv (lanes_of items mb)")
       (auto simp: recv_once_def case_prod_beta split: option.splits)
next
  case Clear
  then show ?thesis using clear_ok [OF inv] by auto
qed

sublocale refines: simulation "mb_guard cfg" "mb_step X" "spec_step cfg i" "lanes_of items" "inv_of cfg i"
  for cfg i
  by unfold_locales (rule step_refines_spec)

lemma run_from_new:
  assumes "0 < unat (capacity cfg)" and "unat (capacity cfg) \<le> MAX_PERMITS"
    and "guarded_steps (mb_guard cfg) (spec_step cfg i) es lanes_empty"
  defines "r \<equiv> run_steps (mb_step X) es (Mailbox_new X i cfg)"
  shows "fst r = fst (run_steps (spec_step cfg i) es lanes_empty)"
    and "lanes_of items (snd r) = snd (run_steps (spec_step cfg i) es lanes_empty)"
    and "inv_of cfg i (snd r)"
  using refines.run_refines [OF new_inv(1) [OF assms(1,2)]] new_inv(2) [OF assms(1,2)] assms(3)
  by (simp_all add: r_def)

end


section \<open>Instances of the primitives\<close>

text \<open>
  The stand-ins with which \<open>src/loom_mailbox.rs\<close> replaces the primitives: a
  \<open>VecDeque\<close> (here with its capacity), a counter of permits, and the \<open>WakeupGate\<close>,
  whose waiters are the registrations not yet taken by a notification.
\<close>

definition vec_push :: "nat \<times> 'a list \<Rightarrow> 'a \<Rightarrow> ('a + unit) \<times> (nat \<times> 'a list)" where
  "vec_push q a = (if length (snd q) < fst q then (Inr (), (fst q, snd q @ [a])) else (Inl a, q))"

definition vec_pop :: "nat \<times> 'a list \<Rightarrow> 'a option \<times> (nat \<times> 'a list)" where
  "vec_pop q = (case snd q of [] \<Rightarrow> (None, q) | a # as \<Rightarrow> (Some a, (fst q, as)))"

record wakeup_gate =
  next_ticket :: nat
  registered :: "nat list"

definition standin_ext :: "(nat \<times> message list, nat, wakeup_gate) mb_ext" where
  "standin_ext =
     \<lparr>aq_new = (\<lambda>n. (unat n, [])), aq_push = vec_push, aq_pop = vec_pop,
      sem_new = unat,
      sem_try_acquire = (\<lambda>p. (0 < p, p - 1)),
      sem_acquire = (\<lambda>p. (if 0 < p then Acquired else AcquirePending, p - 1)),
      sem_add_permits = (\<lambda>p n. p + unat n),
      nt_new = \<lparr>next_ticket = 0, registered = []\<rparr>,
      nt_enable = (\<lambda>g. (next_ticket g, g\<lparr>next_ticket := next_ticket g + 1,
                                        registered := next_ticket g # registered g\<rparr>)),
      nt_notify_waiters = (\<lambda>g. g\<lparr>registered := []\<rparr>),
      nt_woken = (\<lambda>g t. t \<notin> set (registered g))\<rparr>"

interpretation standin: mailbox_env standin_ext snd fst "\<lambda>p. p" "\<lambda>_. True" "\<lambda>g. set (registered g)"
  by unfold_locales
     (auto simp: standin_ext_def vec_push_def vec_pop_def word_less_nat_alt split: list.splits)

section \<open>Lanes over whole runs\<close>

text \<open>Accepted and delivered messages of a run, and the part of them that uses one lane.\<close>

fun accepted :: "mb_event list \<Rightarrow> mb_outcome list \<Rightarrow> message list" where
  "accepted (TrySend m # es) (Sent # os) = m # accepted es os"
| "accepted (Send m # es) (Sent # os) = m # accepted es os"
| "accepted (_ # es) (_ # os) = accepted es os"
| "accepted _ _ = []"

fun delivered :: "mb_outcome list \<Rightarrow> message list" where
  "delivered (Got m # os) = m # delivered os"
| "delivered (_ # os) = delivered os"
| "delivered [] = []"

definition in_critical_lane :: "mailbox_config \<Rightarrow> message \<Rightarrow> bool" where
  "in_critical_lane cfg m = (priority_queue cfg \<and> priority m = Critical)"

definition lanes_sorted :: "mailbox_config \<Rightarrow> lanes \<Rightarrow> bool" where
  "lanes_sorted cfg l = (list_all (in_critical_lane cfg) (critical_lane l)
     \<and> list_all (\<lambda>m. \<not> in_critical_lane cfg m) (normal_lane l))"

lemma lanes_add_lane:
  "lanes_add cfg m l = (if in_critical_lane cfg m then l\<lparr>critical_lane := critical_lane l @ [m]\<rparr>
     else l\<lparr>normal_lane := normal_lane l @ [m]\<rparr>)"
  by (simp add: lanes_add_def in_critical_lane_def)

lemma lanes_run_fifo:
  assumes "Clear \<notin> set es" and "lanes_sorted cfg l" and "run_steps (spec_step cfg i) es l = (os, l')"
  shows "critical_lane l @ filter (in_critical_lane cfg) (accepted es os) =
           filter (in_critical_lane cfg) (delivered os) @ critical_lane l'
       \<and> normal_lane l @ filter (\<lambda>m. \<not> in_critical_lane cfg m) (accepted es os) =
           filter (\<lambda>m. \<not> in_critical_lane cfg m) (delivered os) @ normal_lane l'"
  using assms
proof (induction es arbitrary: l os)
  case (Cons e es)
  obtain o1 l1 where st: "spec_step cfg i e l = (o1, l1)" by fastforce
  obtain os' where os: "os = o1 # os'" and run: "run_steps (spec_step cfg i) es l1 = (os', l')"
    using Cons.prems(3) by (auto simp: st Let_def split: prod.splits)
  have "lanes_sorted cfg l1"
    using Cons.prems(1,2) st
    by (cases e) (auto simp: lanes_sorted_def spec_send_def spec_recv_def lanes_add_lane
        split: list.splits if_splits)
  then have ih: "critical_lane l1 @ filter (in_critical_lane cfg) (accepted es os') =
           filter (in_critical_lane cfg) (delivered os') @ critical_lane l'"
    "normal_lane l1 @ filter (\<lambda>m. \<not> in_critical_lane cfg m) (accepted es os') =
           filter (\<lambda>m. \<not> in_critical_lane cfg m) (delivered os') @ normal_lane l'"
    using Cons.IH [OF _ _ run] Cons.prems(1) by auto
  show ?case
    using ih st Cons.prems(1,2) unfolding os
    by (cases e) (auto simp: spec_send_def spec_recv_def lanes_add_lane lanes_sorted_def split: list.splits if_splits)
qed simp


text \<open>The backpressure flag is left alone by every operation but the two that test a threshold.\<close>

lemma enqueue_keeps:
  assumes "enqueue X m mb = (r, mb')"
  shows "config mb' = config mb \<and> (backpressure mb \<longrightarrow> backpressure mb')"
  using arg_cong [OF assms, of snd]
  by (auto simp: enqueue_def Let_def case_prod_beta split: sum.splits if_splits)

lemma release_slot_keeps:
  "config (release_slot X mb) = config mb"
  "unat (backpressure_count (config mb)) < 2 \<Longrightarrow> backpressure mb \<Longrightarrow> backpressure (release_slot X mb)"
  by (simp_all add: release_slot_def check_backpressure_def word_less_nat_alt unat_div)

lemma try_recv_keeps:
  "config (snd (Mailbox_try_recv X mb)) = config mb"
  "unat (backpressure_count (config mb)) < 2 \<Longrightarrow> backpressure mb \<Longrightarrow>
     backpressure (snd (Mailbox_try_recv X mb))"
  by (auto simp: Mailbox_try_recv_def recv_normal_def release_slot_keeps split: prod.split option.split)

lemma mb_step_keeps_latch:
  assumes "unat (backpressure_count (config mb)) < 2" and "backpressure mb" and "e \<noteq> Clear"
  shows "config (snd (mb_step X e mb)) = config mb \<and> backpressure (snd (mb_step X e mb))"
proof (cases e)
  case (TrySend m)
  then show ?thesis
    using assms
    by (auto dest!: enqueue_keeps simp: Mailbox_try_send_def Let_def split: prod.splits sum.splits)
next
  case (Send m)
  then show ?thesis
    using assms
    by (auto dest!: enqueue_keeps simp: Mailbox_send_def Let_def split: prod.splits sum.splits acquire_poll.splits option.splits)
next
  case TryRecv
  then show ?thesis
    using assms try_recv_keeps [where X = X and mb = mb] by (auto split: prod.splits option.splits)
next
  case Recv
  then show ?thesis
    using assms try_recv_keeps [where X = X and mb = "mb\<lparr>notify := snd (nt_enable X (notify mb))\<rparr>"]
    by (auto simp: recv_once_def Let_def split: prod.splits option.splits)
qed (use assms in simp)

interpretation latch: event_machine "\<lambda>e _. e \<noteq> Clear" "\<lambda>e mb. snd (mb_step X e mb)"
    "\<lambda>mb. unat (backpressure_count (config mb)) < 2 \<and> backpressure mb" for X
  by unfold_locales (simp add: mb_step_keeps_latch)


section \<open>Properties\<close>

definition demo_cfg :: mailbox_config where
  "demo_cfg = MailboxConfig_new 2"

definition demo_msg :: "priority \<Rightarrow> u8 \<Rightarrow> message" where
  "demo_msg p b = \<lparr>sender = None, payload = Custom [b], priority = p\<rparr>"

definition demo_events :: "mb_event list" where
  "demo_events = [TrySend (demo_msg Normal 1), Send (demo_msg Critical 2), TrySend (demo_msg Low 3),
     TryRecv, Recv, TryRecv]"

lemma demo_cfg_simps:
  "backpressure_count demo_cfg = 1" "capacity demo_cfg = 2" "priority_queue demo_cfg"
  by code_simp+

lemmas mb_eval =
  Mailbox_new_def Mailbox_try_send_def Mailbox_send_def Mailbox_try_recv_def recv_normal_def
  recv_once_def enqueue_def release_slot_def check_backpressure_def Mailbox_len_def
  is_backpressured_def remaining_capacity_def saturating_sub_def Let_def
  standin_ext_def vec_push_def vec_pop_def demo_msg_def

lemma demo_cfg_capacity: "0 < unat (capacity demo_cfg)" "unat (capacity demo_cfg) \<le> MAX_PERMITS"
  by (simp_all add: demo_cfg_def MailboxConfig_new_def MAX_PERMITS_def)

lemma demo_events_guarded:
  "guarded_steps (mb_guard demo_cfg) (spec_step demo_cfg (ActorId 7)) demo_events lanes_empty"
  by code_simp



text \<open>
  Capacity accounting. After any such sequence of calls the size counter is the
  number of queued messages, never above the capacity, and the free permits, which is
  also what \<open>remaining_capacity\<close> reports, account for exactly the remaining room.
\<close>

lemma mailbox_capacity_accounting:
  assumes "mailbox_env X items cap permits idle waiting"
    and "0 < unat (capacity cfg)" and "unat (capacity cfg) \<le> MAX_PERMITS"
    and "guarded_steps (mb_guard cfg) (spec_step cfg i) es lanes_empty"
    and "mb = snd (run_steps (mb_step X) es (Mailbox_new X i cfg))"
  shows "unat (Mailbox_len mb) = length (items (critical_queue mb)) + length (items (queue mb))
       \<and> unat (Mailbox_len mb) \<le> unat (Mailbox_capacity mb)
       \<and> unat (remaining_capacity mb) = permits (semaphore mb)
       \<and> permits (semaphore mb) + unat (Mailbox_len mb) = unat (Mailbox_capacity mb)"
proof -
  have "mb_inv items cap permits idle cfg i mb"
    unfolding assms(5) by (rule mailbox_env.run_from_new(3) [OF assms(1-4)])
  then show ?thesis
    by (auto simp: mb_inv_def Mailbox_len_def Mailbox_capacity_def remaining_capacity_def word_arith lanes_defs)
qed

lemma mailbox_capacity_accounting_example:
  "\<exists>mb. mb = snd (run_steps (mb_step standin_ext) demo_events (Mailbox_new standin_ext (ActorId 7) demo_cfg))
     \<and> semaphore mb + unat (Mailbox_len mb) = unat (Mailbox_capacity mb)"
  using mailbox_capacity_accounting [OF standin.mailbox_env_axioms demo_cfg_capacity demo_events_guarded refl]
  by blast

text \<open>
  C20: no loss, no duplication, order kept. As long as nobody clears the mailbox, what was
  accepted into a lane is what was delivered from it followed by what it still holds, in
  the same order, for both lanes.
\<close>

theorem mailbox_fifo_per_lane:
  assumes "mailbox_env X items cap permits idle waiting"
    and "0 < unat (capacity cfg)" and "unat (capacity cfg) \<le> MAX_PERMITS"
    and "guarded_steps (mb_guard cfg) (spec_step cfg i) es lanes_empty" and "Clear \<notin> set es"
    and "run_steps (mb_step X) es (Mailbox_new X i cfg) = (os, mb)"
  shows "filter (in_critical_lane cfg) (accepted es os) =
           filter (in_critical_lane cfg) (delivered os) @ items (critical_queue mb)
       \<and> filter (\<lambda>m. \<not> in_critical_lane cfg m) (accepted es os) =
           filter (\<lambda>m. \<not> in_critical_lane cfg m) (delivered os) @ items (queue mb)"
proof -
  have "run_steps (spec_step cfg i) es lanes_empty = (os, lanes_of items mb)"
    using mailbox_env.run_from_new(1,2) [OF assms(1-4)] assms(6) by (simp add: prod_eq_iff)
  from lanes_run_fifo [OF assms(5) _ this] show ?thesis
    by (simp add: lanes_sorted_def lanes_defs)
qed

theorem mailbox_fifo_per_lane_witness:
  "\<exists>os mb. run_steps (mb_step standin_ext) demo_events (Mailbox_new standin_ext (ActorId 7) demo_cfg) = (os, mb)
     \<and> filter (in_critical_lane demo_cfg) (accepted demo_events os) =
         filter (in_critical_lane demo_cfg) (delivered os) @ snd (critical_queue mb)"
proof -
  obtain os mb where r: "run_steps (mb_step standin_ext) demo_events
      (Mailbox_new standin_ext (ActorId 7) demo_cfg) = (os, mb)" by fastforce
  have c: "Clear \<notin> set demo_events" by (simp add: demo_events_def)
  show ?thesis
    using mailbox_fifo_per_lane [OF standin.mailbox_env_axioms demo_cfg_capacity demo_events_guarded c r] r
    by blast
qed

lemma notify_enqueue:
  "enqueue X m mb = (Inr u, mb') \<Longrightarrow> notify mb' = nt_notify_waiters X (notify mb)"
  using arg_cong [of "enqueue X m mb" "(Inr u, mb')" snd]
  by (auto simp: enqueue_def Let_def case_prod_beta split: sum.splits if_splits)

lemma notify_release_slot [simp]: "notify (release_slot X mb) = notify mb"
  by (simp add: release_slot_def check_backpressure_def)

lemma notify_try_recv [simp]: "notify (snd (Mailbox_try_recv X mb)) = notify mb"
  by (simp add: Mailbox_try_recv_def recv_normal_def split: prod.split option.split)

lemma notify_recv_once: "notify (snd (recv_once X mb)) = snd (nt_enable X (notify mb))"
  using notify_try_recv [of X "mb\<lparr>notify := snd (nt_enable X (notify mb))\<rparr>"]
  by (auto simp: recv_once_def case_prod_beta split: option.split)

lemma notify_mb_step_recv:
  "notify (snd (mb_step X TryRecv mb)) = notify mb"
  "notify (snd (mb_step X Recv mb)) = snd (nt_enable X (notify mb))"
  using notify_try_recv [of X mb] notify_recv_once [of X mb]
  by (auto simp: case_prod_beta split: option.split recv_turn.split)

lemma recv_once_ticket: "fst (recv_once X mb) = Parked tk \<Longrightarrow> tk = fst (nt_enable X (notify mb))"
  by (auto simp: recv_once_def case_prod_beta split: option.splits)

text \<open>
  C21: no lost wakeup. A receiver that found the mailbox empty and parked is woken by the
  next accepted send, synchronous or asynchronous, however many other receives take
  place in between.
\<close>

theorem parked_receiver_is_woken:
  assumes "mailbox_env X items cap permits idle waiting"
    and "recv_once X mb = (Parked tk, mb1)"
    and "mb2 = snd (run_steps (mb_step X) rs mb1)" and "set rs \<subseteq> {TryRecv, Recv}"
    and "e = TrySend m \<or> e = Send m" and "mb_step X e mb2 = (Sent, mb3)"
  shows "nt_woken X (notify mb3) tk"
proof -
  have nt: "notifier (nt_enable X) (nt_notify_waiters X) (nt_woken X) waiting"
    using assms(1) by (simp add: mailbox_env_def)
  have "tk \<in> waiting (notify mb1)"
    using notify_recv_once [of X mb] recv_once_ticket [of X mb tk] assms(2)
      notifier.enable_waiting [OF nt, of "notify mb"] by simp
  then have "tk \<in> waiting (notify mb2)"
    using assms(4) unfolding assms(3)
  proof (induction rs arbitrary: mb1)
    case (Cons r rs)
    have "tk \<in> waiting (notify (snd (mb_step X r mb1)))"
      using Cons.prems subsetD [OF notifier.waiting_enable [OF nt, of "notify mb1"]]
      by (auto simp: notify_mb_step_recv simp del: mb_step.simps)
    then show ?case using Cons.IH [of "snd (mb_step X r mb1)"] Cons.prems(2)
      by (simp add: case_prod_beta Let_def)
  qed simp
  moreover have "notify mb3 = nt_notify_waiters X (notify mb2)"
    using assms(5,6)
    by (auto simp: Mailbox_try_send_def Mailbox_send_def Let_def dest!: notify_enqueue
        split: prod.splits sum.splits option.splits acquire_poll.splits if_splits)
  ultimately show ?thesis using notifier.notify_wakes [OF nt] by simp
qed

theorem parked_receiver_is_woken_witness:
  "\<exists>tk mb1 mb3. recv_once standin_ext (Mailbox_new standin_ext (ActorId 7) demo_cfg) = (Parked tk, mb1)
     \<and> mb_step standin_ext (TrySend (demo_msg Normal 1)) mb1 = (Sent, mb3)
     \<and> nt_woken standin_ext (notify mb3) tk"
proof -
  let ?mb = "Mailbox_new standin_ext (ActorId 7) demo_cfg"
  define mb1 where "mb1 = snd (recv_once standin_ext ?mb)"
  define mb3 where "mb3 = snd (mb_step standin_ext (TrySend (demo_msg Normal 1)) mb1)"
  have "fst (recv_once standin_ext ?mb) = Parked 0"
    "fst (mb_step standin_ext (TrySend (demo_msg Normal 1)) (snd (recv_once standin_ext ?mb))) = Sent"
    by (simp_all add: mb_eval demo_cfg_simps)
  then have r: "recv_once standin_ext ?mb = (Parked 0, mb1)"
    "mb_step standin_ext (TrySend (demo_msg Normal 1)) mb1 = (Sent, mb3)"
    unfolding mb1_def mb3_def by (simp_all add: prod_eq_iff)
  show ?thesis
    using parked_receiver_is_woken [OF standin.mailbox_env_axioms r(1), of mb1 "[]"
        "TrySend (demo_msg Normal 1)" "demo_msg Normal 1" mb3] r by auto
qed

text \<open>The threshold lies between zero and one, as a fraction of the capacity should.\<close>

definition is_fraction :: "float \<Rightarrow> bool" where
  "is_fraction x = (case x of Fin t e \<Rightarrow> e \<le> 0 \<and> 0 \<le> t \<and> t \<le> 2 ^ nat (- e) | _ \<Rightarrow> False)"

lemma backpressure_count_le:
  assumes "is_fraction (backpressure_threshold cfg)" and "unat (capacity cfg) < 2 ^ 24"
  shows "backpressure_count cfg \<le> capacity cfg"
proof -
  obtain t e where te: "backpressure_threshold cfg = Fin t e" "e \<le> 0" "0 \<le> t" "t \<le> 2 ^ nat (- e)"
    using assms(1) by (auto simp: is_fraction_def split: float.splits)
  have "e = - int (nat (- e))" using te(2) by simp
  then show ?thesis
    using scaled_le [of "unat (capacity cfg)" f32 t "nat (- e)"] te assms(2)
    by (simp add: backpressure_count_def f32_def word_le_nat_alt)
qed

lemma enqueue_backpressure:
  "enqueue X m mb = (Inr u, mb') \<Longrightarrow> backpressure_count (config mb) \<le> mb_size mb' \<Longrightarrow> backpressure mb'"
  using arg_cong [of "enqueue X m mb" "(Inr u, mb')" snd]
  by (auto simp: enqueue_def Let_def case_prod_beta split: sum.splits if_splits)

text \<open>
  Backpressure in time. For a threshold that is a fraction and a capacity that
  \<open>f32\<close> represents exactly, the threshold count never exceeds the capacity, so the send
  that fills the mailbox leaves it flagged as backpressured.
\<close>

lemma full_mailbox_backpressured:
  assumes "is_fraction (backpressure_threshold (config mb))" and "unat (capacity (config mb)) < 2 ^ 24"
    and "Mailbox_try_send X m mb = (Inr (), mb')" and "remaining_capacity mb' = 0"
  shows "backpressure_count (config mb) \<le> capacity (config mb) \<and> is_backpressured mb'"
proof -
  obtain sem where e: "enqueue X m (mb\<lparr>semaphore := sem\<rparr>) = (Inr (), mb')"
    using assms(3) by (auto simp: Mailbox_try_send_def Let_def split: prod.splits if_splits sum.splits)
  have c: "config mb' = config mb" using enqueue_keeps [OF e] by simp
  have bc: "backpressure_count (config mb) \<le> capacity (config mb)"
    by (rule backpressure_count_le [OF assms(1,2)])
  have "unat (capacity (config mb)) \<le> unat (mb_size mb')"
    using arg_cong [OF assms(4), of unat]
    by (simp add: remaining_capacity_def Mailbox_len_def word_arith c)
  with bc have "backpressure_count (config mb) \<le> mb_size mb'" by (simp add: word_le_nat_alt)
  then show ?thesis using enqueue_backpressure [OF e] bc by (simp add: is_backpressured_def)
qed

lemma full_mailbox_backpressured_example:
  "\<exists>mb'. Mailbox_try_send standin_ext (demo_msg Normal 1)
       (Mailbox_new standin_ext (ActorId 7) (MailboxConfig_new 1)) = (Inr (), mb') \<and> is_backpressured mb'"
proof -
  let ?mb = "Mailbox_new standin_ext (ActorId 7) (MailboxConfig_new 1)"
  let ?mb' = "snd (Mailbox_try_send standin_ext (demo_msg Normal 1) ?mb)"
  have h: "is_fraction (backpressure_threshold (config ?mb))" "unat (capacity (config ?mb)) < 2 ^ 24"
    "fst (Mailbox_try_send standin_ext (demo_msg Normal 1) ?mb) = Inr ()" "remaining_capacity ?mb' = 0"
    by code_simp+
  have r: "Mailbox_try_send standin_ext (demo_msg Normal 1) ?mb = (Inr (), ?mb')"
    using h(3) by (simp add: prod_eq_iff)
  show ?thesis using full_mailbox_backpressured [OF h(1,2) r h(4)] r by blast
qed

text \<open>
  The backpressure flag of a small mailbox latches. When the threshold count is
  below two (a capacity of one or two under the default threshold), the flag, once
  raised, survives every send and receive, also when the mailbox has been emptied; only
  \<open>clear\<close> resets it.
\<close>

lemma small_mailbox_backpressure_latches:
  assumes "unat (backpressure_count (config mb)) < 2" and "is_backpressured mb"
    and "guarded_run (\<lambda>e _. e \<noteq> Clear) (\<lambda>e mb. snd (mb_step X e mb)) es mb"
  shows "is_backpressured (fold (\<lambda>e mb. snd (mb_step X e mb)) es mb)"
  using latch.run_inv [OF _ assms(3)] assms(1,2) by (simp add: is_backpressured_def)

lemma small_mailbox_backpressure_latches_example:
  "\<exists>mb. unat (Mailbox_len mb) = 1 \<and> Mailbox_len (snd (mb_step standin_ext TryRecv mb)) = 0
     \<and> is_backpressured (fold (\<lambda>e mb. snd (mb_step standin_ext e mb)) [TryRecv] mb)"
proof -
  let ?mb = "snd (mb_step standin_ext (TrySend (demo_msg Normal 1))
     (Mailbox_new standin_ext (ActorId 7) demo_cfg))"
  have h: "unat (backpressure_count (config ?mb)) < 2" "is_backpressured ?mb"
    "guarded_run (\<lambda>e _. e \<noteq> Clear) (\<lambda>e mb. snd (mb_step standin_ext e mb)) [TryRecv] ?mb"
    "unat (Mailbox_len ?mb) = 1" "Mailbox_len (snd (mb_step standin_ext TryRecv ?mb)) = 0"
    by (simp_all add: mb_eval demo_cfg_simps)
  show ?thesis using small_mailbox_backpressure_latches [OF h(1,2,3)] h(4,5) by blast
qed

end
