(* ===== verification/Registry.thy ===== *)
theory Registry
  imports Mailbox
begin

text \<open>
  The actor registry of \<open>src/registry.rs\<close>: the table of actors by identity (a
  \<open>DashMap\<close>, outside the repository, hence further fields of the record of external
  operations) and the table of names. A change made through the \<open>Arc\<close> of an entry is a
  write-back of the entry. The correctness statement is that the two tables stay
  inverse to each other and that registration is all or nothing.
\<close>

section \<open>Data\<close>

datatype actor_state = Creating | Running | Suspended | Stopped | Failed

fun to_u8 :: "actor_state \<Rightarrow> u8" where
  "to_u8 Creating = 0"
| "to_u8 Running = 1"
| "to_u8 Suspended = 2"
| "to_u8 Stopped = 3"
| "to_u8 Failed = 4"

definition from_u8 :: "u8 \<Rightarrow> actor_state" where
  "from_u8 v =
     (if v = 0 then Creating
      else if v = 1 then Running
      else if v = 2 then Suspended
      else if v = 3 then Stopped
      else if v = 4 then Failed
      else Creating)"

record ('q, 's, 'n) actor_entry =
  entry_name :: "string option"
  entry_state :: u8
  mailbox :: "('q, 's, 'n) mailbox"
  processed :: u64
  last_active :: int

text \<open>\<open>DashMap\<close>: \<open>insert\<close> and \<open>remove\<close> return what they displaced.\<close>

record ('q, 's, 'n, 'd) rg_ext = "('q, 's, 'n) mb_ext" +
  dm_new :: 'd
  dm_get :: "'d \<Rightarrow> actor_id \<Rightarrow> ('q, 's, 'n) actor_entry option"
  dm_insert :: "'d \<Rightarrow> actor_id \<Rightarrow> ('q, 's, 'n) actor_entry \<Rightarrow> ('q, 's, 'n) actor_entry option \<times> 'd"
  dm_remove :: "'d \<Rightarrow> actor_id \<Rightarrow> ('q, 's, 'n) actor_entry option \<times> 'd"
  dm_entries :: "'d \<Rightarrow> (actor_id \<times> ('q, 's, 'n) actor_entry) list"

record 'd registry =
  by_id :: 'd
  by_name :: "(string, actor_id) hashmap"
  default_config :: mailbox_config

record registry_stats =
  rs_total :: nat
  rs_creating :: nat
  rs_running :: nat
  rs_suspended :: nat
  rs_stopped :: nat
  rs_failed :: nat

section \<open>Operations\<close>

definition ActorRegistry_new :: "('q, 's, 'n, 'd, 'z) rg_ext_scheme \<Rightarrow> 'd registry" where
  "ActorRegistry_new X = \<lparr>by_id = dm_new X, by_name = [], default_config = MailboxConfig_default\<rparr>"

definition with_mailbox_config ::
  "('q, 's, 'n, 'd, 'z) rg_ext_scheme \<Rightarrow> mailbox_config \<Rightarrow> 'd registry" where
  "with_mailbox_config X cfg = \<lparr>by_id = dm_new X, by_name = [], default_config = cfg\<rparr>"

definition id_exists_error :: "actor_id \<Rightarrow> error" where
  "id_exists_error i = Actor [Str ''actor with id '', DbgId i, Str '' already exists'']"

definition name_exists_error :: "string \<Rightarrow> error" where
  "name_exists_error n = Actor [Str ''actor with name '', Str [CHR 0x27], Str n, Str [CHR 0x27],
     Str '' already exists'']"

definition not_found_error :: "actor_id \<Rightarrow> error" where
  "not_found_error i = Actor [Str ''actor '', DbgId i, Str '' not found'']"

definition register_named ::
  "('q, 's, 'n, 'd, 'z) rg_ext_scheme \<Rightarrow> int \<Rightarrow> actor_id \<Rightarrow> string option \<Rightarrow> 'd registry
   \<Rightarrow> ('q, 's, 'n) mailbox result \<times> 'd registry" where
  "register_named X unix_now i name r =
     (let mb = Mailbox_new X i (default_config r);
          entry = \<lparr>entry_name = name, entry_state = to_u8 Creating, mailbox = mb, processed = 0,
                   last_active = unix_now\<rparr>
      in if dm_get X (by_id r) i \<noteq> None then (Err (id_exists_error i), r)
         else case name of
                Some n \<Rightarrow>
                  if hm_contains (by_name r) n then (Err (name_exists_error n), r)
                  else (case dm_insert X (by_id r) i entry of
                          (Some _, d) \<Rightarrow> (Err (id_exists_error i), r\<lparr>by_id := d\<rparr>)
                        | (None, d) \<Rightarrow>
                            (Ok mb, r\<lparr>by_id := d, by_name := hm_insert (by_name r) n i\<rparr>))
              | None \<Rightarrow>
                  (case dm_insert X (by_id r) i entry of
                     (Some _, d) \<Rightarrow> (Err (id_exists_error i), r\<lparr>by_id := d\<rparr>)
                   | (None, d) \<Rightarrow> (Ok mb, r\<lparr>by_id := d\<rparr>)))"

definition register ::
  "('q, 's, 'n, 'd, 'z) rg_ext_scheme \<Rightarrow> int \<Rightarrow> actor_id \<Rightarrow> 'd registry
   \<Rightarrow> ('q, 's, 'n) mailbox result \<times> 'd registry" where
  "register X unix_now i r = register_named X unix_now i None r"

definition unregister ::
  "('q, 's, 'n, 'd, 'z) rg_ext_scheme \<Rightarrow> actor_id \<Rightarrow> 'd registry \<Rightarrow> unit result \<times> 'd registry" where
  "unregister X i r =
     (case dm_remove X (by_id r) i of
        (Some entry, d) \<Rightarrow>
          let r = r\<lparr>by_id := d\<rparr>
          in (Ok (), case entry_name entry of
                       Some n \<Rightarrow> r\<lparr>by_name := hm_remove (by_name r) n\<rparr>
                     | None \<Rightarrow> r)
      | (None, d) \<Rightarrow> (Err (not_found_error i), r\<lparr>by_id := d\<rparr>))"

definition get_mailbox ::
  "('q, 's, 'n, 'd, 'z) rg_ext_scheme \<Rightarrow> 'd registry \<Rightarrow> actor_id \<Rightarrow> ('q, 's, 'n) mailbox option" where
  "get_mailbox X r i = map_option mailbox (dm_get X (by_id r) i)"

definition get_state ::
  "('q, 's, 'n, 'd, 'z) rg_ext_scheme \<Rightarrow> 'd registry \<Rightarrow> actor_id \<Rightarrow> actor_state option" where
  "get_state X r i = map_option (\<lambda>e. from_u8 (entry_state e)) (dm_get X (by_id r) i)"

text \<open>A store through the shared entry of an actor.\<close>

definition write_entry ::
  "('q, 's, 'n, 'd, 'z) rg_ext_scheme \<Rightarrow> actor_id \<Rightarrow> ('q, 's, 'n) actor_entry \<Rightarrow> 'd registry
   \<Rightarrow> 'd registry" where
  "write_entry X i e r = r\<lparr>by_id := snd (dm_insert X (by_id r) i e)\<rparr>"

definition set_state ::
  "('q, 's, 'n, 'd, 'z) rg_ext_scheme \<Rightarrow> actor_id \<Rightarrow> actor_state \<Rightarrow> 'd registry
   \<Rightarrow> unit result \<times> 'd registry" where
  "set_state X i st r =
     (case dm_get X (by_id r) i of
        Some e \<Rightarrow> (Ok (), write_entry X i (e\<lparr>entry_state := to_u8 st\<rparr>) r)
      | None \<Rightarrow> (Err (not_found_error i), r))"

definition lookup :: "'d registry \<Rightarrow> string \<Rightarrow> actor_id option" where
  "lookup r n = hm_get (by_name r) n"

definition lookup_mailbox ::
  "('q, 's, 'n, 'd, 'z) rg_ext_scheme \<Rightarrow> 'd registry \<Rightarrow> string \<Rightarrow> ('q, 's, 'n) mailbox option" where
  "lookup_mailbox X r n = (case lookup r n of None \<Rightarrow> None | Some i \<Rightarrow> get_mailbox X r i)"

definition record_processed ::
  "('q, 's, 'n, 'd, 'z) rg_ext_scheme \<Rightarrow> int \<Rightarrow> actor_id \<Rightarrow> 'd registry \<Rightarrow> 'd registry" where
  "record_processed X unix_now i r =
     (case dm_get X (by_id r) i of
        Some e \<Rightarrow> write_entry X i (e\<lparr>processed := processed e + 1, last_active := unix_now\<rparr>) r
      | None \<Rightarrow> r)"

definition get_processed_count ::
  "('q, 's, 'n, 'd, 'z) rg_ext_scheme \<Rightarrow> 'd registry \<Rightarrow> actor_id \<Rightarrow> u64" where
  "get_processed_count X r i =
     (case dm_get X (by_id r) i of Some e \<Rightarrow> processed e | None \<Rightarrow> 0)"

definition get_last_active ::
  "('q, 's, 'n, 'd, 'z) rg_ext_scheme \<Rightarrow> 'd registry \<Rightarrow> actor_id \<Rightarrow> int option" where
  "get_last_active X r i = map_option last_active (dm_get X (by_id r) i)"

definition registry_len :: "('q, 's, 'n, 'd, 'z) rg_ext_scheme \<Rightarrow> 'd registry \<Rightarrow> nat" where
  "registry_len X r = length (dm_entries X (by_id r))"

definition registry_is_empty :: "('q, 's, 'n, 'd, 'z) rg_ext_scheme \<Rightarrow> 'd registry \<Rightarrow> bool" where
  "registry_is_empty X r = (registry_len X r = 0)"

definition list_actors :: "('q, 's, 'n, 'd, 'z) rg_ext_scheme \<Rightarrow> 'd registry \<Rightarrow> actor_id list" where
  "list_actors X r = map fst (dm_entries X (by_id r))"

definition list_by_state ::
  "('q, 's, 'n, 'd, 'z) rg_ext_scheme \<Rightarrow> 'd registry \<Rightarrow> actor_state \<Rightarrow> actor_id list" where
  "list_by_state X r st =
     (let target = to_u8 st
      in map fst (filter (\<lambda>(i, e). entry_state e = target) (dm_entries X (by_id r))))"

definition count_actor :: "registry_stats \<Rightarrow> ('q, 's, 'n) actor_entry \<Rightarrow> registry_stats" where
  "count_actor st e =
     (case from_u8 (entry_state e) of
        Creating \<Rightarrow> st\<lparr>rs_creating := rs_creating st + 1\<rparr>
      | Running \<Rightarrow> st\<lparr>rs_running := rs_running st + 1\<rparr>
      | Suspended \<Rightarrow> st\<lparr>rs_suspended := rs_suspended st + 1\<rparr>
      | Stopped \<Rightarrow> st\<lparr>rs_stopped := rs_stopped st + 1\<rparr>
      | Failed \<Rightarrow> st\<lparr>rs_failed := rs_failed st + 1\<rparr>)"

definition registry_stats_of :: "('q, 's, 'n, 'd, 'z) rg_ext_scheme \<Rightarrow> 'd registry \<Rightarrow> registry_stats" where
  "registry_stats_of X r =
     (foldl count_actor
        \<lparr>rs_total = 0, rs_creating = 0, rs_running = 0, rs_suspended = 0, rs_stopped = 0,
         rs_failed = 0\<rparr>
        (map snd (dm_entries X (by_id r))))\<lparr>rs_total := registry_len X r\<rparr>"

text \<open>
  A call on the mailbox behind the \<open>Arc\<close> that \<open>get_mailbox\<close> returned: the mailbox of
  the registered actor changes.
\<close>

definition put_mailbox ::
  "('q, 's, 'n, 'd, 'z) rg_ext_scheme \<Rightarrow> actor_id \<Rightarrow> ('q, 's, 'n) mailbox \<Rightarrow> 'd registry
   \<Rightarrow> 'd registry" where
  "put_mailbox X i mb r =
     (case dm_get X (by_id r) i of
        Some e \<Rightarrow> write_entry X i (e\<lparr>mailbox := mb\<rparr>) r
      | None \<Rightarrow> r)"

section \<open>What the concurrent map promises\<close>

locale dash_map =
  keyed_store "dm_get X" "\<lambda>d i e. snd (dm_insert X d i e)" "\<lambda>d i. snd (dm_remove X d i)" invar
  for X :: "('q, 's, 'n, 'd, 'z) rg_ext_scheme" and invar :: "'d \<Rightarrow> bool" +
  assumes get_new: "dm_get X (dm_new X) i = None"
    and invar_new: "invar (dm_new X)"
    and insert_old: "invar d \<Longrightarrow> fst (dm_insert X d i e) = dm_get X d i"
    and remove_old: "invar d \<Longrightarrow> fst (dm_remove X d i) = dm_get X d i"
    and entries_get: "invar d \<Longrightarrow> map_of (dm_entries X d) = dm_get X d"
    and entries_distinct: "invar d \<Longrightarrow> distinct (map fst (dm_entries X d))"

text \<open>The environment of the whole registry: the mailbox primitives and the map.\<close>

locale registry_env =
  mailbox_env X items cap permits idle waiting + dash_map X dinv
  for X :: "('q, 's, 'n, 'd, 'z) rg_ext_scheme"
    and items :: "'q \<Rightarrow> message list" and cap :: "'q \<Rightarrow> nat"
    and permits :: "'s \<Rightarrow> nat" and idle :: "'s \<Rightarrow> bool" and waiting :: "'n \<Rightarrow> nat set"
    and dinv :: "'d \<Rightarrow> bool"

section \<open>The invariant\<close>

text \<open>
  The name table is the inverse of the names in the entries, no two live actors share a
  name, stored states are valid bytes, and every mailbox satisfies its own invariant
  under the registry's configuration.
\<close>

definition inverse_names ::
  "(actor_id \<Rightarrow> ('q, 's, 'n) actor_entry option) \<Rightarrow> (string \<Rightarrow> actor_id option) \<Rightarrow> bool" where
  "inverse_names g h = (\<forall>n i. h n = Some i \<longleftrightarrow> (\<exists>e. g i = Some e \<and> entry_name e = Some n))"

definition names_agree :: "('q, 's, 'n, 'd, 'z) rg_ext_scheme \<Rightarrow> 'd registry \<Rightarrow> bool" where
  "names_agree X r = inverse_names (dm_get X (by_id r)) (lookup r)"

definition entries_ok ::
  "('q, 's, 'n, 'd, 'z) rg_ext_scheme \<Rightarrow> ('q \<Rightarrow> message list) \<Rightarrow> ('q \<Rightarrow> nat) \<Rightarrow> ('s \<Rightarrow> nat) \<Rightarrow> ('s \<Rightarrow> bool)
   \<Rightarrow> 'd registry \<Rightarrow> bool" where
  "entries_ok X items cap permits idle r =
     (\<forall>i e. dm_get X (by_id r) i = Some e \<longrightarrow>
        unat (entry_state e) \<le> 4 \<and> mb_inv items cap permits idle (default_config r) i (mailbox e))"

definition config_ok :: "mailbox_config \<Rightarrow> bool" where
  "config_ok cfg = (0 < unat (capacity cfg) \<and> unat (capacity cfg) \<le> MAX_PERMITS)"

definition rg_inv ::
  "('q, 's, 'n, 'd, 'z) rg_ext_scheme \<Rightarrow> ('q \<Rightarrow> message list) \<Rightarrow> ('q \<Rightarrow> nat) \<Rightarrow> ('s \<Rightarrow> nat) \<Rightarrow> ('s \<Rightarrow> bool)
   \<Rightarrow> ('d \<Rightarrow> bool) \<Rightarrow> 'd registry \<Rightarrow> bool" where
  "rg_inv X items cap permits idle dinv r =
     (dinv (by_id r) \<and> hm_wf (by_name r) \<and> config_ok (default_config r) \<and> names_agree X r
      \<and> entries_ok X items cap permits idle r)"

datatype registry_event =
    Register int actor_id "string option"
  | Unregister actor_id
  | SetState actor_id actor_state
  | RecordProcessed int actor_id
  | MailboxCall actor_id mb_event

fun rg_apply :: "('q, 's, 'n, 'd, 'z) rg_ext_scheme \<Rightarrow> registry_event \<Rightarrow> 'd registry \<Rightarrow> 'd registry" where
  "rg_apply X (Register t i n) r = snd (register_named X t i n r)"
| "rg_apply X (Unregister i) r = snd (unregister X i r)"
| "rg_apply X (SetState i st) r = snd (set_state X i st r)"
| "rg_apply X (RecordProcessed t i) r = record_processed X t i r"
| "rg_apply X (MailboxCall i e) r =
     (case get_mailbox X r i of None \<Rightarrow> r | Some mb \<Rightarrow> put_mailbox X i (snd (mb_step X e mb)) r)"

fun rg_guard ::
  "('q, 's, 'n, 'd, 'z) rg_ext_scheme \<Rightarrow> ('q \<Rightarrow> message list) \<Rightarrow> registry_event \<Rightarrow> 'd registry \<Rightarrow> bool" where
  "rg_guard X items (MailboxCall i e) r =
     (case get_mailbox X r i of None \<Rightarrow> True
      | Some mb \<Rightarrow> mb_guard (default_config r) e (lanes_of items mb))"
| "rg_guard X items _ r = True"

lemma to_u8_le: "unat (to_u8 st) \<le> 4"
  by (cases st) simp_all

lemma from_u8_0 [simp]: "from_u8 0 = Creating"
  by (simp add: from_u8_def)

lemma from_to_u8 [simp]: "from_u8 (to_u8 st) = st"
  by (cases st) (simp_all add: from_u8_def)

lemma inverse_names_insert:
  assumes "inverse_names g h" and "g i = None" and "h m = None" and "entry_name e = Some m"
  shows "inverse_names (g(i \<mapsto> e)) (h(m \<mapsto> i))"
  unfolding inverse_names_def
proof (intro allI)
  fix n j
  show "(h(m \<mapsto> i)) n = Some j \<longleftrightarrow> (\<exists>e'. (g(i \<mapsto> e)) j = Some e' \<and> entry_name e' = Some n)"
    using assms(2-4) assms(1) [unfolded inverse_names_def, rule_format, of n j]
    by (cases "n = m"; cases "j = i") auto
qed

lemma inverse_names_insert_unnamed:
  "inverse_names g h \<Longrightarrow> g i = None \<Longrightarrow> entry_name e = None \<Longrightarrow> inverse_names (g(i \<mapsto> e)) h"
  unfolding inverse_names_def by auto

lemma inverse_names_update:
  "inverse_names g h \<Longrightarrow> g i = Some e \<Longrightarrow> entry_name e' = entry_name e \<Longrightarrow> inverse_names (g(i \<mapsto> e')) h"
  unfolding inverse_names_def by auto

lemma inverse_names_delete:
  assumes "inverse_names g h" and "g i = Some e"
  shows "entry_name e = Some m \<Longrightarrow> inverse_names (g(i := None)) (h(m := None))"
    and "entry_name e = None \<Longrightarrow> inverse_names (g(i := None)) h"
  using assms unfolding inverse_names_def by (auto, metis option.inject)

context registry_env
begin

abbreviation reg_inv :: "'d registry \<Rightarrow> bool" where
  "reg_inv \<equiv> rg_inv X items cap permits idle dinv"

lemma write_entry_simps:
  assumes "dinv (by_id r)"
  shows "dm_get X (by_id (write_entry X i e r)) j = (if j = i then Some e else dm_get X (by_id r) j)"
    and "dinv (by_id (write_entry X i e r))" and "by_name (write_entry X i e r) = by_name r"
    and "default_config (write_entry X i e r) = default_config r"
  using assms get_ins invar_ins by (simp_all add: write_entry_def)

lemma write_entry_inv:
  assumes inv: "reg_inv r" and e: "dm_get X (by_id r) i = Some e" and "entry_name e' = entry_name e"
    and "unat (entry_state e') \<le> 4" and "mb_inv items cap permits idle (default_config r) i (mailbox e')"
  shows "reg_inv (write_entry X i e' r)"
proof -
  have d: "dinv (by_id r)" using inv by (simp add: rg_inv_def)
  note w = write_entry_simps [OF d]
  have "dm_get X (by_id (write_entry X i e' r)) = (dm_get X (by_id r))(i \<mapsto> e')"
    "lookup (write_entry X i e' r) = lookup r"
    by (rule ext, simp add: w lookup_def)+
  then have "names_agree X (write_entry X i e' r)"
    using inv inverse_names_update [where g = "dm_get X (by_id r)", OF _ e assms(3)]
    by (simp add: rg_inv_def names_agree_def)
  then show ?thesis
    using inv assms(4,5) by (auto simp: rg_inv_def entries_ok_def w)
qed

lemma reg_inv_name:
  "reg_inv r \<Longrightarrow> dm_get X (by_id r) i = Some e \<Longrightarrow> entry_name e = Some n \<Longrightarrow> hm_get (by_name r) n = Some i"
  unfolding rg_inv_def names_agree_def inverse_names_def lookup_def by blast

lemma reg_inv_entry:
  assumes "reg_inv r" and "dm_get X (by_id r) i = Some e"
  shows "unat (entry_state e) \<le> 4" and "mb_inv items cap permits idle (default_config r) i (mailbox e)"
  using assms by (simp_all add: rg_inv_def entries_ok_def)

lemma register_inv:
  assumes inv: "reg_inv r"
  shows "reg_inv (snd (register_named X t i n r))"
proof -
  have d: "dinv (by_id r)" using inv by (simp add: rg_inv_def)
  let ?mb = "Mailbox_new X i (default_config r)"
  have mb: "mb_inv items cap permits idle (default_config r) i ?mb"
    using inv by (intro new_inv) (auto simp: rg_inv_def config_ok_def)
  let ?e = "\<lparr>entry_name = n, entry_state = to_u8 Creating, mailbox = ?mb, processed = 0, last_active = t\<rparr>"
  obtain old d' where ins: "dm_insert X (by_id r) i ?e = (old, d')" by fastforce
  have g: "dm_get X d' = (dm_get X (by_id r))(i \<mapsto> ?e)" "dinv d'" "old = dm_get X (by_id r) i"
    using get_ins [OF d, of i ?e] invar_ins [OF d, of i ?e] insert_old [OF d, of i ?e] ins by auto
  have ok: "reg_inv (r\<lparr>by_id := d', by_name := nt\<rparr>)"
    if "hm_wf nt" "inverse_names ((dm_get X (by_id r))(i \<mapsto> ?e)) (hm_get nt)" for nt
    using inv that mb g by (auto simp: rg_inv_def names_agree_def lookup_def [abs_def] entries_ok_def to_u8_le)
  have na: "inverse_names (dm_get X (by_id r)) (hm_get (by_name r))" "hm_wf (by_name r)"
    using inv by (auto simp: rg_inv_def names_agree_def lookup_def [abs_def])
  show ?thesis
  proof (cases "dm_get X (by_id r) i")
    case (Some e)
    then show ?thesis using inv by (simp add: register_named_def)
  next
    case None
    show ?thesis
    proof (cases n)
      case n: None
      then show ?thesis
        using ok [of "by_name r"] None na inverse_names_insert_unnamed [OF na(1) None, of ?e] ins g(3)
        by (simp add: register_named_def Let_def)
    next
      case (Some m)
      have "hm_get (hm_insert (by_name r) m i) = (hm_get (by_name r))(m \<mapsto> i)"
        by (rule ext) (simp add: hm_simps)
      then show ?thesis
        using ok [of "hm_insert (by_name r) m i"] None na inverse_names_insert [OF na(1) None, of m ?e] ins g(3)
          Some inv
        by (simp add: register_named_def Let_def hm_contains_def hm_intros)
    qed
  qed
qed

lemma unregister_inv:
  assumes inv: "reg_inv r"
  shows "reg_inv (snd (unregister X i r))"
proof -
  have d: "dinv (by_id r)" using inv by (simp add: rg_inv_def)
  note del = get_del [OF d, of i] invar_del [OF d, of i] remove_old [OF d, of i]
  obtain old d' where rm: "dm_remove X (by_id r) i = (old, d')" by fastforce
  have g: "dm_get X d' = (dm_get X (by_id r))(i := None)" "dinv d'" "old = dm_get X (by_id r) i"
    using del rm by auto
  have ok: "reg_inv (r\<lparr>by_id := d', by_name := nt\<rparr>)"
    if "hm_wf nt" "inverse_names ((dm_get X (by_id r))(i := None)) (hm_get nt)" for nt
    using inv that g by (auto simp: rg_inv_def names_agree_def lookup_def [abs_def] entries_ok_def)
  have na: "inverse_names (dm_get X (by_id r)) (hm_get (by_name r))" "hm_wf (by_name r)"
    using inv by (auto simp: rg_inv_def names_agree_def lookup_def [abs_def])
  show ?thesis
  proof (cases "dm_get X (by_id r) i")
    case None
    then have "(dm_get X (by_id r))(i := None) = dm_get X (by_id r)" by auto
    then show ?thesis using ok [of "by_name r"] na rm g(3) None by (simp add: unregister_def)
  next
    case (Some e)
    show ?thesis
    proof (cases "entry_name e")
      case n: None
      then show ?thesis
        using ok [of "by_name r"] inverse_names_delete(2) [OF na(1) Some n] na rm g(3) Some
        by (simp add: unregister_def Let_def)
    next
      case n: (Some m)
      have "hm_get (hm_remove (by_name r) m) = (hm_get (by_name r))(m := None)"
        by (rule ext) (simp add: hm_simps)
      then show ?thesis
        using ok [of "hm_remove (by_name r) m"] inverse_names_delete(1) [OF na(1) Some n] na rm g(3) Some n
        by (simp add: unregister_def Let_def hm_intros)
    qed
  qed
qed

lemma registry_step_inv:
  assumes inv: "reg_inv r" and g: "rg_guard X items e r"
  shows "reg_inv (rg_apply X e r)"
proof (cases e)
  case (SetState i st)
  then show ?thesis
    using inv reg_inv_entry [OF inv, of i]
    by (auto simp: set_state_def to_u8_le intro!: write_entry_inv [OF inv] split: option.splits)
next
  case (RecordProcessed t i)
  then show ?thesis
    using inv reg_inv_entry [OF inv, of i]
    by (auto simp: record_processed_def intro!: write_entry_inv [OF inv] split: option.splits)
next
  case (MailboxCall i e')
  show ?thesis
  proof (cases "dm_get X (by_id r) i")
    case None
    then show ?thesis using inv MailboxCall by (simp add: get_mailbox_def)
  next
    case (Some en)
    have "mb_inv items cap permits idle (default_config r) i (snd (mb_step X e' (mailbox en)))"
      using step_refines_spec [OF reg_inv_entry(2) [OF inv Some], of e'] g Some MailboxCall
      by (simp add: get_mailbox_def)
    then show ?thesis
      using reg_inv_entry [OF inv Some] Some MailboxCall
      by (auto simp: get_mailbox_def put_mailbox_def intro!: write_entry_inv [OF inv Some])
  qed
qed (use inv register_inv unregister_inv in auto)

sublocale reg: event_machine "rg_guard X items" "rg_apply X" reg_inv
  by unfold_locales (rule registry_step_inv)

lemma new_registry_inv: "config_ok cfg \<Longrightarrow> reg_inv (with_mailbox_config X cfg)"
  by (simp add: rg_inv_def with_mailbox_config_def invar_new names_agree_def inverse_names_def entries_ok_def lookup_def get_new)

lemma registry_run_inv:
  "config_ok cfg \<Longrightarrow> guarded_run (rg_guard X items) (rg_apply X) es (with_mailbox_config X cfg)
   \<Longrightarrow> reg_inv (fold (rg_apply X) es (with_mailbox_config X cfg))"
  by (rule reg.run_inv [OF new_registry_inv])

end

section \<open>An instance of the map\<close>

text \<open>The sequential content of a \<open>DashMap\<close>: a hash map of entries.\<close>

type_synonym standin_entry = "(nat \<times> message list, nat, wakeup_gate) actor_entry"

definition standin_rg ::
  "(nat \<times> message list, nat, wakeup_gate, (actor_id, standin_entry) hashmap) rg_ext" where
  "standin_rg = mb_ext.extend standin_ext
     \<lparr>dm_new = [],
      dm_get = hm_get,
      dm_insert = (\<lambda>d i e. (hm_get d i, hm_insert d i e)),
      dm_remove = (\<lambda>d i. (hm_get d i, hm_remove d i)),
      dm_entries = (\<lambda>d. d)\<rparr>"

lemma standin_rg_simps [simp]:
  "aq_new standin_rg = aq_new standin_ext" "aq_push standin_rg = aq_push standin_ext"
  "aq_pop standin_rg = aq_pop standin_ext" "sem_new standin_rg = sem_new standin_ext"
  "sem_try_acquire standin_rg = sem_try_acquire standin_ext"
  "sem_acquire standin_rg = sem_acquire standin_ext"
  "sem_add_permits standin_rg = sem_add_permits standin_ext"
  "nt_new standin_rg = nt_new standin_ext" "nt_enable standin_rg = nt_enable standin_ext"
  "nt_notify_waiters standin_rg = nt_notify_waiters standin_ext"
  "nt_woken standin_rg = nt_woken standin_ext"
  "dm_new standin_rg = []" "dm_get standin_rg = hm_get"
  "dm_insert standin_rg = (\<lambda>d i e. (hm_get d i, hm_insert d i e))"
  "dm_remove standin_rg = (\<lambda>d i. (hm_get d i, hm_remove d i))" "dm_entries standin_rg = (\<lambda>d. d)"
  by (simp_all add: standin_rg_def standin_ext_def mb_ext.defs)

interpretation standin_rg: registry_env standin_rg snd fst "\<lambda>p. p" "\<lambda>_. True"
  "\<lambda>g. set (registered g)" hm_wf
proof -
  have "mailbox_env standin_rg snd fst (\<lambda>p. p) (\<lambda>_. True) (\<lambda>g. set (registered g))"
    using standin.mailbox_env_axioms by (simp add: mailbox_env_def)
  moreover have "dash_map standin_rg hm_wf"
    by unfold_locales (simp_all add: hm_simps hm_intros, auto simp: hm_get_def hm_wf_def)
  ultimately show "registry_env standin_rg snd fst (\<lambda>p. p) (\<lambda>_. True) (\<lambda>g. set (registered g)) hm_wf"
    by (simp add: registry_env_def)
qed

section \<open>Properties\<close>

definition demo_registry_events :: "registry_event list" where
  "demo_registry_events =
     [Register 5 (ActorId 1) (Some ''a''), Register 6 (ActorId 2) None, Register 7 (ActorId 3) (Some ''a''),
      SetState (ActorId 1) Running, MailboxCall (ActorId 1) (TrySend (demo_msg Normal 1)),
      RecordProcessed 8 (ActorId 1), Unregister (ActorId 2)]"

lemma demo_cfg_ok: "config_ok demo_cfg"
  using demo_cfg_capacity by (simp add: config_ok_def)

text \<open>
  C22: invariant of the registry. Whatever is registered, unregistered, updated or sent,
  the table of names stays the exact inverse of the names in the entries, so no two live
  actors share a name and no name dangles, every stored state byte is valid, and every
  mailbox keeps its capacity accounting.
\<close>

theorem registry_run_consistent:
  assumes "registry_env X items cap permits idle waiting dinv" and "config_ok cfg"
    and "guarded_run (rg_guard X items) (rg_apply X) es (with_mailbox_config X cfg)"
  shows "rg_inv X items cap permits idle dinv (fold (rg_apply X) es (with_mailbox_config X cfg))"
  by (rule registry_env.registry_run_inv [OF assms])

theorem registry_run_consistent_witness:
  "rg_inv standin_rg snd fst (\<lambda>p. p) (\<lambda>_. True) hm_wf
     (fold (rg_apply standin_rg) demo_registry_events (with_mailbox_config standin_rg demo_cfg))"
  by (rule registry_run_consistent [OF standin_rg.registry_env_axioms demo_cfg_ok])
     (simp add: demo_registry_events_def split: option.split)

text \<open>
  C23: registration is atomic. Of a consistent registry it either fails, because the
  identity or the name is taken, and changes nothing, or succeeds and changes exactly
  the looked-up identity and name: the actor exists in state \<open>Creating\<close> with an empty
  mailbox of the configured capacity.
\<close>

theorem register_named_atomic:
  assumes "registry_env X items cap permits idle waiting dinv"
    and "rg_inv X items cap permits idle dinv r"
    and "register_named X t i name r = (res, r')"
  shows "if get_state X r i \<noteq> None then res = Err (id_exists_error i) \<and> r' = r
         else case name of
           None \<Rightarrow> res = Ok (Mailbox_new X i (default_config r)) \<and> get_state X r' i = Some Creating
             \<and> get_mailbox X r' i = Some (Mailbox_new X i (default_config r)) \<and> lookup r' = lookup r
             \<and> (\<forall>j. j \<noteq> i \<longrightarrow> dm_get X (by_id r') j = dm_get X (by_id r) j)
         | Some n \<Rightarrow>
             if lookup r n \<noteq> None then res = Err (name_exists_error n) \<and> r' = r
             else res = Ok (Mailbox_new X i (default_config r)) \<and> get_state X r' i = Some Creating
               \<and> get_mailbox X r' i = Some (Mailbox_new X i (default_config r))
               \<and> lookup r' = (lookup r)(n \<mapsto> i)
               \<and> (\<forall>j. j \<noteq> i \<longrightarrow> dm_get X (by_id r') j = dm_get X (by_id r) j)"
proof -
  have dm: "dash_map X dinv" using assms(1) by (simp add: registry_env_def)
  have d: "dinv (by_id r)" using assms(2) by (simp add: rg_inv_def)
  note ks = keyed_store.get_ins [OF dash_map.axioms(1) [OF dm] d] dash_map.insert_old [OF dm d]
  have st: "get_state X r i = None \<longleftrightarrow> dm_get X (by_id r) i = None" by (simp add: get_state_def)
  let ?e = "\<lparr>entry_name = name, entry_state = to_u8 Creating, mailbox = Mailbox_new X i (default_config r),
      processed = 0, last_active = t\<rparr>"
  obtain old d' where ins: "dm_insert X (by_id r) i ?e = (old, d')" by fastforce
  have g: "dm_get X d' j = (if j = i then Some ?e else dm_get X (by_id r) j)" "old = dm_get X (by_id r) i" for j
    using ks(1) [of i ?e j] ks(2) [of i ?e] ins by simp_all
  have up: "lookup (r\<lparr>by_id := d', by_name := hm_insert (by_name r) n i\<rparr>) = (lookup r)(n \<mapsto> i)" for n
    by (rule ext) (simp add: lookup_def hm_simps)
  show ?thesis
    using assms(3) ins g up
    by (cases "dm_get X (by_id r) i"; cases name)
       (auto simp: register_named_def Let_def st get_mailbox_def hm_contains_def lookup_def get_state_def
         split: if_splits)
qed

definition demo_registry :: "(actor_id, standin_entry) hashmap registry" where
  "demo_registry = snd (register_named standin_rg 5 (ActorId 1) (Some ''a'') (with_mailbox_config standin_rg demo_cfg))"

lemma demo_registry_inv: "rg_inv standin_rg snd fst (\<lambda>p. p) (\<lambda>_. True) hm_wf demo_registry"
  unfolding demo_registry_def
  by (rule standin_rg.register_inv [OF standin_rg.new_registry_inv [OF demo_cfg_ok]])

theorem register_named_atomic_witness:
  "register_named standin_rg 6 (ActorId 2) (Some ''a'') demo_registry =
     (Err (name_exists_error ''a''), demo_registry)"
proof -
  obtain res r' where r: "register_named standin_rg 6 (ActorId 2) (Some ''a'') demo_registry = (res, r')"
    by fastforce
  have "get_state standin_rg demo_registry (ActorId 2) = None" "lookup demo_registry ''a'' = Some (ActorId 1)"
    by (simp_all add: demo_registry_def register_named_def with_mailbox_config_def get_state_def lookup_def
        hm_contains_def Let_def hm_simps)
  then show ?thesis
    using register_named_atomic [OF standin_rg.registry_env_axioms demo_registry_inv r] r by simp
qed

text \<open>
  Unregistering undoes registering. After a successful registration followed by the
  removal of the same actor every lookup by identity and by name answers as before, and
  removing an unknown actor is an error that changes nothing that can be looked up.
\<close>

lemma unregister_undoes_register:
  assumes "registry_env X items cap permits idle waiting dinv"
    and "rg_inv X items cap permits idle dinv r"
    and "register_named X t i name r = (Ok mb, r1)" and "unregister X i r1 = (res, r2)"
  shows "res = Ok () \<and> dm_get X (by_id r2) = dm_get X (by_id r) \<and> lookup r2 = lookup r
       \<and> fst (unregister X i r2) = Err (not_found_error i)"
proof -
  have dm: "dash_map X dinv" using assms(1) by (simp add: registry_env_def)
  note ks = dash_map.axioms(1) [OF dm]
  have inv1: "rg_inv X items cap permits idle dinv r1"
    using registry_env.register_inv [OF assms(1,2), of t i name] assms(3) by simp
  have inv2: "rg_inv X items cap permits idle dinv r2"
    using registry_env.unregister_inv [OF assms(1) inv1, of i] assms(4) by simp
  have d: "dinv (by_id r)" "dinv (by_id r1)" "dinv (by_id r2)"
    using assms(2) inv1 inv2 by (simp_all add: rg_inv_def)
  let ?e = "\<lparr>entry_name = name, entry_state = to_u8 Creating, mailbox = Mailbox_new X i (default_config r),
      processed = 0, last_active = t\<rparr>"
  have new: "dm_get X (by_id r) i = None" and n: "\<And>n. name = Some n \<Longrightarrow> hm_get (by_name r) n = None"
    and r1: "by_id r1 = snd (dm_insert X (by_id r) i ?e)"
      "by_name r1 = (case name of None \<Rightarrow> by_name r | Some n \<Rightarrow> hm_insert (by_name r) n i)"
    using assms(3)
    by (auto simp: register_named_def Let_def hm_contains_def split: if_splits option.splits prod.splits)
  have g1: "dm_get X (by_id r1) j = (if j = i then Some ?e else dm_get X (by_id r) j)" for j
    unfolding r1 by (rule keyed_store.get_ins [OF ks d(1)])
  have rm: "fst (dm_remove X (by_id r1) i) = Some ?e"
    using dash_map.remove_old [OF dm d(2), of i] g1 [of i] by simp
  have r2: "res = Ok ()" "by_id r2 = snd (dm_remove X (by_id r1) i)"
    "by_name r2 = (case name of None \<Rightarrow> by_name r1 | Some n \<Rightarrow> hm_remove (by_name r1) n)"
    using assms(4) rm
    by (auto simp: unregister_def Let_def split: option.splits prod.splits)
  have g2: "dm_get X (by_id r2) = dm_get X (by_id r)"
    unfolding r2 using keyed_store.get_del [OF ks d(2), of i] g1 new by (auto simp: fun_eq_iff)
  have "lookup r2 = lookup r"
    using n by (auto simp: fun_eq_iff lookup_def r2 r1 hm_simps split: option.split)
  moreover have "fst (dm_remove X (by_id r2) i) = None"
    using dash_map.remove_old [OF dm d(3), of i] g2 new by simp
  then have "fst (unregister X i r2) = Err (not_found_error i)"
    by (auto simp: unregister_def Let_def split: prod.splits option.splits)
  ultimately show ?thesis using r2(1) g2 by blast
qed

lemma unregister_undoes_register_example:
  "\<exists>mb r1 r2. register_named standin_rg 6 (ActorId 2) (Some ''b'') demo_registry = (Ok mb, r1)
     \<and> unregister standin_rg (ActorId 2) r1 = (Ok (), r2) \<and> lookup r2 = lookup demo_registry"
proof -
  have "is_ok (fst (register_named standin_rg 6 (ActorId 2) (Some ''b'') demo_registry))"
    by (simp add: demo_registry_def register_named_def with_mailbox_config_def
        hm_contains_def Let_def hm_simps)
  then obtain mb r1 where r1: "register_named standin_rg 6 (ActorId 2) (Some ''b'') demo_registry = (Ok mb, r1)"
    by (cases "register_named standin_rg 6 (ActorId 2) (Some ''b'') demo_registry")
       (auto simp: is_ok_def split: sum.splits)
  obtain res r2 where r2: "unregister standin_rg (ActorId 2) r1 = (res, r2)" by fastforce
  show ?thesis
    using unregister_undoes_register [OF standin_rg.registry_env_axioms demo_registry_inv r1 r2] r1 r2 by blast
qed

text \<open>
  The state byte. Every state survives its encoding; a byte that encodes no state is
  read as \<open>Creating\<close>, and so re-encodes as zero.
\<close>

lemma state_byte_roundtrip:
  "from_u8 (to_u8 st) = st \<and> to_u8 (from_u8 v) = (if v \<le> 4 then v else 0)"
proof -
  have "v = 0 \<or> v = 1 \<or> v = 2 \<or> v = 3 \<or> v = 4" if "v \<le> 4"
  proof -
    have "unat v \<le> 4" using that by (simp add: word_le_nat_alt)
    then have "unat v = 0 \<or> unat v = 1 \<or> unat v = 2 \<or> unat v = 3 \<or> unat v = 4" by linarith
    then show ?thesis by (simp add: word_unat_eq_iff)
  qed
  then have "to_u8 (from_u8 v) = (if v \<le> 4 then v else 0)" by (auto simp: from_u8_def)
  then show ?thesis by simp
qed

lemma foldl_count_actor:
  fixes st :: registry_stats
  defines "cnt s es \<equiv> length (filter (\<lambda>e. from_u8 (entry_state e) = s) es)"
  shows "rs_creating (foldl count_actor st es) = rs_creating st + cnt Creating es"
    "rs_running (foldl count_actor st es) = rs_running st + cnt Running es"
    "rs_suspended (foldl count_actor st es) = rs_suspended st + cnt Suspended es"
    "rs_stopped (foldl count_actor st es) = rs_stopped st + cnt Stopped es"
    "rs_failed (foldl count_actor st es) = rs_failed st + cnt Failed es"
  unfolding cnt_def by (induction es arbitrary: st) (auto simp: count_actor_def split: actor_state.split)

lemma count_states_sum:
  "length (filter (\<lambda>e. from_u8 (entry_state e) = Creating) es)
   + length (filter (\<lambda>e. from_u8 (entry_state e) = Running) es)
   + length (filter (\<lambda>e. from_u8 (entry_state e) = Suspended) es)
   + length (filter (\<lambda>e. from_u8 (entry_state e) = Stopped) es)
   + length (filter (\<lambda>e. from_u8 (entry_state e) = Failed) es) = length es"
proof (induction es)
  case (Cons e es)
  then show ?case by (cases "from_u8 (entry_state e)") auto
qed simp

text \<open>
  The statistics of the registry account for every actor once: the five columns add
  up to the total, which is the number of listed actors.
\<close>

lemma registry_stats_partition:
  "let st = registry_stats_of X r
   in rs_creating st + rs_running st + rs_suspended st + rs_stopped st + rs_failed st = rs_total st
      \<and> rs_total st = length (list_actors X r)
      \<and> rs_running st = length (filter (\<lambda>x. from_u8 (entry_state (snd x)) = Running) (dm_entries X (by_id r)))"
  using count_states_sum [of "map snd (dm_entries X (by_id r))"]
  by (simp add: registry_stats_of_def foldl_count_actor registry_len_def list_actors_def Let_def
      filter_map comp_def case_prod_beta)

end
