(* ===== verification/Work_Queue.thy ===== *)
theory Work_Queue
  imports Registry
begin

text \<open>
  The queues between senders and workers (\<open>src/queue.rs\<close>): the global injector, the
  four-level priority queue, and work stealing over the workers' local deques. The
  lock-free containers of \<open>crossbeam_deque\<close> are external operations; the retry loops
  around them are partial functions whose value \<open>None\<close> is a loop that never ends.
\<close>

section \<open>Tasks and the external containers\<close>

record task =
  task_actor :: actor_id
  task_message :: message
  task_priority :: priority
  additional_messages :: "message list"

datatype steal = StealSuccess task | StealEmpty | StealRetry

record ('q, 's, 'n, 'd, 'i, 'w) sch_ext = "('q, 's, 'n, 'd) rg_ext" +
  ij_new :: 'i
  ij_push :: "'i \<Rightarrow> task \<Rightarrow> 'i"
  ij_steal :: "'i \<Rightarrow> steal \<times> 'i"
  wk_new_fifo :: 'w
  wk_push :: "'w \<Rightarrow> task \<Rightarrow> 'w"
  wk_pop :: "'w \<Rightarrow> task option \<times> 'w"
  st_steal :: "'w \<Rightarrow> steal \<times> 'w"
  st_steal_batch_and_pop :: "'w \<Rightarrow> 'w \<Rightarrow> steal \<times> 'w \<times> 'w"

section \<open>The global queue\<close>

text \<open>The retry loop around one injector.\<close>

partial_function (option) try_steal ::
  "('q, 's, 'n, 'd, 'i, 'w, 'z) sch_ext_scheme \<Rightarrow> 'i \<Rightarrow> (task option \<times> 'i) option" where
  "try_steal X q =
     (case ij_steal X q of
        (st, q) \<Rightarrow>
          (case st of
             StealSuccess t \<Rightarrow> Some (Some t, q)
           | StealEmpty \<Rightarrow> Some (None, q)
           | StealRetry \<Rightarrow> try_steal X q))"

record 'i work_queue =
  injector :: 'i
  worker_count :: usize

definition WorkQueue_new :: "('q, 's, 'n, 'd, 'i, 'w, 'z) sch_ext_scheme \<Rightarrow> 'i work_queue" where
  "WorkQueue_new X = \<lparr>injector = ij_new X, worker_count = 0\<rparr>"

definition WorkQueue_push ::
  "('q, 's, 'n, 'd, 'i, 'w, 'z) sch_ext_scheme \<Rightarrow> task \<Rightarrow> 'i work_queue \<Rightarrow> 'i work_queue" where
  "WorkQueue_push X t wq = wq\<lparr>injector := ij_push X (injector wq) t\<rparr>"

definition push_batch ::
  "('q, 's, 'n, 'd, 'i, 'w, 'z) sch_ext_scheme \<Rightarrow> task list \<Rightarrow> 'i work_queue \<Rightarrow> 'i work_queue" where
  "push_batch X ts wq = fold (\<lambda>t wq. wq\<lparr>injector := ij_push X (injector wq) t\<rparr>) ts wq"

definition steal_global ::
  "('q, 's, 'n, 'd, 'i, 'w, 'z) sch_ext_scheme \<Rightarrow> 'i work_queue \<Rightarrow> (task option \<times> 'i work_queue) option" where
  "steal_global X wq = map_option (\<lambda>(t, q). (t, wq\<lparr>injector := q\<rparr>)) (try_steal X (injector wq))"

definition register_worker :: "'i work_queue \<Rightarrow> 'i work_queue" where
  "register_worker wq = wq\<lparr>worker_count := worker_count wq + 1\<rparr>"

definition unregister_worker :: "'i work_queue \<Rightarrow> 'i work_queue" where
  "unregister_worker wq = wq\<lparr>worker_count := worker_count wq - 1\<rparr>"

section \<open>The priority queue\<close>

record 'i pri_queue =
  critical :: 'i
  high :: 'i
  normal :: 'i
  low :: 'i

definition PriorityQueue_new :: "('q, 's, 'n, 'd, 'i, 'w, 'z) sch_ext_scheme \<Rightarrow> 'i pri_queue" where
  "PriorityQueue_new X = \<lparr>critical = ij_new X, high = ij_new X, normal = ij_new X, low = ij_new X\<rparr>"

definition PriorityQueue_push ::
  "('q, 's, 'n, 'd, 'i, 'w, 'z) sch_ext_scheme \<Rightarrow> task \<Rightarrow> 'i pri_queue \<Rightarrow> 'i pri_queue" where
  "PriorityQueue_push X t pq =
     (case task_priority t of
        Critical \<Rightarrow> pq\<lparr>critical := ij_push X (critical pq) t\<rparr>
      | High \<Rightarrow> pq\<lparr>high := ij_push X (high pq) t\<rparr>
      | Normal \<Rightarrow> pq\<lparr>normal := ij_push X (normal pq) t\<rparr>
      | Low \<Rightarrow> pq\<lparr>low := ij_push X (low pq) t\<rparr>)"

text \<open>\<open>or_else\<close> tries the next level only when the one before had nothing.\<close>

definition PriorityQueue_pop ::
  "('q, 's, 'n, 'd, 'i, 'w, 'z) sch_ext_scheme \<Rightarrow> 'i pri_queue \<Rightarrow> (task option \<times> 'i pri_queue) option" where
  "PriorityQueue_pop X pq =
     do {
       (t, q) \<leftarrow> try_steal X (critical pq);
       let pq = pq\<lparr>critical := q\<rparr>;
       if t \<noteq> None then Some (t, pq) else do {
         (t, q) \<leftarrow> try_steal X (high pq);
         let pq = pq\<lparr>high := q\<rparr>;
         if t \<noteq> None then Some (t, pq) else do {
           (t, q) \<leftarrow> try_steal X (normal pq);
           let pq = pq\<lparr>normal := q\<rparr>;
           if t \<noteq> None then Some (t, pq) else do {
             (t, q) \<leftarrow> try_steal X (low pq);
             let pq = pq\<lparr>low := q\<rparr>;
             Some (t, pq)
           }
         }
       }
     }"

section \<open>Work stealing\<close>

text \<open>
  The deques of the workers live in a store by worker number: a stealer is the number of
  the worker whose deque it shares.
\<close>

type_synonym 'w deques = "nat \<Rightarrow> 'w"

definition create_local_queue ::
  "('q, 's, 'n, 'd, 'i, 'w, 'z) sch_ext_scheme \<Rightarrow> nat \<Rightarrow> 'w deques \<Rightarrow> 'w deques" where
  "create_local_queue X w ds = ds(w := wk_new_fifo X)"

record work_stealer =
  stealers :: "nat list"
  steal_index :: usize

definition WorkStealer_new :: "nat list \<Rightarrow> work_stealer" where
  "WorkStealer_new ss = \<lparr>stealers = ss, steal_index = 0\<rparr>"

partial_function (option) steal_from ::
  "('q, 's, 'n, 'd, 'i, 'w, 'z) sch_ext_scheme \<Rightarrow> 'w \<Rightarrow> (task option \<times> 'w) option" where
  "steal_from X q =
     (case st_steal X q of
        (st, q) \<Rightarrow>
          (case st of
             StealSuccess t \<Rightarrow> Some (Some t, q)
           | StealEmpty \<Rightarrow> Some (None, q)
           | StealRetry \<Rightarrow> steal_from X q))"

text \<open>The scan over the victims, from a start index on, wrapping around.\<close>

fun steal_scan ::
  "('q, 's, 'n, 'd, 'i, 'w, 'z) sch_ext_scheme \<Rightarrow> nat list \<Rightarrow> 'w deques \<Rightarrow> (task option \<times> 'w deques) option" where
  "steal_scan X [] ds = Some (None, ds)"
| "steal_scan X (v # vs) ds =
     (case steal_from X (ds v) of
        None \<Rightarrow> None
      | Some (Some t, q) \<Rightarrow> Some (Some t, ds(v := q))
      | Some (None, q) \<Rightarrow> steal_scan X vs (ds(v := q)))"

text \<open>\<open>(start + i) % len\<close> is computed at the width of \<open>usize\<close>.\<close>

definition scan_order :: "usize \<Rightarrow> nat list \<Rightarrow> nat list" where
  "scan_order start ss =
     map (\<lambda>i. ss ! (unat (start + of_nat i) mod length ss)) [0..<length ss]"

definition WorkStealer_steal ::
  "('q, 's, 'n, 'd, 'i, 'w, 'z) sch_ext_scheme \<Rightarrow> work_stealer \<Rightarrow> 'w deques
   \<Rightarrow> (task option \<times> work_stealer \<times> 'w deques) option" where
  "WorkStealer_steal X ws ds =
     (if stealers ws = [] then Some (None, ws, ds)
      else map_option (\<lambda>(t, ds). (t, ws\<lparr>steal_index := steal_index ws + 1\<rparr>, ds))
             (steal_scan X (scan_order (steal_index ws) (stealers ws)) ds))"

text \<open>
  The inner loop of \<open>steal_batch\<close>: it goes on after a success as well as after a retry,
  until the victim is empty; \<open>max\<close> is only looked at between victims.
\<close>

partial_function (option) drain_victim ::
  "('q, 's, 'n, 'd, 'i, 'w, 'z) sch_ext_scheme \<Rightarrow> 'w \<Rightarrow> 'w \<Rightarrow> nat \<Rightarrow> (nat \<times> 'w \<times> 'w) option" where
  "drain_victim X victim dest stolen =
     (case st_steal_batch_and_pop X victim dest of
        (st, victim, dest) \<Rightarrow>
          (case st of
             StealSuccess t \<Rightarrow> drain_victim X victim (wk_push X dest t) (stolen + 1)
           | StealEmpty \<Rightarrow> Some (stolen, victim, dest)
           | StealRetry \<Rightarrow> drain_victim X victim dest stolen))"

fun steal_batch_scan ::
  "('q, 's, 'n, 'd, 'i, 'w, 'z) sch_ext_scheme \<Rightarrow> nat list \<Rightarrow> nat \<Rightarrow> nat \<Rightarrow> nat \<Rightarrow> 'w deques
   \<Rightarrow> (nat \<times> 'w deques) option" where
  "steal_batch_scan X [] dest max_tasks stolen ds = Some (stolen, ds)"
| "steal_batch_scan X (v # vs) dest max_tasks stolen ds =
     (if max_tasks \<le> stolen then Some (stolen, ds)
      else case drain_victim X (ds v) (ds dest) stolen of
        None \<Rightarrow> None
      | Some (stolen, victim, d) \<Rightarrow>
          steal_batch_scan X vs dest max_tasks stolen (ds(v := victim, dest := d)))"

definition steal_batch ::
  "('q, 's, 'n, 'd, 'i, 'w, 'z) sch_ext_scheme \<Rightarrow> nat \<Rightarrow> nat \<Rightarrow> work_stealer \<Rightarrow> 'w deques
   \<Rightarrow> (nat \<times> work_stealer \<times> 'w deques) option" where
  "steal_batch X dest max_tasks ws ds =
     (if stealers ws = [] then Some (0, ws, ds)
      else map_option (\<lambda>(n, ds). (n, ws\<lparr>steal_index := steal_index ws + 1\<rparr>, ds))
             (steal_batch_scan X (scan_order (steal_index ws) (stealers ws)) dest max_tasks 0 ds))"

section \<open>What the containers promise\<close>

text \<open>
  \<open>Injector\<close>: a FIFO. A steal may lose a race and ask to be repeated, which it can do
  only finitely often in a row (\<open>retries\<close>).
\<close>

locale fifo_injector =
  fixes new :: 'i
    and push :: "'i \<Rightarrow> task \<Rightarrow> 'i"
    and steal :: "'i \<Rightarrow> steal \<times> 'i"
    and content :: "'i \<Rightarrow> task list"
    and retries :: "'i \<Rightarrow> nat"
  assumes content_new: "content new = []"
    and content_push: "content (push q t) = content q @ [t]"
    and steal_success: "steal q = (StealSuccess t, q') \<Longrightarrow> content q = t # content q'"
    and steal_empty: "steal q = (StealEmpty, q') \<Longrightarrow> content q = [] \<and> content q' = []"
    and steal_retry: "steal q = (StealRetry, q') \<Longrightarrow> content q' = content q \<and> retries q' < retries q"

text \<open>
  \<open>Worker\<close> and \<open>Stealer\<close>: two ends of one FIFO. A batch steal returns the first task
  and moves some of the next ones to the destination.
\<close>

locale stealing_deque =
  fixes push :: "'w \<Rightarrow> task \<Rightarrow> 'w"
    and pop :: "'w \<Rightarrow> task option \<times> 'w"
    and steal :: "'w \<Rightarrow> steal \<times> 'w"
    and steal_batch_pop :: "'w \<Rightarrow> 'w \<Rightarrow> steal \<times> 'w \<times> 'w"
    and tasks :: "'w \<Rightarrow> task list"
    and deque_retries :: "'w \<Rightarrow> nat"
  assumes tasks_push: "tasks (push q t) = tasks q @ [t]"
    and pop_result: "fst (pop q) = (case tasks q of [] \<Rightarrow> None | t # _ \<Rightarrow> Some t)"
    and tasks_pop: "tasks (snd (pop q)) = tl (tasks q)"
    and deque_success: "steal q = (StealSuccess t, q') \<Longrightarrow> tasks q = t # tasks q'"
    and deque_empty: "steal q = (StealEmpty, q') \<Longrightarrow> tasks q = [] \<and> tasks q' = []"
    and deque_retry: "steal q = (StealRetry, q') \<Longrightarrow> tasks q' = tasks q \<and> deque_retries q' < deque_retries q"
    and batch_success: "steal_batch_pop q d = (StealSuccess t, q', d') \<Longrightarrow>
          \<exists>moved. tasks q = t # moved @ tasks q' \<and> tasks d' = tasks d @ moved"
    and batch_empty: "steal_batch_pop q d = (StealEmpty, q', d') \<Longrightarrow>
          tasks q = [] \<and> tasks q' = [] \<and> tasks d' = tasks d"
    and batch_retry: "steal_batch_pop q d = (StealRetry, q', d') \<Longrightarrow>
          tasks q' = tasks q \<and> tasks d' = tasks d \<and> deque_retries q' < deque_retries q"

locale work_env =
  ij: fifo_injector "ij_new X" "ij_push X" "ij_steal X" content retries +
  wk: stealing_deque "wk_push X" "wk_pop X" "st_steal X" "st_steal_batch_and_pop X" tasks deque_retries
  for X :: "('q, 's, 'n, 'd, 'i, 'w, 'z) sch_ext_scheme"
    and content :: "'i \<Rightarrow> task list" and retries :: "'i \<Rightarrow> nat"
    and tasks :: "'w \<Rightarrow> task list" and deque_retries :: "'w \<Rightarrow> nat"

definition hd_option :: "'a list \<Rightarrow> 'a option" where
  "hd_option xs = (case xs of [] \<Rightarrow> None | x # _ \<Rightarrow> Some x)"

lemma hd_option_simps [simp]:
  "hd_option [] = None" "hd_option (x # xs) = Some x" "hd_option xs = None \<longleftrightarrow> xs = []"
  by (simp_all add: hd_option_def split: list.split)

text \<open>The four levels of the priority queue, from the most to the least urgent.\<close>

definition levels_of :: "('i \<Rightarrow> task list) \<Rightarrow> 'i pri_queue \<Rightarrow> task list list" where
  "levels_of content pq =
     [content (critical pq), content (high pq), content (normal pq), content (low pq)]"

fun level :: "priority \<Rightarrow> nat" where
  "level Critical = 0"
| "level High = 1"
| "level Normal = 2"
| "level Low = 3"

datatype pq_event = PushTask task | PopTask

fun pq_step ::
  "('q, 's, 'n, 'd, 'i, 'w, 'z) sch_ext_scheme \<Rightarrow> pq_event \<Rightarrow> 'i pri_queue \<Rightarrow> task option option \<times> 'i pri_queue" where
  "pq_step X (PushTask t) pq = (Some None, PriorityQueue_push X t pq)"
| "pq_step X PopTask pq =
     (case PriorityQueue_pop X pq of None \<Rightarrow> (None, pq) | Some (t, pq) \<Rightarrow> (Some t, pq))"

text \<open>The specification: the oldest task of the most urgent level that is not empty.\<close>

fun pop_levels :: "task list list \<Rightarrow> task option \<times> task list list" where
  "pop_levels [] = (None, [])"
| "pop_levels ([] # ls) = (case pop_levels ls of (t, ls) \<Rightarrow> (t, [] # ls))"
| "pop_levels ((t # ts) # ls) = (Some t, ts # ls)"

fun pq_spec :: "pq_event \<Rightarrow> task list list \<Rightarrow> task option option \<times> task list list" where
  "pq_spec (PushTask t) ls = (Some None, ls[level (task_priority t) := ls ! level (task_priority t) @ [t]])"
| "pq_spec PopTask ls = (case pop_levels ls of (t, ls) \<Rightarrow> (Some t, ls))"

context work_env
begin

lemma try_steal_ok: "\<exists>q'. try_steal X q = Some (hd_option (content q), q') \<and> content q' = tl (content q)"
proof (induction "retries q" arbitrary: q rule: less_induct)
  case less
  obtain st q' where st: "ij_steal X q = (st, q')" by fastforce
  show ?case
  proof (cases st)
    case (StealSuccess t)
    then show ?thesis using st ij.steal_success [of q t q'] by (subst try_steal.simps) simp
  next
    case StealEmpty
    then show ?thesis using st ij.steal_empty [of q q'] by (subst try_steal.simps) simp
  next
    case StealRetry
    then show ?thesis
      using st ij.steal_retry [of q q'] less [of q'] by (subst try_steal.simps) simp
  qed
qed

lemma steal_from_ok: "\<exists>q'. steal_from X q = Some (hd_option (tasks q), q') \<and> tasks q' = tl (tasks q)"
proof (induction "deque_retries q" arbitrary: q rule: less_induct)
  case less
  obtain st q' where st: "st_steal X q = (st, q')" by fastforce
  show ?case
  proof (cases st)
    case (StealSuccess t)
    then show ?thesis using st wk.deque_success [of q t q'] by (subst steal_from.simps) simp
  next
    case StealEmpty
    then show ?thesis using st wk.deque_empty [of q q'] by (subst steal_from.simps) simp
  next
    case StealRetry
    then show ?thesis
      using st wk.deque_retry [of q q'] less [of q'] by (subst steal_from.simps) simp
  qed
qed

lemma drain_victim_ok:
  "\<exists>n v' d'. drain_victim X v d k = Some (n, v', d') \<and> tasks v' = []
     \<and> mset (tasks d') = mset (tasks d) + mset (tasks v) \<and> k \<le> n \<and> (tasks v \<noteq> [] \<longrightarrow> k < n)"
proof (induction "(length (tasks v), deque_retries v)" arbitrary: v d k
    rule: wf_induct [OF wf_lex_prod [OF wf_less wf_less]])
  case (1 v d k)
  obtain st v' d' where st: "st_steal_batch_and_pop X v d = (st, v', d')" by (metis prod_cases3)
  show ?case
  proof (cases st)
    case (StealSuccess t)
    obtain moved where m: "tasks v = t # moved @ tasks v'" "tasks d' = tasks d @ moved"
      using wk.batch_success st StealSuccess by metis
    obtain n v'' d'' where "drain_victim X v' (wk_push X d' t) (k + 1) = Some (n, v'', d'')" "tasks v'' = []"
      "mset (tasks d'') = mset (tasks (wk_push X d' t)) + mset (tasks v')" "k + 1 \<le> n"
      using 1 [rule_format, of "(length (tasks v'), deque_retries v')" v' "wk_push X d' t" "k + 1"] m by auto
    then show ?thesis
      using st StealSuccess m by (subst drain_victim.simps) (simp add: wk.tasks_push)
  next
    case StealEmpty
    then show ?thesis using st wk.batch_empty [of v d v' d'] by (subst drain_victim.simps) simp
  next
    case StealRetry
    have r: "tasks v' = tasks v" "tasks d' = tasks d" "deque_retries v' < deque_retries v"
      using wk.batch_retry [of v d v' d'] st StealRetry by simp_all
    obtain n v'' d'' where "drain_victim X v' d' k = Some (n, v'', d'')" "tasks v'' = []"
      "mset (tasks d'') = mset (tasks d') + mset (tasks v')" "k \<le> n" "tasks v' \<noteq> [] \<longrightarrow> k < n"
      using 1 [rule_format, of "(length (tasks v'), deque_retries v')" v' d' k] r by auto
    then show ?thesis using st StealRetry r by (subst drain_victim.simps) simp
  qed
qed

lemma pq_step_refines:
  "fst (pq_step X e pq) = fst (pq_spec e (levels_of content pq))
   \<and> levels_of content (snd (pq_step X e pq)) = snd (pq_spec e (levels_of content pq))"
proof (cases e)
  case (PushTask t)
  then show ?thesis
    by (cases "task_priority t") (simp_all add: PriorityQueue_push_def levels_of_def ij.content_push numeral_nat)
next
  case PopTask
  obtain c h n l where s: "try_steal X (critical pq) = Some (hd_option (content (critical pq)), c)"
    "content c = tl (content (critical pq))"
    "try_steal X (high pq) = Some (hd_option (content (high pq)), h)" "content h = tl (content (high pq))"
    "try_steal X (normal pq) = Some (hd_option (content (normal pq)), n)" "content n = tl (content (normal pq))"
    "try_steal X (low pq) = Some (hd_option (content (low pq)), l)" "content l = tl (content (low pq))"
    using try_steal_ok by metis
  show ?thesis
    unfolding PopTask
    by (cases "content (critical pq)"; cases "content (high pq)"; cases "content (normal pq)"; cases "content (low pq)")
       (simp_all add: PriorityQueue_pop_def levels_of_def s Let_def)
qed

sublocale pq: simulation "\<lambda>_ _. True" "pq_step X" pq_spec "levels_of content" "\<lambda>_. True"
  by unfold_locales (use pq_step_refines in blast)

lemma levels_new: "levels_of content (PriorityQueue_new X) = [[], [], [], []]"
  by (simp add: levels_of_def PriorityQueue_new_def ij.content_new)

lemma guarded_steps_True: "guarded_steps (\<lambda>_ _. True) st es s"
  by (induction es arbitrary: s) auto

lemma pq_run:
  "fst (run_steps (pq_step X) es (PriorityQueue_new X)) = fst (run_steps pq_spec es [[], [], [], []])
   \<and> levels_of content (snd (run_steps (pq_step X) es (PriorityQueue_new X))) =
       snd (run_steps pq_spec es [[], [], [], []])"
  using pq.run_refines [OF TrueI guarded_steps_True] levels_new by metis

lemma steal_scan_ok:
  "\<exists>r ds'. steal_scan X vs ds = Some (r, ds')
     \<and> (case r of
          None \<Rightarrow> (\<forall>v \<in> set vs. tasks (ds v) = []) \<and> (\<forall>w. tasks (ds' w) = tasks (ds w))
        | Some t \<Rightarrow> \<exists>v \<in> set vs. tasks (ds v) = t # tasks (ds' v)
                    \<and> (\<forall>w. w \<noteq> v \<longrightarrow> tasks (ds' w) = tasks (ds w)))"
proof (induction vs arbitrary: ds)
  case (Cons v vs)
  obtain q' where q': "steal_from X (ds v) = Some (hd_option (tasks (ds v)), q')" "tasks q' = tl (tasks (ds v))"
    using steal_from_ok by blast
  show ?case
  proof (cases "tasks (ds v)")
    case Nil
    define ds1 where "ds1 = ds(v := q')"
    have same: "tasks (ds1 w) = tasks (ds w)" for w using q'(2) Nil by (simp add: ds1_def)
    have step: "steal_scan X (v # vs) ds = steal_scan X vs ds1" using q'(1) Nil by (simp add: ds1_def)
    obtain r ds' where "steal_scan X vs ds1 = Some (r, ds')"
      "case r of None \<Rightarrow> (\<forall>v \<in> set vs. tasks (ds v) = []) \<and> (\<forall>w. tasks (ds' w) = tasks (ds w))
        | Some t \<Rightarrow> \<exists>v \<in> set vs. tasks (ds v) = t # tasks (ds' v)
                    \<and> (\<forall>w. w \<noteq> v \<longrightarrow> tasks (ds' w) = tasks (ds w))"
      using Cons.IH [of ds1] unfolding same by blast
    then show ?thesis unfolding step using Nil
      by (intro exI [of _ r] exI [of _ ds']) (cases r; simp)
  next
    case (Cons t ts)
    then show ?thesis using q' by auto
  qed
qed simp

lemma steal_batch_scan_ok:
  assumes "finite S" and "set vs \<subseteq> S" and "dest \<notin> S"
  shows "\<exists>n ds'. steal_batch_scan X vs dest m k ds = Some (n, ds')
     \<and> mset (tasks (ds' dest)) + (\<Sum>v\<in>S. mset (tasks (ds' v))) =
       mset (tasks (ds dest)) + (\<Sum>v\<in>S. mset (tasks (ds v)))
     \<and> (\<forall>v. tasks (ds v) = [] \<longrightarrow> v \<noteq> dest \<longrightarrow> tasks (ds' v) = [])
     \<and> (\<forall>v vs'. vs = v # vs' \<longrightarrow> k < m \<longrightarrow> tasks (ds' v) = [])"
  using assms(2)
proof (induction vs arbitrary: k ds)
  case (Cons v vs)
  show ?case
  proof (cases "m \<le> k")
    case False
    obtain n v' d' where d: "drain_victim X (ds v) (ds dest) k = Some (n, v', d')" "tasks v' = []"
      "mset (tasks d') = mset (tasks (ds dest)) + mset (tasks (ds v))"
      using drain_victim_ok by blast
    let ?ds = "ds(v := v', dest := d')"
    have vS: "v \<in> S" "v \<noteq> dest" using Cons.prems assms(3) by auto
    have "(\<Sum>w\<in>S. mset (tasks (?ds w))) = (\<Sum>w\<in>S - {v}. mset (tasks (ds w)))"
      using assms(1,3) vS d(2) by (simp add: sum.remove [of S v]) (rule sum.cong, auto)
    moreover have "(\<Sum>w\<in>S. mset (tasks (ds w))) = mset (tasks (ds v)) + (\<Sum>w\<in>S - {v}. mset (tasks (ds w)))"
      using assms(1) vS by (simp add: sum.remove)
    ultimately have total: "mset (tasks (?ds dest)) + (\<Sum>w\<in>S. mset (tasks (?ds w))) =
        mset (tasks (ds dest)) + (\<Sum>w\<in>S. mset (tasks (ds w)))"
      using d(3) by (simp add: ac_simps)
    have "set vs \<subseteq> S" using Cons.prems by simp
    from Cons.IH [OF this, of n ?ds] obtain n' ds' where
      IH: "steal_batch_scan X vs dest m n ?ds = Some (n', ds')"
      "mset (tasks (ds' dest)) + (\<Sum>v\<in>S. mset (tasks (ds' v))) =
       mset (tasks (?ds dest)) + (\<Sum>v\<in>S. mset (tasks (?ds v)))"
      and keep: "\<forall>w. tasks (?ds w) = [] \<longrightarrow> w \<noteq> dest \<longrightarrow> tasks (ds' w) = []" by blast
    have "steal_batch_scan X (v # vs) dest m k ds = Some (n', ds')"
      using IH(1) d(1) False by simp
    moreover have "tasks (ds' v) = []" "\<forall>w. tasks (ds w) = [] \<longrightarrow> w \<noteq> dest \<longrightarrow> tasks (ds' w) = []"
      using keep d(2) vS by auto
    ultimately show ?thesis using IH(2) total by auto
  qed auto
qed simp

end

section \<open>An instance of the containers\<close>

text \<open>Sequential queues, as lists; a batch steal moves nothing beyond its first task.\<close>

definition list_steal :: "task list \<Rightarrow> steal \<times> task list" where
  "list_steal q = (case q of [] \<Rightarrow> (StealEmpty, []) | t # ts \<Rightarrow> (StealSuccess t, ts))"

definition standin_sch ::
  "(nat \<times> message list, nat, wakeup_gate, (actor_id, standin_entry) hashmap, task list, task list) sch_ext" where
  "standin_sch = rg_ext.extend standin_rg
     \<lparr>ij_new = [], ij_push = (\<lambda>q t. q @ [t]), ij_steal = list_steal,
      wk_new_fifo = [], wk_push = (\<lambda>q t. q @ [t]),
      wk_pop = (\<lambda>q. (hd_option q, tl q)), st_steal = list_steal,
      st_steal_batch_and_pop = (\<lambda>q d. case list_steal q of (r, q) \<Rightarrow> (r, q, d))\<rparr>"

lemma standin_sch_simps [simp]:
  "aq_new standin_sch = aq_new standin_ext" "aq_push standin_sch = aq_push standin_ext"
  "aq_pop standin_sch = aq_pop standin_ext" "sem_new standin_sch = sem_new standin_ext"
  "sem_try_acquire standin_sch = sem_try_acquire standin_ext"
  "sem_acquire standin_sch = sem_acquire standin_ext"
  "sem_add_permits standin_sch = sem_add_permits standin_ext"
  "nt_new standin_sch = nt_new standin_ext" "nt_enable standin_sch = nt_enable standin_ext"
  "nt_notify_waiters standin_sch = nt_notify_waiters standin_ext"
  "nt_woken standin_sch = nt_woken standin_ext"
  "dm_new standin_sch = []" "dm_get standin_sch = hm_get"
  "dm_insert standin_sch = (\<lambda>d i e. (hm_get d i, hm_insert d i e))"
  "dm_remove standin_sch = (\<lambda>d i. (hm_get d i, hm_remove d i))" "dm_entries standin_sch = (\<lambda>d. d)"
  "ij_new standin_sch = []" "ij_push standin_sch = (\<lambda>q t. q @ [t])" "ij_steal standin_sch = list_steal"
  "wk_new_fifo standin_sch = []" "wk_push standin_sch = (\<lambda>q t. q @ [t])"
  "wk_pop standin_sch = (\<lambda>q. (hd_option q, tl q))" "st_steal standin_sch = list_steal"
  "st_steal_batch_and_pop standin_sch = (\<lambda>q d. case list_steal q of (r, q) \<Rightarrow> (r, q, d))"
  using standin_rg_simps
  by (simp_all add: standin_sch_def rg_ext.defs standin_rg_def standin_ext_def mb_ext.defs)

lemma list_steal_cases:
  "list_steal q = (StealSuccess t, q') \<longleftrightarrow> q = t # q'"
  "list_steal q = (StealEmpty, q') \<longleftrightarrow> q = [] \<and> q' = []"
  "list_steal q \<noteq> (StealRetry, q')"
  by (auto simp: list_steal_def split: list.splits)

interpretation standin_work: work_env standin_sch "\<lambda>q. q" "\<lambda>_. 0" "\<lambda>q. q" "\<lambda>_. 0"
  by unfold_locales (auto simp: list_steal_cases hd_option_def split: prod.splits)

section \<open>Properties\<close>

definition demo_task :: "priority \<Rightarrow> u8 \<Rightarrow> task" where
  "demo_task p b = \<lparr>task_actor = ActorId 1, task_message = demo_msg p b, task_priority = p,
     additional_messages = []\<rparr>"

text \<open>
  C24: refinement of the priority queue. Over any sequence of pushes and pops every pop
  returns (its retry loops end), and it returns the oldest task of the most urgent level
  that holds one, or nothing when all four are empty.
\<close>

theorem priority_queue_serves_most_urgent:
  assumes "work_env X content retries tasks deque_retries"
  shows "fst (run_steps (pq_step X) es (PriorityQueue_new X)) = fst (run_steps pq_spec es [[], [], [], []])
       \<and> levels_of content (snd (run_steps (pq_step X) es (PriorityQueue_new X))) =
           snd (run_steps pq_spec es [[], [], [], []])"
  by (rule work_env.pq_run [OF assms])

definition demo_pq_events :: "pq_event list" where
  "demo_pq_events = [PushTask (demo_task Low 1), PushTask (demo_task High 2), PushTask (demo_task High 3),
     PopTask, PopTask, PopTask, PopTask]"

theorem priority_queue_serves_most_urgent_witness:
  "fst (run_steps (pq_step standin_sch) demo_pq_events (PriorityQueue_new standin_sch)) =
     [Some None, Some None, Some None, Some (Some (demo_task High 2)), Some (Some (demo_task High 3)),
      Some (Some (demo_task Low 1)), Some None]"
proof -
  have "fst (run_steps pq_spec demo_pq_events [[], [], [], []]) =
     [Some None, Some None, Some None, Some (Some (demo_task High 2)), Some (Some (demo_task High 3)),
      Some (Some (demo_task Low 1)), Some None]"
    by (simp add: demo_pq_events_def demo_task_def numeral_nat)
  then show ?thesis
    using priority_queue_serves_most_urgent [OF standin_work.work_env_axioms, of demo_pq_events] by simp
qed

text \<open>
  C25: stealing in batches neither loses nor duplicates a task, and always ends: the
  destination and the victims together hold the same tasks before and after. The limit
  \<open>max\<close> does not bound one victim: whatever positive limit is given, the first victim
  of the scan is emptied.
\<close>

theorem steal_batch_conserves_tasks:
  assumes "work_env X content retries tasks deque_retries"
    and "stealers ws \<noteq> []" and "dest \<notin> set (stealers ws)" and "0 < max_tasks"
  shows "\<exists>n ws' ds'. steal_batch X dest max_tasks ws ds = Some (n, ws', ds')
     \<and> mset (tasks (ds' dest)) + (\<Sum>v\<in>set (stealers ws). mset (tasks (ds' v))) =
       mset (tasks (ds dest)) + (\<Sum>v\<in>set (stealers ws). mset (tasks (ds v)))
     \<and> tasks (ds' (hd (scan_order (steal_index ws) (stealers ws)))) = []"
proof -
  let ?vs = "scan_order (steal_index ws) (stealers ws)"
  have sub: "set ?vs \<subseteq> set (stealers ws)" using assms(2) by (auto simp: scan_order_def)
  have ne: "?vs = hd ?vs # tl ?vs" using assms(2) by (simp add: scan_order_def)
  obtain n ds' where r: "steal_batch_scan X ?vs dest max_tasks 0 ds = Some (n, ds')"
    "mset (tasks (ds' dest)) + (\<Sum>v\<in>set (stealers ws). mset (tasks (ds' v))) =
       mset (tasks (ds dest)) + (\<Sum>v\<in>set (stealers ws). mset (tasks (ds v)))"
    "\<forall>v vs'. ?vs = v # vs' \<longrightarrow> 0 < max_tasks \<longrightarrow> tasks (ds' v) = []"
    using work_env.steal_batch_scan_ok [OF assms(1) finite_set sub assms(3)] by blast
  have "tasks (ds' (hd ?vs)) = []" using r(3) ne assms(4) by blast
  then show ?thesis using r(1,2) assms(2) by (simp add: steal_batch_def)
qed

theorem steal_batch_conserves_tasks_witness:
  "\<exists>n ws' ds'. steal_batch standin_sch 0 1 (WorkStealer_new [7])
       (\<lambda>w. if w = 7 then [demo_task Low 1, demo_task Low 2] else []) = Some (n, ws', ds')
     \<and> ds' 7 = [] \<and> mset (ds' 0) = {#demo_task Low 1, demo_task Low 2#}"
proof -
  have h: "stealers (WorkStealer_new [7]) \<noteq> []" "0 \<notin> set (stealers (WorkStealer_new [7]))"
    "hd (scan_order (steal_index (WorkStealer_new [7])) (stealers (WorkStealer_new [7]))) = 7"
    by (simp_all add: WorkStealer_new_def scan_order_def)
  show ?thesis
    using steal_batch_conserves_tasks [OF standin_work.work_env_axioms h(1,2), of 1
        "\<lambda>w. if w = 7 then [demo_task Low 1, demo_task Low 2] else []"] h(3)
    by (auto simp: WorkStealer_new_def)
qed

end
