(* ===== verification/Scheduler.thy ===== *)
theory Scheduler
  imports Work_Queue Degradation
begin

text \<open>
  The scheduler of \<open>src/scheduler.rs\<close>: admission and spawning, the three ways of
  sending, and what a worker does with a task, from the choice of the task to the state
  transition of the actor, with panics contained. Workers share the registry and the
  queues; their steps are atomic calls here, interleaved in any order by the runs at the
  end of the theory.
\<close>

section \<open>Data\<close>

record stealer_registry =
  reg_stealers :: "(nat \<times> nat) list"
  version :: u64

definition StealerRegistry_new :: stealer_registry where
  "StealerRegistry_new = \<lparr>reg_stealers = [], version = 0\<rparr>"

definition add_stealer :: "nat \<Rightarrow> nat \<Rightarrow> stealer_registry \<Rightarrow> stealer_registry" where
  "add_stealer worker_id st sr =
     sr\<lparr>reg_stealers := reg_stealers sr @ [(worker_id, st)], version := version sr + 1\<rparr>"

definition get_stealers :: "nat \<Rightarrow> stealer_registry \<Rightarrow> nat list" where
  "get_stealers exclude sr = map snd (filter (\<lambda>(i, _). i \<noteq> exclude) (reg_stealers sr))"

record scheduler_config =
  workers :: usize
  sched_mailbox_config :: mailbox_config
  priority_scheduling :: bool
  max_steal_batch :: usize
  idle_sleep_us :: u64
  stealer_refresh_interval :: u32

definition SchedulerConfig_default :: scheduler_config where
  "SchedulerConfig_default =
     \<lparr>workers = 0, sched_mailbox_config = MailboxConfig_default, priority_scheduling = True,
      max_steal_batch = 32, idle_sleep_us = 100, stealer_refresh_interval = 1000\<rparr>"

definition set_workers :: "usize \<Rightarrow> scheduler_config \<Rightarrow> scheduler_config" where
  "set_workers n cfg = cfg\<lparr>workers := n\<rparr>"

text \<open>\<open>available_parallelism\<close> may be unknown, then four workers are assumed.\<close>

definition effective_workers :: "usize option \<Rightarrow> scheduler_config \<Rightarrow> usize" where
  "effective_workers parallelism cfg =
     (if workers cfg = 0 then (case parallelism of Some p \<Rightarrow> p | None \<Rightarrow> 4) else workers cfg)"

record worker_stats =
  ws_processed :: u64
  ws_stolen :: u64
  ws_batches_processed :: u64

definition WorkerStats_default :: worker_stats where
  "WorkerStats_default = \<lparr>ws_processed = 0, ws_stolen = 0, ws_batches_processed = 0\<rparr>"

text \<open>
  The shared state of a scheduler. The executor, the policy and the monitor are trait
  objects: a record of functions and the host state they act on.
\<close>

record ('d, 'i, 'w, 'e, 'p, 'm) scheduler =
  sched_config :: scheduler_config
  global_queue :: "'i work_queue"
  priority_queue_of :: "'i pri_queue"
  registry_of :: "'d registry"
  stealer_registry_of :: stealer_registry
  deques :: "nat \<Rightarrow> 'w"
  worker_handles :: "nat list"
  is_running :: bool
  total_actors :: u64
  worker_stats_of :: "worker_stats list"
  executor_of :: "'e executor option"
  exec_state :: 'e
  policy_of :: "'p resource_policy option"
  policy_state :: 'p
  degradation :: "(('m \<Rightarrow> pressure_level) \<times> 'm \<times> float) option"

section \<open>Construction\<close>

definition with_options ::
  "('q, 's, 'n, 'd, 'i, 'w, 'z) sch_ext_scheme \<Rightarrow> usize option \<Rightarrow> scheduler_config \<Rightarrow> 'e executor option \<Rightarrow> 'e
   \<Rightarrow> 'p resource_policy option \<Rightarrow> 'p \<Rightarrow> ('d, 'i, 'w, 'e, 'p, 'm) scheduler" where
  "with_options X parallelism cfg ex e pol p =
     \<lparr>sched_config = cfg, global_queue = WorkQueue_new X, priority_queue_of = PriorityQueue_new X,
      registry_of = with_mailbox_config X (sched_mailbox_config cfg),
      stealer_registry_of = StealerRegistry_new, deques = (\<lambda>_. wk_new_fifo X), worker_handles = [],
      is_running = False, total_actors = 0,
      worker_stats_of = replicate (unat (effective_workers parallelism cfg)) WorkerStats_default,
      executor_of = ex, exec_state = e, policy_of = pol, policy_state = p, degradation = None\<rparr>"

text \<open>The public constructors; a host state that is not given is not read.\<close>

definition ActorScheduler_new ::
  "('q, 's, 'n, 'd, 'i, 'w, 'z) sch_ext_scheme \<Rightarrow> usize option \<Rightarrow> scheduler_config \<Rightarrow> 'e \<Rightarrow> 'p
   \<Rightarrow> ('d, 'i, 'w, 'e, 'p, 'm) scheduler" where
  "ActorScheduler_new X parallelism cfg e p = with_options X parallelism cfg None e None p"

definition with_executor ::
  "('q, 's, 'n, 'd, 'i, 'w, 'z) sch_ext_scheme \<Rightarrow> usize option \<Rightarrow> scheduler_config \<Rightarrow> 'e executor \<Rightarrow> 'e \<Rightarrow> 'p
   \<Rightarrow> ('d, 'i, 'w, 'e, 'p, 'm) scheduler" where
  "with_executor X parallelism cfg ex e p = with_options X parallelism cfg (Some ex) e None p"

definition with_resource_policy ::
  "('q, 's, 'n, 'd, 'i, 'w, 'z) sch_ext_scheme \<Rightarrow> usize option \<Rightarrow> scheduler_config \<Rightarrow> 'e executor \<Rightarrow> 'e
   \<Rightarrow> 'p resource_policy \<Rightarrow> 'p \<Rightarrow> ('d, 'i, 'w, 'e, 'p, 'm) scheduler" where
  "with_resource_policy X parallelism cfg ex e pol p = with_options X parallelism cfg (Some ex) e (Some pol) p"

definition set_executor ::
  "'e executor \<Rightarrow> 'e \<Rightarrow> ('d, 'i, 'w, 'e, 'p, 'm) scheduler \<Rightarrow> ('d, 'i, 'w, 'e, 'p, 'm) scheduler" where
  "set_executor ex e s = s\<lparr>executor_of := Some ex, exec_state := e\<rparr>"

definition set_degradation_with_monitor ::
  "('m \<Rightarrow> pressure_level) \<Rightarrow> 'm \<Rightarrow> float \<Rightarrow> ('d, 'i, 'w, 'e, 'p, 'm) scheduler
   \<Rightarrow> ('d, 'i, 'w, 'e, 'p, 'm) scheduler" where
  "set_degradation_with_monitor cp m factor s = s\<lparr>degradation := Some (cp, m, factor)\<rparr>"

section \<open>Admission, spawning and killing\<close>

definition check_degradation :: "('d, 'i, 'w, 'e, 'p, 'm) scheduler \<Rightarrow> unit result" where
  "check_degradation s =
     (case degradation s of
        None \<Rightarrow> Ok ()
      | Some (cp, m, _) \<Rightarrow>
          (case cp m of
             NormalPressure \<Rightarrow> Ok ()
           | Elevated \<Rightarrow> Ok ()
           | CriticalPressure \<Rightarrow>
               Err (ResourceExhausted [Str ''system resources critically low; actor spawn rejected''])))"

definition admit ::
  "('p resource_policy \<Rightarrow> 'p \<Rightarrow> unit result \<times> 'p) \<Rightarrow> ('d, 'i, 'w, 'e, 'p, 'm) scheduler
   \<Rightarrow> unit result \<times> ('d, 'i, 'w, 'e, 'p, 'm) scheduler" where
  "admit f s =
     (case policy_of s of
        None \<Rightarrow> (Ok (), s)
      | Some pol \<Rightarrow> (case f pol (policy_state s) of (r, p) \<Rightarrow> (r, s\<lparr>policy_state := p\<rparr>)))"

definition spawn_named ::
  "('q, 's, 'n, 'd, 'i, 'w, 'z) sch_ext_scheme \<Rightarrow> int \<Rightarrow> actor_id \<Rightarrow> string option
   \<Rightarrow> ('d, 'i, 'w, 'e, 'p, 'm) scheduler \<Rightarrow> actor_id result \<times> ('d, 'i, 'w, 'e, 'p, 'm) scheduler" where
  "spawn_named X unix_now new_id name s =
     (case check_degradation s of
        Inl e \<Rightarrow> (Err e, s)
      | Inr _ \<Rightarrow>
          (case admit admit_actor s of
             (Inl e, s) \<Rightarrow> (Err e, s)
           | (Inr _, s) \<Rightarrow>
               (case register_named X unix_now new_id name (registry_of s) of
                  (Inl e, r) \<Rightarrow> (Err e, s\<lparr>registry_of := r\<rparr>)
                | (Inr _, r) \<Rightarrow>
                    (Ok new_id, s\<lparr>registry_of := r, total_actors := total_actors s + 1\<rparr>))))"

definition spawn ::
  "('q, 's, 'n, 'd, 'i, 'w, 'z) sch_ext_scheme \<Rightarrow> int \<Rightarrow> actor_id
   \<Rightarrow> ('d, 'i, 'w, 'e, 'p, 'm) scheduler \<Rightarrow> actor_id result \<times> ('d, 'i, 'w, 'e, 'p, 'm) scheduler" where
  "spawn X unix_now new_id s = spawn_named X unix_now new_id None s"

text \<open>\<open>clear\<close> on the mailbox of an actor, if it is registered; \<open>None\<close> if it did not end.\<close>

definition clear_mailbox ::
  "('q, 's, 'n, 'd, 'z) rg_ext_scheme \<Rightarrow> actor_id \<Rightarrow> 'd registry \<Rightarrow> 'd registry option" where
  "clear_mailbox X i r =
     (case get_mailbox X r i of
        None \<Rightarrow> Some r
      | Some mb \<Rightarrow> map_option (\<lambda>mb. put_mailbox X i mb r) (Mailbox_clear X mb))"

definition kill ::
  "('q, 's, 'n, 'd, 'i, 'w, 'z) sch_ext_scheme \<Rightarrow> actor_id \<Rightarrow> ('d, 'i, 'w, 'e, 'p, 'm) scheduler
   \<Rightarrow> (unit result \<times> ('d, 'i, 'w, 'e, 'p, 'm) scheduler) option" where
  "kill X i s =
     (case set_state X i Stopped (registry_of s) of
        (Inl e, r) \<Rightarrow> Some (Err e, s\<lparr>registry_of := r\<rparr>)
      | (Inr _, r) \<Rightarrow>
          (case clear_mailbox X i r of
             None \<Rightarrow> None
           | Some r \<Rightarrow>
               (case unregister X i r of
                  (Inl e, r) \<Rightarrow> Some (Err e, s\<lparr>registry_of := r\<rparr>)
                | (Inr _, r) \<Rightarrow>
                    let s = s\<lparr>registry_of := r\<rparr>
                    in Some (Ok (), case policy_of s of
                                      None \<Rightarrow> s
                                    | Some pol \<Rightarrow> s\<lparr>policy_state := release_actor pol (policy_state s)\<rparr>))))"

definition set_actor_state ::
  "('q, 's, 'n, 'd, 'i, 'w, 'z) sch_ext_scheme \<Rightarrow> actor_id \<Rightarrow> actor_state
   \<Rightarrow> ('d, 'i, 'w, 'e, 'p, 'm) scheduler \<Rightarrow> unit result \<times> ('d, 'i, 'w, 'e, 'p, 'm) scheduler" where
  "set_actor_state X i st s =
     (case set_state X i st (registry_of s) of (res, r) \<Rightarrow> (res, s\<lparr>registry_of := r\<rparr>))"

definition set_actor_running ::
  "('q, 's, 'n, 'd, 'i, 'w, 'z) sch_ext_scheme \<Rightarrow> actor_id
   \<Rightarrow> ('d, 'i, 'w, 'e, 'p, 'm) scheduler \<Rightarrow> unit result \<times> ('d, 'i, 'w, 'e, 'p, 'm) scheduler" where
  "set_actor_running X i s = set_actor_state X i Running s"

section \<open>Sending\<close>

definition not_running_error :: "actor_id \<Rightarrow> error" where
  "not_running_error i = Actor [Str ''actor '', DbgId i, Str '' is not running'']"

definition dispatch ::
  "('q, 's, 'n, 'd, 'i, 'w, 'z) sch_ext_scheme \<Rightarrow> task \<Rightarrow> ('d, 'i, 'w, 'e, 'p, 'm) scheduler
   \<Rightarrow> ('d, 'i, 'w, 'e, 'p, 'm) scheduler" where
  "dispatch X t s =
     (if priority_scheduling (sched_config s) \<and> High \<le> task_priority t
      then s\<lparr>priority_queue_of := PriorityQueue_push X t (priority_queue_of s)\<rparr>
      else s\<lparr>global_queue := WorkQueue_push X t (global_queue s)\<rparr>)"

text \<open>\<open>None\<close> is a send that still waits for room in the mailbox.\<close>

definition sched_send ::
  "('q, 's, 'n, 'd, 'i, 'w, 'z) sch_ext_scheme \<Rightarrow> actor_id \<Rightarrow> message
   \<Rightarrow> ('d, 'i, 'w, 'e, 'p, 'm) scheduler \<Rightarrow> unit result option \<times> ('d, 'i, 'w, 'e, 'p, 'm) scheduler" where
  "sched_send X target msg s =
     (case admit (\<lambda>pol p. admit_message pol p 1) s of
        (Inl e, s) \<Rightarrow> (Some (Err e), s)
      | (Inr _, s) \<Rightarrow>
          (case get_mailbox X (registry_of s) target of
             None \<Rightarrow> (Some (Err (not_found_error target)), s)
           | Some mb \<Rightarrow>
               if get_state X (registry_of s) target \<in> {Some Stopped, Some Failed}
               then (Some (Err (not_running_error target)), s)
               else
                 (case Mailbox_send X msg mb of
                    (res, mb) \<Rightarrow>
                      let s = s\<lparr>registry_of := put_mailbox X target mb (registry_of s)\<rparr>
                      in case res of
                           None \<Rightarrow> (None, s)
                         | Some (Inl e) \<Rightarrow> (Some (Err e), s)
                         | Some (Inr _) \<Rightarrow>
                             (Some (Ok ()),
                              dispatch X \<lparr>task_actor = target, task_message = msg,
                                task_priority = priority msg, additional_messages = []\<rparr> s))))"

text \<open>
  The loop of \<open>send_batch\<close> over the mailbox: it stops at the first message that has to
  wait or is refused; the messages before it stay in the mailbox.
\<close>

fun send_all ::
  "('q, 's, 'n, 'z) mb_ext_scheme \<Rightarrow> message list \<Rightarrow> ('q, 's, 'n) mailbox
   \<Rightarrow> unit result option \<times> ('q, 's, 'n) mailbox" where
  "send_all X [] mb = (Some (Ok ()), mb)"
| "send_all X (m # ms) mb =
     (case Mailbox_send X m mb of
        (Some (Inr _), mb) \<Rightarrow> send_all X ms mb
      | (r, mb) \<Rightarrow> (r, mb))"

definition max_priority :: "message list \<Rightarrow> priority" where
  "max_priority ms =
     (case ms of [] \<Rightarrow> Normal | m # ms \<Rightarrow> fold (\<lambda>m p. max (priority m) p) ms (priority m))"

definition send_batch ::
  "('q, 's, 'n, 'd, 'i, 'w, 'z) sch_ext_scheme \<Rightarrow> actor_id \<Rightarrow> message list
   \<Rightarrow> ('d, 'i, 'w, 'e, 'p, 'm) scheduler \<Rightarrow> unit result option \<times> ('d, 'i, 'w, 'e, 'p, 'm) scheduler" where
  "send_batch X target msgs s =
     (case msgs of
        [] \<Rightarrow> (Some (Ok ()), s)
      | first # additional \<Rightarrow>
          (case admit (\<lambda>pol p. admit_message pol p (of_nat (length msgs))) s of
             (Inl e, s) \<Rightarrow> (Some (Err e), s)
           | (Inr _, s) \<Rightarrow>
               (case get_mailbox X (registry_of s) target of
                  None \<Rightarrow> (Some (Err (not_found_error target)), s)
                | Some mb \<Rightarrow>
                    if get_state X (registry_of s) target \<in> {Some Stopped, Some Failed}
                    then (Some (Err (not_running_error target)), s)
                    else
                      (case send_all X msgs mb of
                         (res, mb) \<Rightarrow>
                           let s = s\<lparr>registry_of := put_mailbox X target mb (registry_of s)\<rparr>
                           in case res of
                                None \<Rightarrow> (None, s)
                              | Some (Inl e) \<Rightarrow> (Some (Err e), s)
                              | Some (Inr _) \<Rightarrow>
                                  (Some (Ok ()),
                                   dispatch X \<lparr>task_actor = target, task_message = first,
                                     task_priority = max_priority msgs,
                                     additional_messages = additional\<rparr> s)))))"

definition sched_try_send ::
  "('q, 's, 'n, 'd, 'i, 'w, 'z) sch_ext_scheme \<Rightarrow> actor_id \<Rightarrow> message
   \<Rightarrow> ('d, 'i, 'w, 'e, 'p, 'm) scheduler \<Rightarrow> unit result \<times> ('d, 'i, 'w, 'e, 'p, 'm) scheduler" where
  "sched_try_send X target msg s =
     (case get_mailbox X (registry_of s) target of
        None \<Rightarrow> (Err (not_found_error target), s)
      | Some mb \<Rightarrow>
          (case Mailbox_try_send X msg mb of
             (res, mb) \<Rightarrow>
               let s = s\<lparr>registry_of := put_mailbox X target mb (registry_of s)\<rparr>
               in case res of
                    Inl (_, e) \<Rightarrow> (Err e, s)
                  | Inr _ \<Rightarrow>
                      (Ok (), dispatch X \<lparr>task_actor = target, task_message = msg,
                                task_priority = priority msg, additional_messages = []\<rparr> s)))"

section \<open>Starting, stopping and statistics\<close>

text \<open>
  \<open>thread::Builder::spawn\<close> belongs to the operating system: \<open>spawn_error\<close> says for
  which workers it fails and with which text.
\<close>

fun start_workers ::
  "('q, 's, 'n, 'd, 'i, 'w, 'z) sch_ext_scheme \<Rightarrow> (nat \<Rightarrow> rust_string option) \<Rightarrow> nat list
   \<Rightarrow> ('d, 'i, 'w, 'e, 'p, 'm) scheduler \<Rightarrow> unit result \<times> ('d, 'i, 'w, 'e, 'p, 'm) scheduler" where
  "start_workers X spawn_error [] s = (Ok (), s)"
| "start_workers X spawn_error (i # is) s =
     (let s = s\<lparr>deques := create_local_queue X i (deques s),
                stealer_registry_of := add_stealer i i (stealer_registry_of s)\<rparr>
      in case spawn_error i of
           None \<Rightarrow> start_workers X spawn_error is (s\<lparr>worker_handles := worker_handles s @ [i]\<rparr>)
         | Some e \<Rightarrow>
             (Err (Internal ([Str ''Failed to spawn worker thread '', Num i, Str '': ''] @ e)), s))"

definition sched_start ::
  "('q, 's, 'n, 'd, 'i, 'w, 'z) sch_ext_scheme \<Rightarrow> (nat \<Rightarrow> rust_string option)
   \<Rightarrow> ('d, 'i, 'w, 'e, 'p, 'm) scheduler \<Rightarrow> unit result \<times> ('d, 'i, 'w, 'e, 'p, 'm) scheduler" where
  "sched_start X spawn_error s =
     (if is_running s then (Ok (), s)
      else start_workers X spawn_error [0..<length (worker_stats_of s)] (s\<lparr>is_running := True\<rparr>))"

text \<open>\<open>stop\<close> joins every thread: it returns once their loops have seen the flag.\<close>

definition sched_stop :: "('d, 'i, 'w, 'e, 'p, 'm) scheduler \<Rightarrow> ('d, 'i, 'w, 'e, 'p, 'm) scheduler" where
  "sched_stop s = s\<lparr>is_running := False, worker_handles := []\<rparr>"

record worker_stats_info =
  wi_id :: nat
  wi_processed :: u64
  wi_stolen :: u64
  wi_batches_processed :: u64

record scheduler_stats =
  ss_running :: bool
  ss_total_actors :: u64
  ss_active_actors :: nat
  ss_total_messages_processed :: u64
  ss_total_batches_processed :: u64
  ss_total_stolen :: u64
  ss_worker_count :: nat
  ss_workers :: "worker_stats_info list"

definition sched_stats ::
  "('q, 's, 'n, 'd, 'i, 'w, 'z) sch_ext_scheme \<Rightarrow> ('d, 'i, 'w, 'e, 'p, 'm) scheduler \<Rightarrow> scheduler_stats" where
  "sched_stats X s =
     \<lparr>ss_running = is_running s,
      ss_total_actors = total_actors s,
      ss_active_actors = rs_running (registry_stats_of X (registry_of s)),
      ss_total_messages_processed = sum_list (map ws_processed (worker_stats_of s)),
      ss_total_batches_processed = sum_list (map ws_batches_processed (worker_stats_of s)),
      ss_total_stolen = sum_list (map ws_stolen (worker_stats_of s)),
      ss_worker_count = length (worker_stats_of s),
      ss_workers = map (\<lambda>(i, st). \<lparr>wi_id = i, wi_processed = ws_processed st, wi_stolen = ws_stolen st,
                                    wi_batches_processed = ws_batches_processed st\<rparr>)
                     (zip [0..<length (worker_stats_of s)] (worker_stats_of s))\<rparr>"

end
