(* ===== verification/Worker.thy ===== *)
theory Worker
  imports Scheduler
begin

text \<open>
  What a worker thread of \<open>src/scheduler.rs\<close> does: choosing a task, running it with
  panics contained, and the state transitions of the actor that its messages cause.
\<close>

section \<open>Processing one message\<close>

text \<open>
  A worker touches the registry, its own counters and the executor's state. A step
  returns whether it is unwinding from a panic, and the state in which it left off.
\<close>

record ('d, 'e) pstate =
  ps_registry :: "'d registry"
  ps_stats :: worker_stats
  ps_exec :: 'e

definition handle_state_change_for ::
  "('q, 's, 'n, 'd, 'z) rg_ext_scheme \<Rightarrow> actor_id \<Rightarrow> message \<Rightarrow> 'd registry \<Rightarrow> 'd registry" where
  "handle_state_change_for X i msg r =
     (case payload msg of
        Start \<Rightarrow> snd (set_state X i Running r)
      | Stop \<Rightarrow> snd (set_state X i Stopped r)
      | Signal Pause \<Rightarrow> snd (set_state X i Suspended r)
      | Signal Resume \<Rightarrow> snd (set_state X i Running r)
      | Signal Restart \<Rightarrow> snd (set_state X i Creating r)
      | _ \<Rightarrow> r)"

definition fail_actor ::
  "('q, 's, 'n, 'd, 'z) rg_ext_scheme \<Rightarrow> actor_id \<Rightarrow> 'd registry \<Rightarrow> 'd registry option" where
  "fail_actor X i r = clear_mailbox X i (snd (set_state X i Failed r))"

text \<open>The \<open>try_recv\<close> that gives back the slot of a processed message.\<close>

definition consume_slot ::
  "('q, 's, 'n, 'd, 'z) rg_ext_scheme \<Rightarrow> actor_id \<Rightarrow> 'd registry \<Rightarrow> 'd registry" where
  "consume_slot X i r =
     (case get_mailbox X r i of
        None \<Rightarrow> r
      | Some mb \<Rightarrow> put_mailbox X i (snd (Mailbox_try_recv X mb)) r)"

definition count_processed ::
  "('q, 's, 'n, 'd, 'z) rg_ext_scheme \<Rightarrow> int \<Rightarrow> actor_id \<Rightarrow> ('d, 'e) pstate \<Rightarrow> ('d, 'e) pstate" where
  "count_processed X unix_now i st =
     st\<lparr>ps_stats := (ps_stats st)\<lparr>ws_processed := ws_processed (ps_stats st) + 1\<rparr>,
        ps_registry := consume_slot X i (record_processed X unix_now i (ps_registry st))\<rparr>"

text \<open>The arm for an actor that is \<open>Running\<close> or \<open>Creating\<close>.\<close>

definition process_active ::
  "('q, 's, 'n, 'd, 'z) rg_ext_scheme \<Rightarrow> 'e executor option \<Rightarrow> int \<Rightarrow> actor_id \<Rightarrow> message
   \<Rightarrow> ('d, 'e) pstate \<Rightarrow> (bool \<times> ('d, 'e) pstate) option" where
  "process_active X ex unix_now i msg st =
     (case ex of
        None \<Rightarrow>
          Some (False, count_processed X unix_now i
                  (st\<lparr>ps_registry := handle_state_change_for X i msg (ps_registry st)\<rparr>))
      | Some ops \<Rightarrow>
          (case execute ops (ps_exec st) i msg of
             (Panicked, e) \<Rightarrow> Some (True, st\<lparr>ps_exec := e\<rparr>)
           | (Returned res, e) \<Rightarrow>
               let st = st\<lparr>ps_exec := e\<rparr>; r = ps_registry st
               in case res of
                    Success _ _ \<Rightarrow>
                      let r = (case payload msg of
                                 Start \<Rightarrow> snd (set_state X i Running r)
                               | Stop \<Rightarrow> snd (set_state X i Stopped r)
                               | _ \<Rightarrow> r)
                      in Some (False, count_processed X unix_now i (st\<lparr>ps_registry := r\<rparr>))
                  | FuelExhausted _ \<Rightarrow>
                      map_option (\<lambda>r. (False, st\<lparr>ps_registry := r\<rparr>)) (fail_actor X i r)
                  | ExecFailed _ \<Rightarrow>
                      map_option (\<lambda>r. (False, st\<lparr>ps_registry := r\<rparr>)) (fail_actor X i r)
                  | NotReady \<Rightarrow>
                      Some (False, count_processed X unix_now i
                              (st\<lparr>ps_registry := handle_state_change_for X i msg r\<rparr>))))"

definition is_control :: "message \<Rightarrow> bool" where
  "is_control msg = (case payload msg of Signal _ \<Rightarrow> True | Start \<Rightarrow> True | Stop \<Rightarrow> True | _ \<Rightarrow> False)"

text \<open>
  A control message can end a suspension, and then the queued messages are run on the
  spot, which may process another control message: the two functions call each other.
  They take fuel; \<open>None\<close> means that it did not suffice, and for some mailboxes no fuel
  does.
\<close>

fun process_single_message ::
  "('q, 's, 'n, 'd, 'z) rg_ext_scheme \<Rightarrow> 'e executor option \<Rightarrow> int \<Rightarrow> nat \<Rightarrow> actor_id \<Rightarrow> message
   \<Rightarrow> ('d, 'e) pstate \<Rightarrow> (bool \<times> ('d, 'e) pstate) option"
and drain_resumed ::
  "('q, 's, 'n, 'd, 'z) rg_ext_scheme \<Rightarrow> 'e executor option \<Rightarrow> int \<Rightarrow> nat \<Rightarrow> actor_id
   \<Rightarrow> ('d, 'e) pstate \<Rightarrow> (bool \<times> ('d, 'e) pstate) option" where
  "process_single_message X ex unix_now 0 i msg st = None"
| "process_single_message X ex unix_now (Suc n) i msg st =
     (let r = ps_registry st
      in if get_state X r i \<in> {Some Running, Some Creating}
         then process_active X ex unix_now i msg st
         else if get_state X r i = Some Suspended
         then (if is_control msg
               then let r = consume_slot X i (handle_state_change_for X i msg r);
                        st = st\<lparr>ps_registry := r\<rparr>
                    in if get_state X r i \<in> {Some Running, Some Creating}
                       then drain_resumed X ex unix_now n i st
                       else Some (False, st)
               else case get_mailbox X r i of
                      None \<Rightarrow> Some (False, st)
                    | Some mb \<Rightarrow>
                        Some (False, st\<lparr>ps_registry :=
                                put_mailbox X i (snd (Mailbox_try_send X msg mb)) r\<rparr>))
         else Some (False, st))"
| "drain_resumed X ex unix_now 0 i st = None"
| "drain_resumed X ex unix_now (Suc n) i st =
     (case get_mailbox X (ps_registry st) i of
        None \<Rightarrow> Some (False, st)
      | Some mb \<Rightarrow>
          if Mailbox_is_empty mb then Some (False, st)
          else (case Mailbox_try_recv X mb of
                  (None, mb) \<Rightarrow> Some (False, st\<lparr>ps_registry := put_mailbox X i mb (ps_registry st)\<rparr>)
                | (Some queued, mb) \<Rightarrow>
                    (case process_single_message X ex unix_now n i queued
                            (st\<lparr>ps_registry := put_mailbox X i mb (ps_registry st)\<rparr>) of
                       None \<Rightarrow> None
                     | Some (True, st) \<Rightarrow> Some (True, st)
                     | Some (False, st) \<Rightarrow> drain_resumed X ex unix_now n i st)))"

section \<open>Processing a task\<close>

text \<open>The rest of a batch is dropped once the actor has stopped or failed.\<close>

fun process_batch ::
  "('q, 's, 'n, 'd, 'z) rg_ext_scheme \<Rightarrow> 'e executor option \<Rightarrow> int \<Rightarrow> nat \<Rightarrow> actor_id \<Rightarrow> message list
   \<Rightarrow> ('d, 'e) pstate \<Rightarrow> (bool \<times> ('d, 'e) pstate) option" where
  "process_batch X ex unix_now n i [] st = Some (False, st)"
| "process_batch X ex unix_now n i (m # ms) st =
     (case process_single_message X ex unix_now n i m st of
        None \<Rightarrow> None
      | Some (True, st) \<Rightarrow> Some (True, st)
      | Some (False, st) \<Rightarrow>
          if get_state X (ps_registry st) i \<in> {Some Failed, Some Stopped} then Some (False, st)
          else process_batch X ex unix_now n i ms st)"

definition process_task ::
  "('q, 's, 'n, 'd, 'z) rg_ext_scheme \<Rightarrow> 'e executor option \<Rightarrow> int \<Rightarrow> nat \<Rightarrow> task
   \<Rightarrow> ('d, 'e) pstate \<Rightarrow> (bool \<times> ('d, 'e) pstate) option" where
  "process_task X ex unix_now n t st =
     (if additional_messages t = []
      then process_single_message X ex unix_now n (task_actor t) (task_message t) st
      else
        let st = st\<lparr>ps_stats := (ps_stats st)\<lparr>ws_batches_processed := ws_batches_processed (ps_stats st) + 1\<rparr>\<rparr>
        in process_batch X ex unix_now n (task_actor t) (task_message t # additional_messages t) st)"

definition process_task_safe ::
  "('q, 's, 'n, 'd, 'z) rg_ext_scheme \<Rightarrow> 'e executor option \<Rightarrow> int \<Rightarrow> nat \<Rightarrow> task
   \<Rightarrow> ('d, 'e) pstate \<Rightarrow> ('d, 'e) pstate option" where
  "process_task_safe X ex unix_now n t st =
     (case process_task X ex unix_now n t st of
        None \<Rightarrow> None
      | Some (False, st) \<Rightarrow> Some st
      | Some (True, st) \<Rightarrow>
          let st = (if additional_messages t \<noteq> []
                    then st\<lparr>ps_stats := (ps_stats st)\<lparr>ws_batches_processed :=
                              ws_batches_processed (ps_stats st) + 1\<rparr>\<rparr>
                    else st)
          in map_option (\<lambda>r. st\<lparr>ps_registry := r\<rparr>)
               (fail_actor X (task_actor t) (ps_registry st)))"

definition sim_process_task ::
  "('q, 's, 'n, 'd, 'z) rg_ext_scheme \<Rightarrow> 'e executor option \<Rightarrow> int \<Rightarrow> nat \<Rightarrow> task \<Rightarrow> 'd registry \<Rightarrow> 'e
   \<Rightarrow> (u64 \<times> 'd registry \<times> 'e) option" where
  "sim_process_task X ex unix_now n t r e =
     map_option (\<lambda>st. (ws_processed (ps_stats st), ps_registry st, ps_exec st))
       (process_task_safe X ex unix_now n t
          \<lparr>ps_registry = r, ps_stats = WorkerStats_default, ps_exec = e\<rparr>)"

section \<open>One turn of the worker loop\<close>

record worker_local =
  stealer :: work_stealer
  last_version :: u64
  iteration :: u32
  consecutive_empty :: u32

definition worker_start :: worker_local where
  "worker_start = \<lparr>stealer = WorkStealer_new [], last_version = 0, iteration = 0, consecutive_empty = 0\<rparr>"

definition run_task ::
  "('q, 's, 'n, 'd, 'i, 'w, 'z) sch_ext_scheme \<Rightarrow> int \<Rightarrow> nat \<Rightarrow> nat \<Rightarrow> task
   \<Rightarrow> ('d, 'i, 'w, 'e, 'p, 'm) scheduler \<Rightarrow> ('d, 'i, 'w, 'e, 'p, 'm) scheduler option" where
  "run_task X unix_now n wid t s =
     map_option (\<lambda>st. s\<lparr>registry_of := ps_registry st, exec_state := ps_exec st,
                        worker_stats_of := (worker_stats_of s)[wid := ps_stats st]\<rparr>)
       (process_task_safe X (executor_of s) unix_now n t
          \<lparr>ps_registry = registry_of s, ps_stats = worker_stats_of s ! wid, ps_exec = exec_state s\<rparr>)"

definition refresh_stealers ::
  "nat \<Rightarrow> ('d, 'i, 'w, 'e, 'p, 'm) scheduler \<Rightarrow> worker_local \<Rightarrow> worker_local" where
  "refresh_stealers wid s wl =
     (let wl = wl\<lparr>iteration := iteration wl + 1\<rparr>
      in if iteration wl mod max (stealer_refresh_interval (sched_config s)) 1 = 0
            \<and> version (stealer_registry_of s) \<noteq> last_version wl
         then wl\<lparr>stealer := WorkStealer_new (get_stealers wid (stealer_registry_of s)),
                 last_version := version (stealer_registry_of s)\<rparr>
         else wl)"

definition bump_stolen :: "nat \<Rightarrow> nat \<Rightarrow> worker_stats list \<Rightarrow> worker_stats list" where
  "bump_stolen wid k sts = sts[wid := (sts ! wid)\<lparr>ws_stolen := ws_stolen (sts ! wid) + of_nat k\<rparr>]"

text \<open>
  The body of the loop: the priority queue first, then the local deque, the global
  queue, a steal, a batch steal, and otherwise a pause, whose length has no effect on
  the state.
\<close>

definition worker_turn ::
  "('q, 's, 'n, 'd, 'i, 'w, 'z) sch_ext_scheme \<Rightarrow> int \<Rightarrow> nat \<Rightarrow> nat
   \<Rightarrow> worker_local \<times> ('d, 'i, 'w, 'e, 'p, 'm) scheduler
   \<Rightarrow> (worker_local \<times> ('d, 'i, 'w, 'e, 'p, 'm) scheduler) option" where
  "worker_turn X unix_now n wid cfg =
     (let (wl, s) = cfg;
          wl = refresh_stealers wid s wl;
          busy = (\<lambda>wl s t. map_option (\<lambda>s. (wl\<lparr>consecutive_empty := 0\<rparr>, s)) (run_task X unix_now n wid t s))
      in do {
        (t, pq) \<leftarrow> PriorityQueue_pop X (priority_queue_of s);
        let s = s\<lparr>priority_queue_of := pq\<rparr>;
        case t of Some t \<Rightarrow> busy wl s t | None \<Rightarrow>
          (case wk_pop X (deques s wid) of (t, d) \<Rightarrow>
             let s = s\<lparr>deques := (deques s)(wid := d)\<rparr>
             in case t of Some t \<Rightarrow> busy wl s t | None \<Rightarrow>
               do {
                 (t, gq) \<leftarrow> steal_global X (global_queue s);
                 let s = s\<lparr>global_queue := gq\<rparr>;
                 case t of Some t \<Rightarrow> busy wl s t | None \<Rightarrow>
                   do {
                     (t, ws, ds) \<leftarrow> WorkStealer_steal X (stealer wl) (deques s);
                     let wl = wl\<lparr>stealer := ws\<rparr>;
                     let s = s\<lparr>deques := ds\<rparr>;
                     case t of
                       Some t \<Rightarrow> busy wl (s\<lparr>worker_stats_of := bump_stolen wid 1 (worker_stats_of s)\<rparr>) t
                     | None \<Rightarrow>
                         do {
                           (stolen, ws, ds) \<leftarrow> steal_batch X wid (unat (max_steal_batch (sched_config s)))
                                                 (stealer wl) (deques s);
                           let wl = wl\<lparr>stealer := ws\<rparr>;
                     let s = s\<lparr>deques := ds\<rparr>;
                           if 0 < stolen
                           then Some (wl, s\<lparr>worker_stats_of := bump_stolen wid stolen (worker_stats_of s)\<rparr>)
                           else Some (wl\<lparr>consecutive_empty := consecutive_empty wl + 1\<rparr>, s)
                         }
                   }
               })
      })"

end
