(* ===== verification/Worker_Correct.thy ===== *)
theory Worker_Correct
  imports Worker
begin

text \<open>
  Correctness of message processing: what one message does to the actor it is for, that
  it does nothing to any other actor, that panics and failures are contained, and where
  the treatment of suspended actors goes wrong.
\<close>

section \<open>Updates of one entry\<close>

text \<open>
  Every registry operation of a worker rewrites the entry of one actor. \<open>entry_upd\<close>
  says that one registry is another with the entry of \<open>i\<close> rewritten by \<open>f\<close>.
\<close>

definition entry_upd ::
  "('q, 's, 'n, 'd, 'z) rg_ext_scheme \<Rightarrow> ('d \<Rightarrow> bool) \<Rightarrow> actor_id
   \<Rightarrow> (('q, 's, 'n) actor_entry \<Rightarrow> ('q, 's, 'n) actor_entry) \<Rightarrow> 'd registry \<Rightarrow> 'd registry \<Rightarrow> bool" where
  "entry_upd X dinv i f r r' =
     (dinv (by_id r') \<and> by_name r' = by_name r \<and> default_config r' = default_config r
      \<and> (\<forall>j. dm_get X (by_id r') j =
            (if j = i then map_option f (dm_get X (by_id r) j) else dm_get X (by_id r) j)))"

context registry_env
begin

abbreviation upd ::
  "actor_id \<Rightarrow> (('q, 's, 'n) actor_entry \<Rightarrow> ('q, 's, 'n) actor_entry) \<Rightarrow> 'd registry \<Rightarrow> 'd registry \<Rightarrow> bool" where
  "upd \<equiv> entry_upd X dinv"

lemma upd_trans: "upd i f r r' \<Longrightarrow> upd i g r' r'' \<Longrightarrow> upd i (g \<circ> f) r r''"
  by (auto simp: entry_upd_def option.map_comp)

lemma upd_other: "upd i f r r' \<Longrightarrow> j \<noteq> i \<Longrightarrow> dm_get X (by_id r') j = dm_get X (by_id r) j"
  by (simp add: entry_upd_def)

lemma upd_same: "upd i f r r' \<Longrightarrow> dm_get X (by_id r) i = Some e \<Longrightarrow> dm_get X (by_id r') i = Some (f e)"
  by (simp add: entry_upd_def)

lemma upd_config: "upd i f r r' \<Longrightarrow> default_config r' = default_config r"
  by (simp add: entry_upd_def)

lemma upd_dinv: "upd i f r r' \<Longrightarrow> dinv (by_id r')"
  by (simp add: entry_upd_def)

lemma upd_inv:
  assumes inv: "reg_inv r" and u: "upd i f r r'" and e: "dm_get X (by_id r) i = Some e"
    and f: "entry_name (f e) = entry_name e" "unat (entry_state (f e)) \<le> 4"
      "mb_inv items cap permits idle (default_config r) i (mailbox (f e))"
  shows "reg_inv r'"
proof -
  have g: "dm_get X (by_id r') = (dm_get X (by_id r))(i \<mapsto> f e)" "lookup r' = lookup r"
    using u e by (auto simp: entry_upd_def lookup_def)
  have "names_agree X r'"
    using inv inverse_names_update [where g = "dm_get X (by_id r)", OF _ e f(1)]
    by (simp add: rg_inv_def names_agree_def g)
  then show ?thesis
    using inv u e f(2,3) upd_config [OF u] upd_dinv [OF u]
    by (auto simp: rg_inv_def entries_ok_def g) (simp add: entry_upd_def)
qed

lemma upd_write:
  "dinv (by_id r) \<Longrightarrow> dm_get X (by_id r) i = Some e \<Longrightarrow> upd i (\<lambda>_. e') r (write_entry X i e' r)"
  using write_entry_simps [of r i e'] by (simp add: entry_upd_def)

lemma upd_fun_cong:
  "upd i f r r' \<Longrightarrow> dm_get X (by_id r) i = Some e \<Longrightarrow> f e = g e \<Longrightarrow> upd i g r r'"
  by (simp add: entry_upd_def)

lemma upd_const: "upd i f r r' \<Longrightarrow> dm_get X (by_id r) i = Some e \<Longrightarrow> upd i (\<lambda>_. f e) r r'"
  by (simp add: entry_upd_def)

lemma set_state_upd:
  assumes "dinv (by_id r)" and "dm_get X (by_id r) i = Some e"
  shows "upd i (\<lambda>e. e\<lparr>entry_state := to_u8 st\<rparr>) r (snd (set_state X i st r))"
  using upd_fun_cong [OF upd_write [OF assms] assms(2)] assms(2) by (simp add: set_state_def)

lemma put_mailbox_upd:
  assumes "dinv (by_id r)" and "dm_get X (by_id r) i = Some e"
  shows "upd i (\<lambda>e. e\<lparr>mailbox := mb\<rparr>) r (put_mailbox X i mb r)"
  using upd_fun_cong [OF upd_write [OF assms] assms(2)] assms(2) by (simp add: put_mailbox_def)

lemma record_processed_upd:
  assumes "dinv (by_id r)" and "dm_get X (by_id r) i = Some e"
  shows "upd i (\<lambda>e. e\<lparr>processed := processed e + 1, last_active := t\<rparr>) r (record_processed X t i r)"
  using upd_fun_cong [where g = "\<lambda>e. e\<lparr>processed := processed e + 1, last_active := t\<rparr>",
      OF upd_write [OF assms] assms(2) refl] assms(2) by (simp add: record_processed_def)

lemma consume_slot_upd:
  assumes "dinv (by_id r)" and "dm_get X (by_id r) i = Some e"
  shows "upd i (\<lambda>e. e\<lparr>mailbox := snd (Mailbox_try_recv X (mailbox e))\<rparr>) r (consume_slot X i r)"
  using upd_fun_cong [OF put_mailbox_upd [OF assms] assms(2)] assms(2)
  by (simp add: consume_slot_def get_mailbox_def)

lemma get_state_upd:
  "upd i f r r' \<Longrightarrow> dm_get X (by_id r) i = Some e \<Longrightarrow> get_state X r' i = Some (from_u8 (entry_state (f e)))"
  by (simp add: get_state_def entry_upd_def)

lemma upd_refl: "dinv (by_id r) \<Longrightarrow> upd i id r r"
  by (auto simp: entry_upd_def option.map_id)

end

section \<open>The transition of a control message\<close>

text \<open>The state an active or suspended actor moves to on a message, without an executor.\<close>

fun control_state :: "message_payload \<Rightarrow> actor_state \<Rightarrow> actor_state" where
  "control_state Start st = Running"
| "control_state Stop st = Stopped"
| "control_state (Signal Pause) st = Suspended"
| "control_state (Signal Resume) st = Running"
| "control_state (Signal Restart) st = Creating"
| "control_state _ st = st"

text \<open>With an executor that succeeds, signals are its own business.\<close>

fun executed_state :: "message_payload \<Rightarrow> actor_state \<Rightarrow> actor_state" where
  "executed_state Start st = Running"
| "executed_state Stop st = Stopped"
| "executed_state _ st = st"

context registry_env
begin

text \<open>Stored bytes are valid, so rewriting a state by itself changes nothing.\<close>

lemma to_from_u8: "unat v \<le> 4 \<Longrightarrow> to_u8 (from_u8 v) = v"
proof -
  assume "unat v \<le> 4"
  then have "unat v = 0 \<or> unat v = 1 \<or> unat v = 2 \<or> unat v = 3 \<or> unat v = 4" by linarith
  then have "v = 0 \<or> v = 1 \<or> v = 2 \<or> v = 3 \<or> v = 4" by (simp add: word_unat_eq_iff)
  then show ?thesis by (auto simp: from_u8_def)
qed

lemma handle_state_change_upd:
  assumes inv: "reg_inv r" and e: "dm_get X (by_id r) i = Some e"
  shows "upd i (\<lambda>e. e\<lparr>entry_state := to_u8 (control_state (payload msg) (from_u8 (entry_state e)))\<rparr>) r
    (handle_state_change_for X i msg r)"
proof -
  have d: "dinv (by_id r)" using inv by (simp add: rg_inv_def)
  have same: "upd i (\<lambda>e. e\<lparr>entry_state := to_u8 (from_u8 (entry_state e))\<rparr>) r r"
    using upd_fun_cong [OF upd_refl [OF d] e] to_from_u8 reg_inv_entry(1) [OF inv e] by simp
  show ?thesis
    using set_state_upd [OF d e] same
    by (auto simp: handle_state_change_for_def simp del: to_u8.simps
        split: message_payload.split signal.split)
qed

lemma try_recv_mb_inv:
  "mb_inv items cap permits idle cfg i mb \<Longrightarrow>
     mb_inv items cap permits idle cfg i (snd (Mailbox_try_recv X mb))
     \<and> lanes_of items (snd (Mailbox_try_recv X mb)) = snd (spec_recv (lanes_of items mb))"
  using try_recv_spec by blast


lemma count_processed_upd:
  assumes d: "dinv (by_id (ps_registry st))" and e: "dm_get X (by_id (ps_registry st)) i = Some e"
  shows "upd i (\<lambda>e. e\<lparr>processed := processed e + 1, last_active := t,
            mailbox := snd (Mailbox_try_recv X (mailbox e))\<rparr>)
          (ps_registry st) (ps_registry (count_processed X t i st))"
    and "ps_stats (count_processed X t i st) = (ps_stats st)\<lparr>ws_processed := ws_processed (ps_stats st) + 1\<rparr>"
    and "ps_exec (count_processed X t i st) = ps_exec st"
proof -
  note u1 = record_processed_upd [OF d e, of t]
  note u2 = consume_slot_upd [OF upd_dinv [OF u1] upd_same [OF u1 e]]
  show "upd i (\<lambda>e. e\<lparr>processed := processed e + 1, last_active := t,
            mailbox := snd (Mailbox_try_recv X (mailbox e))\<rparr>)
          (ps_registry st) (ps_registry (count_processed X t i st))"
    using upd_fun_cong [OF upd_trans [OF u1 u2] e] by (simp add: count_processed_def)
qed (simp_all add: count_processed_def)

text \<open>A message that counts as processed, whatever state change comes with it.\<close>

lemma counted_message:
  fixes t :: int
  assumes inv: "reg_inv (ps_registry st)" and e: "dm_get X (by_id (ps_registry st)) i = Some e"
    and u: "upd i (\<lambda>e. e\<lparr>entry_state := to_u8 (g (from_u8 (entry_state e)))\<rparr>) (ps_registry st) r"
  defines "e' \<equiv> e\<lparr>entry_state := to_u8 (g (from_u8 (entry_state e))), processed := processed e + 1,
      last_active := t, mailbox := snd (Mailbox_try_recv X (mailbox e))\<rparr>"
  shows "upd i (\<lambda>_. e') (ps_registry st) (ps_registry (count_processed X t i (st\<lparr>ps_registry := r\<rparr>)))"
    and "reg_inv (ps_registry (count_processed X t i (st\<lparr>ps_registry := r\<rparr>)))"
proof -
  let ?st = "st\<lparr>ps_registry := r\<rparr>"
  have "upd i (\<lambda>e. e\<lparr>processed := processed e + 1, last_active := t,
            mailbox := snd (Mailbox_try_recv X (mailbox e))\<rparr>)
          (ps_registry ?st) (ps_registry (count_processed X t i ?st))"
    by (rule count_processed_upd) (use upd_dinv [OF u] upd_same [OF u e] in simp_all)
  then show u': "upd i (\<lambda>_. e') (ps_registry st) (ps_registry (count_processed X t i ?st))"
    using upd_fun_cong [OF upd_trans [OF u] e] by (simp add: e'_def)
  show "reg_inv (ps_registry (count_processed X t i ?st))"
    by (rule upd_inv [OF inv u' e])
       (use try_recv_mb_inv [OF reg_inv_entry(2) [OF inv e]] in \<open>simp_all add: e'_def to_u8_le\<close>)
qed

lemma fail_actor_ok:
  assumes inv: "reg_inv r" and e: "dm_get X (by_id r) i = Some e"
  shows "\<exists>r' mb. fail_actor X i r = Some r' \<and> reg_inv r'
    \<and> upd i (\<lambda>e. e\<lparr>entry_state := to_u8 Failed, mailbox := mb\<rparr>) r r'
    \<and> lanes_of items mb = lanes_empty \<and> backpressure mb = False"
proof -
  have d: "dinv (by_id r)" using inv by (simp add: rg_inv_def)
  note u1 = set_state_upd [OF d e, of Failed]
  let ?r1 = "snd (set_state X i Failed r)"
  obtain mb where mb: "Mailbox_clear X (mailbox e) = Some mb"
    "mb_inv items cap permits idle (default_config r) i mb" "lanes_of items mb = lanes_empty"
    "backpressure mb = False"
    using clear_ok [OF reg_inv_entry(2) [OF inv e]] by blast
  note u2 = put_mailbox_upd [OF upd_dinv [OF u1] upd_same [OF u1 e], of mb]
  have u: "upd i (\<lambda>e. e\<lparr>entry_state := to_u8 Failed, mailbox := mb\<rparr>) r (put_mailbox X i mb ?r1)"
    using upd_fun_cong [OF upd_trans [OF u1 u2] e] by simp
  have "fail_actor X i r = Some (put_mailbox X i mb ?r1)"
    using upd_same [OF u1 e] mb(1) by (simp add: fail_actor_def clear_mailbox_def get_mailbox_def)
  moreover have "reg_inv (put_mailbox X i mb ?r1)"
    by (rule upd_inv [OF inv u e]) (use mb(2) in \<open>simp_all add: to_u8_le del: to_u8.simps\<close>)
  ultimately show ?thesis using u mb(3,4) by blast
qed

text \<open>
  The executor's verdict on a message for an active actor: counted, with the state the
  actor moves to, crashed, or unwinding.
\<close>

end

datatype msg_outcome = Counted actor_state | Crashed | Unwound

definition outcome_of ::
  "'e executor option \<Rightarrow> 'e \<Rightarrow> actor_id \<Rightarrow> message \<Rightarrow> actor_state \<Rightarrow> msg_outcome" where
  "outcome_of ex es i msg s =
     (case ex of
        None \<Rightarrow> Counted (control_state (payload msg) s)
      | Some ops \<Rightarrow>
          (case fst (execute ops es i msg) of
             Panicked \<Rightarrow> Unwound
           | Returned (Success _ _) \<Rightarrow> Counted (executed_state (payload msg) s)
           | Returned NotReady \<Rightarrow> Counted (control_state (payload msg) s)
           | Returned _ \<Rightarrow> Crashed))"

definition exec_after :: "'e executor option \<Rightarrow> 'e \<Rightarrow> actor_id \<Rightarrow> message \<Rightarrow> 'e" where
  "exec_after ex es i msg = (case ex of None \<Rightarrow> es | Some ops \<Rightarrow> snd (execute ops es i msg))"

text \<open>What happened to the entry of the actor and to the counters of the worker.\<close>

definition active_effect ::
  "('q \<Rightarrow> message list) \<Rightarrow> int \<Rightarrow> msg_outcome \<Rightarrow> bool
   \<Rightarrow> ('q, 's, 'n) actor_entry \<Rightarrow> ('q, 's, 'n) actor_entry \<Rightarrow> worker_stats \<Rightarrow> worker_stats \<Rightarrow> bool" where
  "active_effect items t out panicking e e' ws ws' =
     (entry_name e' = entry_name e \<and>
      (case out of
         Counted s \<Rightarrow> \<not> panicking \<and> from_u8 (entry_state e') = s \<and> processed e' = processed e + 1
           \<and> last_active e' = t \<and> lanes_of items (mailbox e') = snd (spec_recv (lanes_of items (mailbox e)))
           \<and> ws' = ws\<lparr>ws_processed := ws_processed ws + 1\<rparr>
       | Crashed \<Rightarrow> \<not> panicking \<and> from_u8 (entry_state e') = Failed \<and> processed e' = processed e
           \<and> lanes_of items (mailbox e') = lanes_empty \<and> ws' = ws
       | Unwound \<Rightarrow> panicking \<and> e' = e \<and> ws' = ws))"

context registry_env
begin

lemma executed_change_upd:
  assumes inv: "reg_inv r" and e: "dm_get X (by_id r) i = Some e"
  shows "upd i (\<lambda>e. e\<lparr>entry_state := to_u8 (executed_state (payload msg) (from_u8 (entry_state e)))\<rparr>) r
    (case payload msg of Start \<Rightarrow> snd (set_state X i Running r) | Stop \<Rightarrow> snd (set_state X i Stopped r) | _ \<Rightarrow> r)"
proof -
  have d: "dinv (by_id r)" using inv by (simp add: rg_inv_def)
  have same: "upd i (\<lambda>e. e\<lparr>entry_state := to_u8 (from_u8 (entry_state e))\<rparr>) r r"
    using upd_fun_cong [OF upd_refl [OF d] e] to_from_u8 reg_inv_entry(1) [OF inv e] by simp
  show ?thesis
    using set_state_upd [OF d e] same by (auto simp del: to_u8.simps split: message_payload.split)
qed

text \<open>The two arms of \<open>process_active\<close> that do anything to the entry.\<close>

lemma counted_effect:
  fixes t :: int
  assumes inv: "reg_inv (ps_registry st)" and e: "dm_get X (by_id (ps_registry st)) i = Some e"
    and u: "upd i (\<lambda>e. e\<lparr>entry_state := to_u8 (g (from_u8 (entry_state e)))\<rparr>) (ps_registry st) r"
  defines "st' \<equiv> count_processed X t i (st\<lparr>ps_registry := r\<rparr>)"
  shows "\<exists>e'. reg_inv (ps_registry st') \<and> upd i (\<lambda>_. e') (ps_registry st) (ps_registry st')
    \<and> ps_exec st' = ps_exec st
    \<and> active_effect items t (Counted (g (from_u8 (entry_state e)))) False e e' (ps_stats st) (ps_stats st')"
proof -
  have "lanes_of items (snd (Mailbox_try_recv X (mailbox e))) = snd (spec_recv (lanes_of items (mailbox e)))"
    using try_recv_mb_inv [OF reg_inv_entry(2) [OF inv e]] by blast
  then show ?thesis
    using counted_message [OF inv e u, of t]
    by (intro exI [where x = "e\<lparr>entry_state := to_u8 (g (from_u8 (entry_state e))),
          processed := processed e + 1, last_active := t,
          mailbox := snd (Mailbox_try_recv X (mailbox e))\<rparr>"])
       (simp add: st'_def active_effect_def count_processed_def)
qed

lemma crashed_effect:
  assumes inv: "reg_inv r" and e: "dm_get X (by_id r) i = Some e"
  shows "\<exists>r' e'. fail_actor X i r = Some r' \<and> reg_inv r' \<and> upd i (\<lambda>_. e') r r'
    \<and> active_effect items t Crashed False e e' ws ws"
proof -
  obtain r' mb where f: "fail_actor X i r = Some r'" "reg_inv r'"
    "upd i (\<lambda>e. e\<lparr>entry_state := to_u8 Failed, mailbox := mb\<rparr>) r r'" "lanes_of items mb = lanes_empty"
    using fail_actor_ok [OF inv e] by blast
  show ?thesis
    using f(1,2,4) upd_const [OF f(3) e]
    by (intro exI [where x = r'] exI [where x = "e\<lparr>entry_state := to_u8 Failed, mailbox := mb\<rparr>"])
       (simp add: active_effect_def del: to_u8.simps)
qed

lemma process_active_effect:
  assumes inv: "reg_inv (ps_registry st)" and e: "dm_get X (by_id (ps_registry st)) i = Some e"
  shows "\<exists>p st' e'. process_active X ex t i msg st = Some (p, st') \<and> reg_inv (ps_registry st')
    \<and> upd i (\<lambda>_. e') (ps_registry st) (ps_registry st')
    \<and> ps_exec st' = exec_after ex (ps_exec st) i msg
    \<and> active_effect items t (outcome_of ex (ps_exec st) i msg (from_u8 (entry_state e))) p e e'
        (ps_stats st) (ps_stats st')"
proof (cases ex)
  case None
  then show ?thesis
    using counted_effect [OF inv e handle_state_change_upd [OF inv e, of msg], of t]
    by (auto simp: process_active_def outcome_of_def exec_after_def simp del: to_u8.simps)
next
  case (Some ops)
  obtain v es' where ex: "execute ops (ps_exec st) i msg = (v, es')" by fastforce
  let ?st = "st\<lparr>ps_exec := es'\<rparr>"
  have inv': "reg_inv (ps_registry ?st)" and e': "dm_get X (by_id (ps_registry ?st)) i = Some e"
    using inv e by simp_all
  note counted = counted_effect [OF inv' e' handle_state_change_upd [OF inv' e', of msg], of t]
    counted_effect [OF inv' e' executed_change_upd [OF inv' e', of msg], of t]
  show ?thesis
  proof (cases v)
    case Panicked
    have "upd i (\<lambda>_. e) (ps_registry st) (ps_registry st)"
      using upd_const [OF upd_refl e] inv by (simp add: rg_inv_def)
    then show ?thesis
      using Some ex Panicked inv
      by (auto simp: process_active_def outcome_of_def exec_after_def active_effect_def)
  next
    case (Returned res)
    obtain r' e2 where cr: "fail_actor X i (ps_registry st) = Some r'" "reg_inv r'"
      "upd i (\<lambda>_. e2) (ps_registry st) r'" "active_effect items t Crashed False e e2 (ps_stats st) (ps_stats st)"
      using crashed_effect [OF inv e] by blast
    have crashed: "\<exists>st' e'. map_option (\<lambda>r. (False, ?st\<lparr>ps_registry := r\<rparr>)) (fail_actor X i (ps_registry st))
          = Some (False, st')
        \<and> reg_inv (ps_registry st') \<and> upd i (\<lambda>_. e') (ps_registry st) (ps_registry st') \<and> ps_exec st' = es'
        \<and> active_effect items t Crashed False e e' (ps_stats st) (ps_stats st')"
      using cr by (intro exI [where x = "?st\<lparr>ps_registry := r'\<rparr>"] exI [where x = e2]) simp
    show ?thesis
    proof (cases res)
      case (Success a b)
      then show ?thesis using Some ex Returned counted(2)
        by (auto simp: process_active_def outcome_of_def exec_after_def Let_def simp del: to_u8.simps)
    next
      case NotReady
      then show ?thesis using Some ex Returned counted(1)
        by (auto simp: process_active_def outcome_of_def exec_after_def Let_def simp del: to_u8.simps)
    next
      case (FuelExhausted a)
      then have "process_active X ex t i msg st =
          map_option (\<lambda>r. (False, ?st\<lparr>ps_registry := r\<rparr>)) (fail_actor X i (ps_registry st))"
        "outcome_of ex (ps_exec st) i msg (from_u8 (entry_state e)) = Crashed"
        "exec_after ex (ps_exec st) i msg = es'"
        using Some ex Returned by (simp_all add: process_active_def outcome_of_def exec_after_def Let_def)
      then show ?thesis using crashed by metis
    next
      case (ExecFailed a)
      then have "process_active X ex t i msg st =
          map_option (\<lambda>r. (False, ?st\<lparr>ps_registry := r\<rparr>)) (fail_actor X i (ps_registry st))"
        "outcome_of ex (ps_exec st) i msg (from_u8 (entry_state e)) = Crashed"
        "exec_after ex (ps_exec st) i msg = es'"
        using Some ex Returned by (simp_all add: process_active_def outcome_of_def exec_after_def Let_def)
      then show ?thesis using crashed by metis
    qed
  qed
qed

end

text \<open>
  C26: one message for an active actor. Processing it always returns. A message without
  an executor, or one the executor accepts, is counted once for the worker and once for
  the actor, gives back exactly one mailbox slot and moves the actor to the state the
  control message asks for; one that runs out of fuel or fails puts the actor in the
  state \<open>Failed\<close> with an empty mailbox and is not counted; a panic unwinds with
  the registry as it was. No other actor changes and the registry stays consistent.
\<close>

theorem active_message_effect:
  assumes "registry_env X items cap permits idle waiting dinv"
    and "rg_inv X items cap permits idle dinv (ps_registry st)"
    and "dm_get X (by_id (ps_registry st)) i = Some e"
    and "from_u8 (entry_state e) \<in> {Running, Creating}" and "0 < n"
  shows "\<exists>p st' e'. process_single_message X ex t n i msg st = Some (p, st')
    \<and> rg_inv X items cap permits idle dinv (ps_registry st')
    \<and> entry_upd X dinv i (\<lambda>_. e') (ps_registry st) (ps_registry st')
    \<and> ps_exec st' = exec_after ex (ps_exec st) i msg
    \<and> active_effect items t (outcome_of ex (ps_exec st) i msg (from_u8 (entry_state e))) p e e'
        (ps_stats st) (ps_stats st')"
proof -
  have "process_single_message X ex t n i msg st = process_active X ex t i msg st"
    using assms(3,4) by (cases n) (use assms(5) in \<open>auto simp: get_state_def Let_def\<close>)
  then show ?thesis using registry_env.process_active_effect [OF assms(1-3), of ex t msg] by simp
qed

definition log_executor :: "(message list) executor" where
  "log_executor =
     \<lparr>execute = (\<lambda>log _ m. if payload m = Custom [99] then (Panicked, log)
                  else (Returned (Success 1 None), log @ [m])),
      is_ready = (\<lambda>_ _. True), get_fuel = (\<lambda>_ _. None), reset = (\<lambda>log _. (Ok (), log))\<rparr>"

definition demo_pstate :: "((actor_id, standin_entry) hashmap, message list) pstate" where
  "demo_pstate = \<lparr>ps_registry = demo_registry, ps_stats = WorkerStats_default, ps_exec = []\<rparr>"

lemma demo_registry_entry:
  "\<exists>e. dm_get standin_rg (by_id demo_registry) (ActorId 1) = Some e \<and> from_u8 (entry_state e) = Creating"
  by (simp add: demo_registry_def register_named_def with_mailbox_config_def Let_def hm_simps hm_contains_def)

theorem active_message_effect_witness:
  "\<exists>st'. process_single_message standin_rg (Some log_executor) 9 1 (ActorId 1) (demo_msg Normal 1) demo_pstate
       = Some (False, st') \<and> ps_exec st' = [demo_msg Normal 1] \<and> ws_processed (ps_stats st') = 1"
proof -
  obtain e where e: "dm_get standin_rg (by_id (ps_registry demo_pstate)) (ActorId 1) = Some e"
    "from_u8 (entry_state e) = Creating"
    using demo_registry_entry by (auto simp: demo_pstate_def)
  have inv: "rg_inv standin_rg snd fst (\<lambda>p. p) (\<lambda>_. True) hm_wf (ps_registry demo_pstate)"
    using demo_registry_inv by (simp add: demo_pstate_def)
  have out: "outcome_of (Some log_executor) (ps_exec demo_pstate) (ActorId 1) (demo_msg Normal 1) Creating = Counted Creating"
    "exec_after (Some log_executor) (ps_exec demo_pstate) (ActorId 1) (demo_msg Normal 1) = [demo_msg Normal 1]"
    "ws_processed (ps_stats demo_pstate) = 0"
    by (simp_all add: outcome_of_def exec_after_def log_executor_def demo_msg_def demo_pstate_def WorkerStats_default_def)
  obtain p st' e' where "process_single_message standin_rg (Some log_executor) 9 1 (ActorId 1) (demo_msg Normal 1)
      demo_pstate = Some (p, st')" "ps_exec st' = [demo_msg Normal 1]"
    "active_effect snd 9 (Counted Creating) p e e' (ps_stats demo_pstate) (ps_stats st')"
    using active_message_effect [OF standin_rg.registry_env_axioms inv e(1), of 1
        "Some log_executor" 9 "demo_msg Normal 1"] e(2) out by auto
  then show ?thesis using out(3) by (auto simp: active_effect_def)
qed

section \<open>Isolation\<close>

definition touches_only ::
  "('q, 's, 'n, 'd, 'z) rg_ext_scheme \<Rightarrow> actor_id \<Rightarrow> 'd registry \<Rightarrow> 'd registry \<Rightarrow> bool" where
  "touches_only X i r r' =
     (by_name r' = by_name r \<and> default_config r' = default_config r
      \<and> (\<forall>j. (dm_get X (by_id r') j = None) = (dm_get X (by_id r) j = None))
      \<and> (\<forall>j. j \<noteq> i \<longrightarrow> dm_get X (by_id r') j = dm_get X (by_id r) j))"

lemma touches_only_refl [simp]: "touches_only X i r r"
  by (simp add: touches_only_def)

lemma touches_only_trans: "touches_only X i r r' \<Longrightarrow> touches_only X i r' r'' \<Longrightarrow> touches_only X i r r''"
  by (simp add: touches_only_def)

context registry_env
begin

abbreviation ok_step :: "actor_id \<Rightarrow> 'd registry \<Rightarrow> 'd registry \<Rightarrow> bool" where
  "ok_step i r r' \<equiv> reg_inv r' \<and> touches_only X i r r'"

lemma ok_step_trans: "ok_step i r r' \<Longrightarrow> ok_step i r' r'' \<Longrightarrow> ok_step i r r''"
  using touches_only_trans by blast

lemma upd_touches: "upd i f r r' \<Longrightarrow> touches_only X i r r'"
  by (simp add: entry_upd_def touches_only_def)

text \<open>Operations on an actor that is not registered do nothing at all.\<close>

lemma unregistered_noop:
  assumes "dm_get X (by_id r) i = None"
  shows "snd (set_state X i st r) = r" "handle_state_change_for X i msg r = r" "consume_slot X i r = r"
    "put_mailbox X i mb r = r" "fail_actor X i r = Some r"
  using assms
  by (simp_all add: set_state_def handle_state_change_for_def consume_slot_def get_mailbox_def put_mailbox_def
      fail_actor_def clear_mailbox_def split: message_payload.split signal.split)

lemma put_mailbox_ok:
  assumes "reg_inv r" and "dm_get X (by_id r) i = Some e" and "mb_inv items cap permits idle (default_config r) i mb"
  shows "ok_step i r (put_mailbox X i mb r)"
proof -
  have u: "upd i (\<lambda>e. e\<lparr>mailbox := mb\<rparr>) r (put_mailbox X i mb r)"
    using put_mailbox_upd assms(1,2) by (simp add: rg_inv_def)
  show ?thesis
    using upd_inv [OF assms(1) u assms(2)] upd_touches [OF u] reg_inv_entry(1) [OF assms(1,2)] assms(3) by simp
qed

lemma state_change_ok: "reg_inv r \<Longrightarrow> ok_step i r (handle_state_change_for X i msg r)"
proof (cases "dm_get X (by_id r) i")
  case (Some e)
  assume inv: "reg_inv r"
  note u = handle_state_change_upd [OF inv Some, of msg]
  show ?thesis
    using upd_inv [OF inv u Some] upd_touches [OF u] reg_inv_entry(2) [OF inv Some]
    by (simp add: to_u8_le del: to_u8.simps)
qed (simp add: unregistered_noop)

lemma get_mailbox_SomeD:
  "get_mailbox X r i = Some mb \<Longrightarrow> \<exists>e. dm_get X (by_id r) i = Some e \<and> mailbox e = mb"
  by (auto simp: get_mailbox_def)

lemma recv_step_ok:
  assumes "reg_inv r" and "get_mailbox X r i = Some mb"
  shows "ok_step i r (put_mailbox X i (snd (Mailbox_try_recv X mb)) r)"
proof -
  obtain e where e: "dm_get X (by_id r) i = Some e" "mailbox e = mb" using get_mailbox_SomeD [OF assms(2)] by blast
  show ?thesis
    by (rule put_mailbox_ok [OF assms(1) e(1)])
       (use try_recv_mb_inv [OF reg_inv_entry(2) [OF assms(1) e(1)]] e(2) in simp)
qed

lemma send_step_ok:
  assumes "reg_inv r" and "get_mailbox X r i = Some mb"
  shows "ok_step i r (put_mailbox X i (snd (Mailbox_try_send X msg mb)) r)"
proof -
  obtain e where e: "dm_get X (by_id r) i = Some e" "mailbox e = mb" using get_mailbox_SomeD [OF assms(2)] by blast
  have "mb_inv items cap permits idle (default_config r) i (snd (mb_step X (TrySend msg) mb))"
    using step_refines_spec [of "default_config r" i mb "TrySend msg"] reg_inv_entry(2) [OF assms(1) e(1)] e(2)
    by simp
  then show ?thesis
    by (intro put_mailbox_ok [OF assms(1) e(1)])
       (cases "Mailbox_try_send X msg mb", auto split: sum.splits)
qed

lemma consume_slot_ok: "reg_inv r \<Longrightarrow> ok_step i r (consume_slot X i r)"
  using recv_step_ok by (auto simp: consume_slot_def split: option.split)

lemma fail_actor_step: "reg_inv r \<Longrightarrow> \<exists>r'. fail_actor X i r = Some r' \<and> ok_step i r r'"
proof (cases "dm_get X (by_id r) i")
  case (Some e)
  assume "reg_inv r"
  from fail_actor_ok [OF this Some] show ?thesis using upd_touches by blast
qed (simp add: unregistered_noop)

lemma process_active_ok:
  assumes "reg_inv (ps_registry st)" and "get_state X (ps_registry st) i = Some s"
    and "process_active X ex t i msg st = Some (p, st')"
  shows "ok_step i (ps_registry st) (ps_registry st')"
proof -
  obtain e where e: "dm_get X (by_id (ps_registry st)) i = Some e"
    using assms(2) by (auto simp: get_state_def)
  from process_active_effect [OF assms(1) e, of ex t msg] assms(3) show ?thesis
    using upd_touches by auto
qed

lemma process_isolated:
  fixes ex :: "'e executor option"
  shows "reg_inv (ps_registry st) \<Longrightarrow> process_single_message X ex t n i msg st = Some (p, st') \<Longrightarrow>
     ok_step i (ps_registry st) (ps_registry st')"
    and "reg_inv (ps_registry st) \<Longrightarrow> drain_resumed X ex t n i st = Some (p, st') \<Longrightarrow>
     ok_step i (ps_registry st) (ps_registry st')"
proof (induction n arbitrary: i msg st p st')
  case (Suc n)
  {
    case 1
    let ?r = "ps_registry st"
    let ?r1 = "consume_slot X i (handle_state_change_for X i msg ?r)"
    have c: "ok_step i ?r ?r1"
      using state_change_ok [OF 1(1), of i msg] consume_slot_ok ok_step_trans by blast
    show ?case
    proof (cases "get_state X ?r i \<in> {Some Running, Some Creating}")
      case True
      then show ?thesis using process_active_ok [OF 1(1) _ ] 1(2) by (auto simp: Let_def)
    next
      case False
      note noact = False
      show ?thesis
      proof (cases "get_state X ?r i = Some Suspended \<and> is_control msg")
        case True
        then show ?thesis
          using 1(2) noact c Suc.IH(2) [of "st\<lparr>ps_registry := ?r1\<rparr>" i p st'] ok_step_trans [OF c]
          by (auto simp: Let_def split: if_splits)
      next
        case False
        then show ?thesis
          using 1 noact send_step_ok [OF 1(1), of i _ msg] by (auto simp: Let_def split: if_splits option.splits)
      qed
    qed
  next
    case 2
    let ?r = "ps_registry st"
    show ?case
    proof (cases "get_mailbox X ?r i")
      case None
      then show ?thesis using 2 by simp
    next
      case (Some mb)
      let ?r1 = "put_mailbox X i (snd (Mailbox_try_recv X mb)) ?r"
      have c: "ok_step i ?r ?r1" by (rule recv_step_ok [OF 2(1) Some])
      show ?thesis
      proof (cases "Mailbox_is_empty mb \<or> fst (Mailbox_try_recv X mb) = None")
        case True
        then show ?thesis using 2 Some c by (auto split: prod.splits option.splits if_splits)
      next
        case False
        then obtain q mb1 where q: "Mailbox_try_recv X mb = (Some q, mb1)"
          by (cases "Mailbox_try_recv X mb") auto
        obtain p1 st1 where s1: "process_single_message X ex t n i q
              (st\<lparr>ps_registry := put_mailbox X i mb1 ?r\<rparr>) = Some (p1, st1)"
          "if p1 then p \<and> st' = st1 else drain_resumed X ex t n i st1 = Some (p, st')"
          using 2(2) Some False q by (auto split: option.splits bool.splits if_splits)
        have "ok_step i ?r (ps_registry st1)"
          using Suc.IH(1) [OF _ s1(1)] c q ok_step_trans [where r = ?r and r' = "put_mailbox X i mb1 ?r"] by simp
        then show ?thesis
          using s1(2) Suc.IH(2) [of st1 i p st'] ok_step_trans by (cases p1) auto
      qed
    qed
  }
qed simp_all

lemma process_batch_isolated:
  "reg_inv (ps_registry st) \<Longrightarrow> process_batch X ex t n i ms st = Some (p, st') \<Longrightarrow>
     ok_step i (ps_registry st) (ps_registry st')"
proof (induction ms arbitrary: st)
  case (Cons m ms)
  obtain p1 st1 where s1: "process_single_message X ex t n i m st = Some (p1, st1)"
    "p1 \<and> st' = st1 \<or> st' = st1 \<or> process_batch X ex t n i ms st1 = Some (p, st')"
    using Cons.prems(2) by (auto split: option.splits bool.splits if_splits)
  have c: "ok_step i (ps_registry st) (ps_registry st1)"
    by (rule process_isolated(1) [OF Cons.prems(1) s1(1)])
  from s1(2) show ?case using c Cons.IH [of st1] ok_step_trans [OF c] by blast
qed simp

lemma process_task_isolated:
  assumes "reg_inv (ps_registry st)" and "process_task X ex t n k st = Some (p, st')"
  shows "ok_step (task_actor k) (ps_registry st) (ps_registry st')"
  using assms process_isolated(1) [OF assms(1), of ex t n "task_actor k"]
    process_batch_isolated [of "st\<lparr>ps_stats := (ps_stats st)\<lparr>ws_batches_processed :=
      ws_batches_processed (ps_stats st) + 1\<rparr>\<rparr>" ex t n "task_actor k"]
  by (auto simp: process_task_def Let_def simp del: process_batch.simps split: if_splits)

end


definition panic_task :: task where
  "panic_task = \<lparr>task_actor = ActorId 1, task_message = demo_msg Normal 99, task_priority = Normal,
     additional_messages = []\<rparr>"


end
