(* ===== verification/Worker_Suspension.thy ===== *)
theory Worker_Suspension
  imports Worker_Correct
begin

text \<open>
  Suspended actors: what happens to the messages that arrive during a suspension, and
  what the drain after a resume does with them. The comments of
  \<open>process_single_message\<close> promise that a queued message keeps its place and that
  everything behind a resume is run; the theorems here say what is really done.
\<close>

section \<open>Turns of the drain\<close>

context registry_env
begin

lemma lanes_len_bound:
  "mb_inv items cap permits idle cfg i mb \<Longrightarrow> lanes_len (lanes_of items mb) \<le> unat (capacity cfg)"
  by (simp add: mb_inv_def)

lemma mailbox_empty_iff:
  assumes "mb_inv items cap permits idle cfg i mb"
  shows "Mailbox_is_empty mb \<longleftrightarrow> lanes_len (lanes_of items mb) = 0"
proof -
  have "mb_size mb = 0 \<longleftrightarrow> unat (mb_size mb) = 0" by (simp add: word_unat_eq_iff)
  then show ?thesis using assms by (simp add: mb_inv_def Mailbox_is_empty_def Mailbox_len_def)
qed

lemma spec_recv_len: "spec_recv l = (Some q, l') \<Longrightarrow> Suc (lanes_len l') = lanes_len l"
  by (auto simp: spec_recv_def lanes_len_def split: list.splits)

lemma lanes_add_len: "0 < lanes_len (lanes_add cfg q l)"
  by (simp add: lanes_add_def lanes_len_def)

lemma spec_recv_some: "0 < lanes_len l \<Longrightarrow> \<exists>q l'. spec_recv l = (Some q, l')"
  by (cases "critical_lane l"; cases "normal_lane l") (simp_all add: spec_recv_def lanes_len_def)

lemma drain_empty:
  assumes "reg_inv (ps_registry st)" and "dm_get X (by_id (ps_registry st)) i = Some e"
    and "lanes_of items (mailbox e) = lanes_empty"
  shows "drain_resumed X ex t (Suc n) i st = Some (False, st)"
  using mailbox_empty_iff [OF reg_inv_entry(2) [OF assms(1,2)]] assms(2,3)
  by (simp add: get_mailbox_def lanes_empty_def lanes_len_def)

lemma drain_turn:
  assumes inv: "reg_inv (ps_registry st)" and e: "dm_get X (by_id (ps_registry st)) i = Some e"
    and q: "spec_recv (lanes_of items (mailbox e)) = (Some q, l)"
  obtains mb r where "lanes_of items mb = l" "reg_inv r" "default_config r = default_config (ps_registry st)"
    "dm_get X (by_id r) i = Some (e\<lparr>mailbox := mb\<rparr>)"
    "drain_resumed X ex t (Suc n) i st =
       (case process_single_message X ex t n i q (st\<lparr>ps_registry := r\<rparr>) of
          None \<Rightarrow> None | Some (True, st) \<Rightarrow> Some (True, st) | Some (False, st) \<Rightarrow> drain_resumed X ex t n i st)"
proof -
  let ?r = "ps_registry st"
  have mi: "mb_inv items cap permits idle (default_config ?r) i (mailbox e)" by (rule reg_inv_entry(2) [OF inv e])
  obtain mb where mb: "Mailbox_try_recv X (mailbox e) = (Some q, mb)" "lanes_of items mb = l"
    "mb_inv items cap permits idle (default_config ?r) i mb"
    using try_recv_spec [OF mi] q by (cases "Mailbox_try_recv X (mailbox e)") auto
  have ne: "\<not> Mailbox_is_empty (mailbox e)"
    using mailbox_empty_iff [OF mi] spec_recv_len [OF q] by simp
  have d: "dinv (by_id ?r)" using inv by (simp add: rg_inv_def)
  note u = put_mailbox_upd [OF d e, of mb]
  show ?thesis
  proof (rule that)
    show "reg_inv (put_mailbox X i mb ?r)" using put_mailbox_ok [OF inv e mb(3)] by simp
    show "dm_get X (by_id (put_mailbox X i mb ?r)) i = Some (e\<lparr>mailbox := mb\<rparr>)" by (rule upd_same [OF u e])
    show "default_config (put_mailbox X i mb ?r) = default_config ?r" by (rule upd_config [OF u])
  qed (use e ne mb in \<open>simp_all add: get_mailbox_def\<close>)
qed

text \<open>A suspended actor puts an ordinary message back, behind the ones that wait already.\<close>

lemma suspended_requeue:
  assumes inv: "reg_inv (ps_registry st)" and e: "dm_get X (by_id (ps_registry st)) i = Some e"
    and s: "from_u8 (entry_state e) = Suspended" and m: "\<not> is_control msg"
  shows "\<exists>mb r. process_single_message X ex t (Suc n) i msg st = Some (False, st\<lparr>ps_registry := r\<rparr>)
    \<and> lanes_of items mb = snd (spec_send (default_config (ps_registry st)) msg (lanes_of items (mailbox e)))
    \<and> upd i (\<lambda>e. e\<lparr>mailbox := mb\<rparr>) (ps_registry st) r \<and> reg_inv r
    \<and> dm_get X (by_id r) i = Some (e\<lparr>mailbox := mb\<rparr>)"
proof -
  let ?r = "ps_registry st" and ?mb = "snd (Mailbox_try_send X msg (mailbox e))"
  have d: "dinv (by_id ?r)" using inv by (simp add: rg_inv_def)
  have mi: "mb_inv items cap permits idle (default_config ?r) i (mailbox e)" by (rule reg_inv_entry(2) [OF inv e])
  have gm: "get_mailbox X ?r i = Some (mailbox e)" using e by (simp add: get_mailbox_def)
  have "lanes_of items ?mb = snd (spec_send (default_config ?r) msg (lanes_of items (mailbox e)))"
    using step_refines_spec [OF mi, of "TrySend msg"]
    by (cases "Mailbox_try_send X msg (mailbox e)"; cases "fst (Mailbox_try_send X msg (mailbox e))")
       (auto split: prod.splits bool.splits sum.splits)
  moreover note u = put_mailbox_upd [OF d e, of ?mb]
  moreover have "process_single_message X ex t (Suc n) i msg st =
      Some (False, st\<lparr>ps_registry := put_mailbox X i ?mb ?r\<rparr>)"
    using e s m by (simp add: get_state_def get_mailbox_def Let_def)
  ultimately show ?thesis
    using send_step_ok [OF inv gm, of msg] upd_same [OF u e] by blast
qed

text \<open>Once the drain meets a suspended actor, it turns over the same messages for good.\<close>

lemma drain_spins:
  assumes "reg_inv (ps_registry st)" and "dm_get X (by_id (ps_registry st)) i = Some e"
    and "from_u8 (entry_state e) = Suspended" and "0 < lanes_len (lanes_of items (mailbox e))"
    and "\<forall>m \<in> set (critical_lane (lanes_of items (mailbox e))) \<union> set (normal_lane (lanes_of items (mailbox e))).
       \<not> is_control m"
  shows "drain_resumed X ex t n i st = None"
  using assms
proof (induction n arbitrary: st e)
  case (Suc n)
  let ?l = "lanes_of items (mailbox e)" and ?cfg = "default_config (ps_registry st)"
  obtain q l where q: "spec_recv ?l = (Some q, l)"
    using spec_recv_some [OF Suc.prems(4)] by blast
  then have sets: "\<not> is_control q"
    "\<forall>m \<in> set (critical_lane (lanes_add ?cfg q l)) \<union> set (normal_lane (lanes_add ?cfg q l)). \<not> is_control m"
    using Suc.prems(5) by (auto simp: spec_recv_def lanes_add_def split: list.splits if_splits)
  obtain mb r where t: "lanes_of items mb = l" "reg_inv r" "default_config r = ?cfg"
    "dm_get X (by_id r) i = Some (e\<lparr>mailbox := mb\<rparr>)"
    "drain_resumed X ex t (Suc n) i st =
       (case process_single_message X ex t n i q (st\<lparr>ps_registry := r\<rparr>) of
          None \<Rightarrow> None | Some (True, st) \<Rightarrow> Some (True, st) | Some (False, st) \<Rightarrow> drain_resumed X ex t n i st)"
    using drain_turn [OF Suc.prems(1,2) q] .
  show ?case
  proof (cases n)
    case 0
    then show ?thesis using t(5) by simp
  next
    case (Suc n')
    let ?st = "st\<lparr>ps_registry := r\<rparr>"
    obtain mb' r' where s: "process_single_message X ex t n i q ?st = Some (False, ?st\<lparr>ps_registry := r'\<rparr>)"
      "lanes_of items mb' = snd (spec_send ?cfg q l)" "reg_inv r'"
      "dm_get X (by_id r') i = Some (e\<lparr>mailbox := mb'\<rparr>)"
      using suspended_requeue [of ?st i "e\<lparr>mailbox := mb\<rparr>" q ex t n'] t Suc.prems(3) sets(1) Suc by auto
    have "lanes_len l < unat (capacity ?cfg)"
      using lanes_len_bound [OF reg_inv_entry(2) [OF Suc.prems(1,2)]] spec_recv_len [OF q] by simp
    then have l': "lanes_of items mb' = lanes_add ?cfg q l" using s(2) by (simp add: spec_send_def)
    have "drain_resumed X ex t n i (?st\<lparr>ps_registry := r'\<rparr>) = None"
      by (rule Suc.IH [where e = "e\<lparr>mailbox := mb'\<rparr>"])
         (use s(3,4) Suc.prems(3) sets(2) lanes_add_len [of ?cfg q l] in \<open>simp_all add: l'\<close>)
    then show ?thesis using t(5) s(1) by simp
  qed
qed simp


text \<open>
  A control message for a suspended actor: the state changes, the message's slot is given
  back by taking the next message out of the mailbox, and the drain starts.
\<close>

lemma resume_starts_drain:
  assumes inv: "reg_inv (ps_registry st)" and e: "dm_get X (by_id (ps_registry st)) i = Some e"
    and s: "from_u8 (entry_state e) = Suspended" and m: "payload msg = Signal Resume"
    and l: "snd (spec_recv (lanes_of items (mailbox e))) = l"
  obtains r e' where "reg_inv r" "dm_get X (by_id r) i = Some e'" "from_u8 (entry_state e') = Running"
    "lanes_of items (mailbox e') = l"
    "process_single_message X ex t (Suc n) i msg st = drain_resumed X ex t n i (st\<lparr>ps_registry := r\<rparr>)"
proof -
  let ?r1 = "handle_state_change_for X i msg (ps_registry st)"
  let ?r2 = "consume_slot X i ?r1"
  let ?e1 = "e\<lparr>entry_state := to_u8 Running\<rparr>"
  let ?e2 = "?e1\<lparr>mailbox := snd (Mailbox_try_recv X (mailbox e))\<rparr>"
  have inv1: "reg_inv ?r1" using state_change_ok [OF inv] by simp
  have e1: "dm_get X (by_id ?r1) i = Some ?e1"
    using upd_same [OF handle_state_change_upd [OF inv e, of msg] e] m by (simp del: to_u8.simps)
  have d: "dinv (by_id ?r1)" using inv1 by (simp add: rg_inv_def)
  have e2: "dm_get X (by_id ?r2) i = Some ?e2"
    using upd_same [OF consume_slot_upd [OF d e1] e1] by (simp del: to_u8.simps)
  show ?thesis
  proof (rule that [OF _ e2])
    show "reg_inv ?r2" using consume_slot_ok [OF inv1] by simp
    show "lanes_of items (mailbox ?e2) = l"
      using try_recv_mb_inv [OF reg_inv_entry(2) [OF inv e]] l by simp
    have "get_state X ?r2 i = Some Running"
      using e2 by (simp add: get_state_def del: to_u8.simps)
    then show "process_single_message X ex t (Suc n) i msg st = drain_resumed X ex t n i (st\<lparr>ps_registry := ?r2\<rparr>)"
      using e s m by (simp add: get_state_def [of X "ps_registry st"] is_control_def Let_def)
  qed (simp del: to_u8.simps)
qed

text \<open>An active actor executes the message the drain took out and drops the one behind it.\<close>

lemma drain_executes:
  assumes inv: "reg_inv (ps_registry st)" and e: "dm_get X (by_id (ps_registry st)) i = Some e"
    and s: "from_u8 (entry_state e) = Running"
    and l: "lanes_of items (mailbox e) = \<lparr>critical_lane = [], normal_lane = m # ms\<rparr>"
    and x: "outcome_of ex (ps_exec st) i m Running = Counted s'"
  obtains st' e' where "reg_inv (ps_registry st')" "dm_get X (by_id (ps_registry st')) i = Some e'"
    "from_u8 (entry_state e') = s'" "lanes_of items (mailbox e') = \<lparr>critical_lane = [], normal_lane = tl ms\<rparr>"
    "ps_exec st' = exec_after ex (ps_exec st) i m"
    "drain_resumed X ex t (Suc (Suc n)) i st = drain_resumed X ex t (Suc n) i st'"
proof -
  have q: "spec_recv (lanes_of items (mailbox e)) = (Some m, \<lparr>critical_lane = [], normal_lane = ms\<rparr>)"
    using l by (simp add: spec_recv_def)
  obtain mb r where t: "lanes_of items mb = \<lparr>critical_lane = [], normal_lane = ms\<rparr>" "reg_inv r"
    "default_config r = default_config (ps_registry st)"
    "dm_get X (by_id r) i = Some (e\<lparr>mailbox := mb\<rparr>)"
    "drain_resumed X ex t (Suc (Suc n)) i st =
       (case process_single_message X ex t (Suc n) i m (st\<lparr>ps_registry := r\<rparr>) of
          None \<Rightarrow> None | Some (True, st) \<Rightarrow> Some (True, st) | Some (False, st) \<Rightarrow> drain_resumed X ex t (Suc n) i st)"
    by (rule drain_turn [OF inv e q, where ex = ex and t = t and n = "Suc n"])
  let ?st = "st\<lparr>ps_registry := r\<rparr>" and ?e = "e\<lparr>mailbox := mb\<rparr>"
  obtain p st' e' where p: "process_active X ex t i m ?st = Some (p, st')" "reg_inv (ps_registry st')"
    "upd i (\<lambda>_. e') (ps_registry ?st) (ps_registry st')" "ps_exec st' = exec_after ex (ps_exec st) i m"
    "active_effect items t (Counted s') p ?e e' (ps_stats ?st) (ps_stats st')"
    using process_active_effect [of ?st i ?e ex t m] t(2,4) s x by auto
  have "process_single_message X ex t (Suc n) i m ?st = Some (False, st')"
    using p(1,5) t(4) s by (simp add: get_state_def active_effect_def Let_def)
  then have "drain_resumed X ex t (Suc (Suc n)) i st = drain_resumed X ex t (Suc n) i st'"
    unfolding t(5) by (simp del: process_single_message.simps drain_resumed.simps)
  moreover have "lanes_of items (mailbox e') = \<lparr>critical_lane = [], normal_lane = tl ms\<rparr>"
    using p(5) t(1) by (cases ms) (simp_all add: active_effect_def spec_recv_def)
  moreover have "dm_get X (by_id (ps_registry st')) i = Some e'"
    using upd_same [OF p(3)] t(4) by simp
  ultimately show ?thesis
    using that p(2,4,5) by (simp add: active_effect_def del: process_single_message.simps drain_resumed.simps)
qed

text \<open>A pause that the drain executes leaves a suspended actor to the rest of it.\<close>

lemma drain_pause_hangs:
  assumes inv: "reg_inv (ps_registry st)" and e: "dm_get X (by_id (ps_registry st)) i = Some e"
    and s: "from_u8 (entry_state e) = Running"
    and l: "lanes_of items (mailbox e) = \<lparr>critical_lane = [], normal_lane = pause # m1 # ms\<rparr>"
    and p: "payload pause = Signal Pause" and ms: "ms \<noteq> []" "\<forall>m \<in> set ms. \<not> is_control m"
  shows "drain_resumed X None t k i st = None"
proof -
  consider "k = 0" | "k = Suc 0" | k' where "k = Suc (Suc k')" by (metis not0_implies_Suc)
  then show ?thesis
  proof cases
    case 2
    have q: "spec_recv (lanes_of items (mailbox e)) = (Some pause, \<lparr>critical_lane = [], normal_lane = m1 # ms\<rparr>)"
      using l by (simp add: spec_recv_def)
    show ?thesis
      unfolding 2 by (rule drain_turn [OF inv e q, where ex = None and t = t and n = 0]) simp
  next
    case 3
    have out: "outcome_of None (ps_exec st) i pause Running = Counted Suspended"
      using p by (simp add: outcome_of_def)
    obtain st' e2 where d: "reg_inv (ps_registry st')" "dm_get X (by_id (ps_registry st')) i = Some e2"
      "from_u8 (entry_state e2) = Suspended"
      "lanes_of items (mailbox e2) = \<lparr>critical_lane = [], normal_lane = tl (m1 # ms)\<rparr>"
      "ps_exec st' = exec_after None (ps_exec st) i pause"
      "drain_resumed X None t (Suc (Suc k')) i st = drain_resumed X None t (Suc k') i st'"
      by (rule drain_executes [OF inv e s l out, where t = t and n = k'])
    show ?thesis
      unfolding 3 d(6) by (rule drain_spins [OF d(1-3)]) (use d(4) ms in \<open>simp_all add: lanes_len_def\<close>)
  qed simp
qed

end

section \<open>A suspended actor with given messages\<close>

text \<open>One unnamed actor in the given state, after the given messages have been sent to it.\<close>

definition queued_registry ::
  "('q, 's, 'n, 'd, 'z) rg_ext_scheme \<Rightarrow> mailbox_config \<Rightarrow> actor_id \<Rightarrow> actor_state \<Rightarrow> message list \<Rightarrow> 'd registry" where
  "queued_registry X cfg i s ms =
     put_mailbox X i (snd (run_steps (mb_step X) (map TrySend ms) (Mailbox_new X i cfg)))
       (snd (set_state X i s (snd (register_named X 5 i None (with_mailbox_config X cfg)))))"

lemma spec_sends:
  "\<forall>m \<in> set ms. priority m \<noteq> Critical \<Longrightarrow> lanes_len l + length ms \<le> unat (capacity cfg) \<Longrightarrow>
     snd (run_steps (spec_step cfg i) (map TrySend ms) l) = l\<lparr>normal_lane := normal_lane l @ ms\<rparr>"
  by (induction ms arbitrary: l)
     (simp_all add: spec_send_def lanes_add_def lanes_len_def Let_def case_prod_beta)

lemma guarded_sends: "guarded_steps (mb_guard cfg) st (map TrySend ms) l"
  by (induction ms arbitrary: l) simp_all

context registry_env
begin

lemma queued_registry_ok:
  assumes cfg: "config_ok cfg" and ms: "\<forall>m \<in> set ms. priority m \<noteq> Critical" "length ms \<le> unat (capacity cfg)"
  shows "reg_inv (queued_registry X cfg i s ms) \<and> default_config (queued_registry X cfg i s ms) = cfg
    \<and> (\<exists>e. dm_get X (by_id (queued_registry X cfg i s ms)) i = Some e \<and> from_u8 (entry_state e) = s
         \<and> lanes_of items (mailbox e) = \<lparr>critical_lane = [], normal_lane = ms\<rparr>)"
proof -
  let ?r0 = "with_mailbox_config X cfg"
  let ?r1 = "snd (register_named X 5 i None ?r0)"
  let ?mb = "snd (run_steps (mb_step X) (map TrySend ms) (Mailbox_new X i cfg))"
  have inv1: "reg_inv ?r1" by (rule register_inv [OF new_registry_inv [OF cfg]])
  have g0: "dm_get X (by_id ?r0) j = None" for j by (simp add: with_mailbox_config_def get_new)
  have d0: "dinv (by_id ?r0)" by (simp add: with_mailbox_config_def invar_new)
  obtain e1 where e1: "dm_get X (by_id ?r1) i = Some e1" and cf: "default_config ?r1 = cfg"
    using g0 get_ins [OF d0, of i _ i] insert_old [OF d0, of i]
    by (simp add: register_named_def with_mailbox_config_def Let_def get_state_def case_prod_beta)
  note u2 = set_state_upd [OF _ e1, of s]
  have d1: "dinv (by_id ?r1)" using inv1 by (simp add: rg_inv_def)
  let ?r2 = "snd (set_state X i s ?r1)"
  have inv2: "reg_inv ?r2" using registry_step_inv [OF inv1, of "SetState i s"] by simp
  note e2 = upd_same [OF u2 [OF d1] e1]
  have cf2: "default_config ?r2 = cfg" using upd_config [OF u2 [OF d1]] cf by simp
  have d2: "dinv (by_id ?r2)" using inv2 by (simp add: rg_inv_def)
  have mb: "lanes_of items ?mb = \<lparr>critical_lane = [], normal_lane = ms\<rparr>" "mb_inv items cap permits idle cfg i ?mb"
    using run_from_new [where cfg = cfg and i = i and es = "map TrySend ms"] cfg
      spec_sends [OF ms(1), of lanes_empty cfg i] ms(2)
    by (simp_all add: config_ok_def lanes_empty_def lanes_len_def guarded_sends)
  note u3 = put_mailbox_upd [OF d2 e2, of ?mb]
  have "reg_inv (put_mailbox X i ?mb ?r2)" using put_mailbox_ok [OF inv2 e2] mb(2) cf2 by simp
  then show ?thesis
    using upd_same [OF u3 e2] upd_config [OF u3] cf2 mb(1)
    by (simp add: queued_registry_def del: to_u8.simps)
qed

end

section \<open>Theorems\<close>

text \<open>
  An ordinary message for a suspended actor is not executed. It is put at the end of
  its mailbox lane, where the send has put it once before, or dropped when the mailbox
  is full; the actor stays suspended and nothing is counted.
\<close>

lemma suspended_message_requeued:
  assumes "registry_env X items cap permits idle waiting dinv"
    and "rg_inv X items cap permits idle dinv (ps_registry st)"
    and "dm_get X (by_id (ps_registry st)) i = Some e"
    and "from_u8 (entry_state e) = Suspended" and "\<not> is_control msg" and "0 < n"
  shows "\<exists>mb r. process_single_message X ex t n i msg st = Some (False, st\<lparr>ps_registry := r\<rparr>)
    \<and> lanes_of items mb = snd (spec_send (default_config (ps_registry st)) msg (lanes_of items (mailbox e)))
    \<and> entry_upd X dinv i (\<lambda>e. e\<lparr>mailbox := mb\<rparr>) (ps_registry st) r"
  using registry_env.suspended_requeue [OF assms(1-5), of ex t "n - 1"] assms(6) by auto

definition demo_suspended :: "message list \<Rightarrow> ((actor_id, standin_entry) hashmap, message list) pstate" where
  "demo_suspended ms =
     \<lparr>ps_registry = queued_registry standin_rg (MailboxConfig_new 8) (ActorId 1) Suspended ms,
      ps_stats = WorkerStats_default, ps_exec = []\<rparr>"

definition demo_signal :: "signal \<Rightarrow> message" where
  "demo_signal sg = \<lparr>sender = None, payload = Signal sg, priority = Normal\<rparr>"

lemma demo_cfg8: "config_ok (MailboxConfig_new 8)" "capacity (MailboxConfig_new 8) = 8"
  by (simp_all add: config_ok_def MailboxConfig_new_def MAX_PERMITS_def)

lemma demo_suspended_entry:
  assumes "\<forall>m \<in> set ms. priority m \<noteq> Critical" and "length ms \<le> 8"
  shows "rg_inv standin_rg snd fst (\<lambda>p. p) (\<lambda>_. True) hm_wf (ps_registry (demo_suspended ms))"
    and "\<exists>e. dm_get standin_rg (by_id (ps_registry (demo_suspended ms))) (ActorId 1) = Some e
      \<and> from_u8 (entry_state e) = Suspended
      \<and> lanes_of snd (mailbox e) = \<lparr>critical_lane = [], normal_lane = ms\<rparr>"
    and "default_config (ps_registry (demo_suspended ms)) = MailboxConfig_new 8"
  using standin_rg.queued_registry_ok [OF demo_cfg8(1) assms(1), of "ActorId 1" Suspended] assms(2)
  by (simp_all add: demo_suspended_def demo_cfg8(2))

lemma suspended_message_requeued_example:
  "\<exists>st' mb. process_single_message standin_rg (Some log_executor) 9 1 (ActorId 1) (demo_msg Normal 1)
         (demo_suspended [demo_msg Normal 1]) = Some (False, st')
     \<and> get_mailbox standin_rg (ps_registry st') (ActorId 1) = Some mb
     \<and> normal_lane (lanes_of snd mb) = [demo_msg Normal 1, demo_msg Normal 1]"
proof -
  let ?st = "demo_suspended [demo_msg Normal 1]"
  have ms: "\<forall>m \<in> set [demo_msg Normal 1]. priority m \<noteq> Critical" "length [demo_msg Normal 1] \<le> 8"
    by (simp_all add: demo_msg_def)
  obtain e where e: "dm_get standin_rg (by_id (ps_registry ?st)) (ActorId 1) = Some e"
    "from_u8 (entry_state e) = Suspended"
    "lanes_of snd (mailbox e) = \<lparr>critical_lane = [], normal_lane = [demo_msg Normal 1]\<rparr>"
    using demo_suspended_entry(2) [OF ms] by blast
  have c: "\<not> is_control (demo_msg Normal 1)" by (simp add: is_control_def demo_msg_def)
  have sp: "snd (spec_send (default_config (ps_registry ?st)) (demo_msg Normal 1) (lanes_of snd (mailbox e)))
      = \<lparr>critical_lane = [], normal_lane = [demo_msg Normal 1, demo_msg Normal 1]\<rparr>"
    using demo_suspended_entry(3) [OF ms] e(3) demo_cfg8(2)
    by (simp add: spec_send_def lanes_add_def lanes_len_def) (simp add: demo_msg_def)
  from suspended_message_requeued [OF standin_rg.registry_env_axioms demo_suspended_entry(1) [OF ms] e(1,2) c
        zero_less_one, of "Some log_executor" 9, unfolded sp]
  obtain mb r where r: "process_single_message standin_rg (Some log_executor) 9 1 (ActorId 1) (demo_msg Normal 1) ?st
       = Some (False, ?st\<lparr>ps_registry := r\<rparr>)"
    "lanes_of snd mb = \<lparr>critical_lane = [], normal_lane = [demo_msg Normal 1, demo_msg Normal 1]\<rparr>"
    "standin_rg.upd (ActorId 1) (\<lambda>e. e\<lparr>mailbox := mb\<rparr>) (ps_registry ?st) r" by blast
  then show ?thesis
    using standin_rg.upd_same [OF r(3) e(1)]
    by (intro exI [where x = "?st\<lparr>ps_registry := r\<rparr>"] exI [where x = mb])
       (simp add: get_mailbox_def del: process_single_message.simps)
qed

fun every_other :: "'a list \<Rightarrow> 'a list" where
  "every_other [] = []"
| "every_other [x] = [x]"
| "every_other (x # y # xs) = x # every_other xs"

text \<open>An executor that runs every message of a list to success.\<close>

definition succeeds :: "'e executor \<Rightarrow> ('e \<Rightarrow> message \<Rightarrow> 'e) \<Rightarrow> actor_id \<Rightarrow> message list \<Rightarrow> bool" where
  "succeeds ops step i ms =
     (\<forall>m \<in> set ms. payload m \<notin> {Start, Stop} \<and>
        (\<forall>es. \<exists>f out. execute ops es i m = (Returned (Success f out), step es m)))"

lemma succeeds_outcome:
  assumes "succeeds ops step i ms" and "m \<in> set ms"
  shows "outcome_of (Some ops) es i m s = Counted s" "exec_after (Some ops) es i m = step es m"
proof -
  obtain f out where "execute ops es i m = (Returned (Success f out), step es m)"
    using assms unfolding succeeds_def by blast
  moreover have "executed_state (payload m) s = s"
    using assms by (cases "payload m") (auto simp: succeeds_def)
  ultimately show "outcome_of (Some ops) es i m s = Counted s" "exec_after (Some ops) es i m = step es m"
    by (simp_all add: outcome_of_def exec_after_def)
qed

context registry_env
begin

lemma drain_every_other:
  assumes "reg_inv (ps_registry st)" and "dm_get X (by_id (ps_registry st)) i = Some e"
    and "from_u8 (entry_state e) = Running"
    and "lanes_of items (mailbox e) = \<lparr>critical_lane = [], normal_lane = ms\<rparr>"
    and "succeeds ops step i ms" and "length ms < n"
  shows "\<exists>st' e'. drain_resumed X (Some ops) t n i st = Some (False, st')
    \<and> ps_exec st' = foldl step (ps_exec st) (every_other ms)
    \<and> dm_get X (by_id (ps_registry st')) i = Some e' \<and> lanes_of items (mailbox e') = lanes_empty"
  using assms
proof (induction ms arbitrary: st e n rule: every_other.induct)
  case 1
  then show ?case using drain_empty [of st i e "Some ops" t "n - 1"] by (auto simp: lanes_empty_def)
next
  case (2 m)
  have x: "outcome_of (Some ops) (ps_exec st) i m Running = Counted Running"
    "exec_after (Some ops) (ps_exec st) i m = step (ps_exec st) m"
    using succeeds_outcome [OF 2(5), of m] by simp_all
  obtain k where n: "n = Suc (Suc k)" using 2(6) by (cases n; cases "n - 1") auto
  obtain st' e' where st': "reg_inv (ps_registry st')" "dm_get X (by_id (ps_registry st')) i = Some e'"
    "lanes_of items (mailbox e') = \<lparr>critical_lane = [], normal_lane = tl []\<rparr>"
    "ps_exec st' = exec_after (Some ops) (ps_exec st) i m"
    "drain_resumed X (Some ops) t (Suc (Suc k)) i st = drain_resumed X (Some ops) t (Suc k) i st'"
    by (rule drain_executes [OF 2(1-4) x(1), where t = t and n = k])
  have "lanes_of items (mailbox e') = lanes_empty" using st'(3) by (simp add: lanes_empty_def)
  from drain_empty [OF st'(1,2) this, of "Some ops" t k] this show ?case
    unfolding n st'(5) using st'(2,4) x(2) by (intro exI [where x = st'] exI [where x = e']) simp
next
  case (3 m m' ms)
  have x: "outcome_of (Some ops) (ps_exec st) i m Running = Counted Running"
    "exec_after (Some ops) (ps_exec st) i m = step (ps_exec st) m"
    using succeeds_outcome [OF 3(6), of m] by simp_all
  have su: "succeeds ops step i ms" using 3(6) by (simp add: succeeds_def)
  obtain k where n: "n = Suc (Suc k)" "length ms < Suc k" using 3(7) by (cases n; cases "n - 1") auto
  obtain st' e' where st': "reg_inv (ps_registry st')" "dm_get X (by_id (ps_registry st')) i = Some e'"
    "from_u8 (entry_state e') = Running"
    "lanes_of items (mailbox e') = \<lparr>critical_lane = [], normal_lane = tl (m' # ms)\<rparr>"
    "ps_exec st' = exec_after (Some ops) (ps_exec st) i m"
    "drain_resumed X (Some ops) t (Suc (Suc k)) i st = drain_resumed X (Some ops) t (Suc k) i st'"
    by (rule drain_executes [OF 3(2-5) x(1), where t = t and n = k])
  from 3(1) [OF st'(1-3) st'(4) [unfolded list.sel(3)] su n(2)] show ?case
    unfolding n(1) st'(6) st'(5) x(2) by simp
qed

end

text \<open>
  C29: the drain after a resume executes only every other message. When the actor resumes
  with the messages \<open>ms\<close> behind the one whose slot the resume gives back, the first, the
  third, the fifth and so on are executed and the ones in between are discarded, because
  the counting of a processed message takes a further message out of the mailbox that
  the drain has emptied of it already.
\<close>

theorem resume_drain_skips_messages:
  assumes env: "registry_env X items cap permits idle waiting dinv"
    and inv: "rg_inv X items cap permits idle dinv (ps_registry st)"
    and e: "dm_get X (by_id (ps_registry st)) i = Some e"
    and s: "from_u8 (entry_state e) = Suspended" and m: "payload msg = Signal Resume"
    and l: "lanes_of items (mailbox e) = \<lparr>critical_lane = [], normal_lane = m0 # ms\<rparr>"
    and su: "succeeds ops step i ms" and n: "Suc (length ms) < n"
  shows "\<exists>st' e'. process_single_message X (Some ops) t n i msg st = Some (False, st')
    \<and> ps_exec st' = foldl step (ps_exec st) (every_other ms)
    \<and> dm_get X (by_id (ps_registry st')) i = Some e' \<and> lanes_of items (mailbox e') = lanes_empty"
proof -
  obtain k where k: "n = Suc k" "length ms < k" using n by (cases n) auto
  have l': "snd (spec_recv (lanes_of items (mailbox e))) = \<lparr>critical_lane = [], normal_lane = ms\<rparr>"
    using l by (simp add: spec_recv_def)
  obtain r e' where r: "rg_inv X items cap permits idle dinv r" "dm_get X (by_id r) i = Some e'"
    "from_u8 (entry_state e') = Running" "lanes_of items (mailbox e') = \<lparr>critical_lane = [], normal_lane = ms\<rparr>"
    "process_single_message X (Some ops) t n i msg st = drain_resumed X (Some ops) t k i (st\<lparr>ps_registry := r\<rparr>)"
    using registry_env.resume_starts_drain [OF env inv e s m l'] k(1) by metis
  then show ?thesis
    using registry_env.drain_every_other [OF env, of "st\<lparr>ps_registry := r\<rparr>" i e' ms ops step k t] su k(2) by simp
qed

definition demo_drain :: "message list" where
  "demo_drain = [demo_msg Normal 1, demo_msg Normal 2, demo_msg Normal 1, demo_msg Normal 2, demo_signal Resume]"

theorem resume_drain_skips_messages_witness:
  "\<exists>st'. process_single_message standin_rg (Some log_executor) 9 10 (ActorId 1) (demo_signal Resume)
         (demo_suspended demo_drain) = Some (False, st')
     \<and> ps_exec st' = [demo_msg Normal 2, demo_msg Normal 2]"
proof -
  let ?ms = "[demo_msg Normal 2, demo_msg Normal 1, demo_msg Normal 2, demo_signal Resume]"
  have ms: "\<forall>m \<in> set demo_drain. priority m \<noteq> Critical" "length demo_drain \<le> 8"
    by (auto simp: demo_drain_def demo_msg_def demo_signal_def)
  obtain e where e: "dm_get standin_rg (by_id (ps_registry (demo_suspended demo_drain))) (ActorId 1) = Some e"
    "from_u8 (entry_state e) = Suspended"
    "lanes_of snd (mailbox e) = \<lparr>critical_lane = [], normal_lane = demo_msg Normal 1 # ?ms\<rparr>"
    using demo_suspended_entry(2) [OF ms] by (auto simp: demo_drain_def)
  have su: "succeeds log_executor (\<lambda>log m. log @ [m]) (ActorId 1) ?ms"
    by (simp add: succeeds_def log_executor_def demo_msg_def demo_signal_def)
  have p: "payload (demo_signal Resume) = Signal Resume" by (simp add: demo_signal_def)
  have n: "Suc (length ?ms) < 10" by simp
  show ?thesis
    using resume_drain_skips_messages [OF standin_rg.registry_env_axioms demo_suspended_entry(1) [OF ms]
        e(1,2) p e(3) su n, of 9] by (auto simp: demo_suspended_def)
qed

text \<open>
  C30: a pause queued behind a resume hangs the worker. Without an executor, a suspended
  actor that resumes with a pause, one more message and then ordinary messages in its
  mailbox is paused again by the drain, which then puts every message it takes out back
  in: no number of steps finishes the call.
\<close>

theorem resume_then_pause_hangs:
  assumes env: "registry_env X items cap permits idle waiting dinv"
    and inv: "rg_inv X items cap permits idle dinv (ps_registry st)"
    and e: "dm_get X (by_id (ps_registry st)) i = Some e"
    and s: "from_u8 (entry_state e) = Suspended" and m: "payload msg = Signal Resume"
    and l: "lanes_of items (mailbox e) = \<lparr>critical_lane = [], normal_lane = m0 # pause # m1 # ms\<rparr>"
    and p: "payload pause = Signal Pause" and ms: "ms \<noteq> []" "\<forall>m \<in> set ms. \<not> is_control m"
  shows "process_single_message X None t n i msg st = None"
proof (cases n)
  case (Suc k)
  have l': "snd (spec_recv (lanes_of items (mailbox e))) = \<lparr>critical_lane = [], normal_lane = pause # m1 # ms\<rparr>"
    using l by (simp add: spec_recv_def)
  obtain r e' where r: "rg_inv X items cap permits idle dinv r" "dm_get X (by_id r) i = Some e'"
    "from_u8 (entry_state e') = Running"
    "lanes_of items (mailbox e') = \<lparr>critical_lane = [], normal_lane = pause # m1 # ms\<rparr>"
    "process_single_message X None t n i msg st = drain_resumed X None t k i (st\<lparr>ps_registry := r\<rparr>)"
    using registry_env.resume_starts_drain [OF env inv e s m l'] Suc by metis
  show ?thesis
    unfolding r(5)
    by (rule registry_env.drain_pause_hangs [OF env _ _ r(3,4) p ms]) (use r(1,2) in simp_all)
qed simp

definition demo_pause :: "message list" where
  "demo_pause = [demo_signal Resume, demo_signal Pause, demo_msg Normal 1, demo_msg Normal 2]"

theorem resume_then_pause_hangs_witness:
  "process_single_message standin_rg None 9 1000 (ActorId 1) (demo_signal Resume) (demo_suspended demo_pause) = None"
proof -
  have ms: "\<forall>m \<in> set demo_pause. priority m \<noteq> Critical" "length demo_pause \<le> 8"
    by (auto simp: demo_pause_def demo_msg_def demo_signal_def)
  obtain e where e: "dm_get standin_rg (by_id (ps_registry (demo_suspended demo_pause))) (ActorId 1) = Some e"
    "from_u8 (entry_state e) = Suspended"
    "lanes_of snd (mailbox e) = \<lparr>critical_lane = [],
       normal_lane = demo_signal Resume # demo_signal Pause # demo_msg Normal 1 # [demo_msg Normal 2]\<rparr>"
    using demo_suspended_entry(2) [OF ms] by (auto simp: demo_pause_def)
  show ?thesis
    by (rule resume_then_pause_hangs [OF standin_rg.registry_env_axioms demo_suspended_entry(1) [OF ms] e(1,2) _ e(3)])
       (simp_all add: demo_signal_def demo_msg_def is_control_def)
qed

end
