(* ===== verification/Scheduler_Correct.thy ===== *)
theory Scheduler_Correct
  imports Worker_Suspension
begin

text \<open>
  The scheduler as a whole: what a send does in every case, that a worker's next turn
  delivers what was sent without leaking mailbox capacity, and the corners where the
  operations of \<open>ActorScheduler\<close> disagree with each other.
\<close>

section \<open>The environment and the queues\<close>

locale scheduler_env =
  registry_env X items cap permits idle waiting dinv + work_env X content retries tasks deque_retries
  for X :: "('q, 's, 'n, 'd, 'i, 'w, 'z) sch_ext_scheme"
    and items :: "'q \<Rightarrow> message list" and cap :: "'q \<Rightarrow> nat"
    and permits :: "'s \<Rightarrow> nat" and idle :: "'s \<Rightarrow> bool" and waiting :: "'n \<Rightarrow> nat set"
    and dinv :: "'d \<Rightarrow> bool"
    and content :: "'i \<Rightarrow> task list" and retries :: "'i \<Rightarrow> nat"
    and tasks :: "'w \<Rightarrow> task list" and deque_retries :: "'w \<Rightarrow> nat"

interpretation standin_sch: scheduler_env standin_sch snd fst "\<lambda>p. p" "\<lambda>_. True"
  "\<lambda>g. set (registered g)" hm_wf "\<lambda>q. q" "\<lambda>_. 0" "\<lambda>q. q" "\<lambda>_. 0"
proof -
  have "mailbox_env standin_sch snd fst (\<lambda>p. p) (\<lambda>_. True) (\<lambda>g. set (registered g))"
    using standin.mailbox_env_axioms by (simp add: mailbox_env_def)
  moreover have "dash_map standin_sch hm_wf"
    using standin_rg.dash_map_axioms by (simp add: dash_map_def dash_map_axioms_def)
  ultimately show "scheduler_env standin_sch snd fst (\<lambda>p. p) (\<lambda>_. True) (\<lambda>g. set (registered g)) hm_wf
      (\<lambda>q. q) (\<lambda>_. 0) (\<lambda>q. q) (\<lambda>_. 0)"
    using standin_work.work_env_axioms by (simp add: scheduler_env_def registry_env_def)
qed

text \<open>The tasks a scheduler holds for its workers: the four levels and the global queue.\<close>

definition queue_view ::
  "('i \<Rightarrow> task list) \<Rightarrow> ('d, 'i, 'w, 'e, 'p, 'm) scheduler \<Rightarrow> task list list \<times> task list" where
  "queue_view content s = (levels_of content (priority_queue_of s), content (injector (global_queue s)))"

definition queue_add :: "bool \<Rightarrow> task \<Rightarrow> task list list \<times> task list \<Rightarrow> task list list \<times> task list" where
  "queue_add prio t v =
     (if prio \<and> High \<le> task_priority t
      then ((fst v)[Work_Queue.level (task_priority t) := fst v ! Work_Queue.level (task_priority t) @ [t]], snd v)
      else (fst v, snd v @ [t]))"

definition single_task :: "actor_id \<Rightarrow> message \<Rightarrow> task" where
  "single_task i m = \<lparr>task_actor = i, task_message = m, task_priority = priority m, additional_messages = []\<rparr>"

lemma admit_keeps:
  assumes "admit f s = (r, s0)"
  shows "registry_of s0 = registry_of s" "queue_view content s0 = queue_view content s" "sched_config s0 = sched_config s"
    "executor_of s0 = executor_of s" "exec_state s0 = exec_state s" "worker_stats_of s0 = worker_stats_of s"
    "deques s0 = deques s"
  using assms by (auto simp: admit_def queue_view_def split: option.splits prod.splits)

lemma dispatch_keeps [simp]:
  "registry_of (dispatch X t s) = registry_of s" "executor_of (dispatch X t s) = executor_of s"
  "exec_state (dispatch X t s) = exec_state s" "worker_stats_of (dispatch X t s) = worker_stats_of s"
  "deques (dispatch X t s) = deques s" "sched_config (dispatch X t s) = sched_config s"
  by (simp_all add: dispatch_def)

context scheduler_env
begin

lemma dispatch_view:
  "queue_view content (dispatch X t s) = queue_add (priority_scheduling (sched_config s)) t (queue_view content s)"
  by (cases "task_priority t")
     (auto simp: dispatch_def queue_view_def queue_add_def levels_of_def PriorityQueue_push_def WorkQueue_push_def
       ij.content_push numeral_nat)

lemma pq_pop_ok:
  "\<exists>pq'. PriorityQueue_pop X pq = Some (fst (pop_levels (levels_of content pq)), pq')
     \<and> levels_of content pq' = snd (pop_levels (levels_of content pq))"
  using pq_step_refines [of PopTask pq]
  by (cases "PriorityQueue_pop X pq"; cases "pop_levels (levels_of content pq)") auto

text \<open>A send to a registered actor that takes messages.\<close>

lemma send_room_effect:
  assumes inv: "reg_inv (registry_of s)" and e: "dm_get X (by_id (registry_of s)) i = Some e"
    and st: "from_u8 (entry_state e) \<notin> {Stopped, Failed}"
    and room: "lanes_len (lanes_of items (mailbox e)) < unat (capacity (default_config (registry_of s)))"
    and ad: "admit (\<lambda>pol p. admit_message pol p 1) s = (Ok (), s0)"
  shows "\<exists>mb. sched_send X i m s =
        (Some (Ok ()), dispatch X (single_task i m) (s0\<lparr>registry_of := put_mailbox X i mb (registry_of s)\<rparr>))
      \<and> lanes_of items mb = lanes_add (default_config (registry_of s)) m (lanes_of items (mailbox e))
      \<and> mb_inv items cap permits idle (default_config (registry_of s)) i mb"
proof -
  obtain mb where mb: "Mailbox_send X m (mailbox e) = (Some (Ok ()), mb)"
    "mb_inv items cap permits idle (default_config (registry_of s)) i mb"
    "lanes_of items mb = lanes_add (default_config (registry_of s)) m (lanes_of items (mailbox e))"
    using send_room [OF reg_inv_entry(2) [OF inv e] room] by blast
  then show ?thesis
    using e st ad admit_keeps(1) [OF ad]
    by (auto simp: sched_send_def get_mailbox_def get_state_def Let_def single_task_def)
qed

lemma send_full_effect:
  assumes inv: "reg_inv (registry_of s)" and e: "dm_get X (by_id (registry_of s)) i = Some e"
    and st: "from_u8 (entry_state e) \<notin> {Stopped, Failed}"
    and full: "\<not> lanes_len (lanes_of items (mailbox e)) < unat (capacity (default_config (registry_of s)))"
    and ad: "admit (\<lambda>pol p. admit_message pol p 1) s = (Ok (), s0)"
  shows "\<exists>mb. sched_send X i m s = (None, s0\<lparr>registry_of := put_mailbox X i mb (registry_of s)\<rparr>)
      \<and> lanes_of items mb = lanes_of items (mailbox e)"
  using send_full [OF reg_inv_entry(2) [OF inv e] full, of m] e st ad admit_keeps(1) [OF ad]
  by (cases "Mailbox_send X m (mailbox e)")
     (auto simp: sched_send_def get_mailbox_def get_state_def Let_def)

end

section \<open>Sending\<close>


definition demo_sched ::
  "(message list) executor option \<Rightarrow> actor_state \<Rightarrow> message list
   \<Rightarrow> ((actor_id, standin_entry) hashmap, task list, task list, message list, unit, unit) scheduler" where
  "demo_sched ex s ms =
     (with_options standin_sch (Some 1) SchedulerConfig_default ex [] None ())
       \<lparr>registry_of := queued_registry standin_sch (MailboxConfig_new 8) (ActorId 1) s ms\<rparr>"

lemma demo_sched_entry:
  assumes "\<forall>m \<in> set ms. priority m \<noteq> Critical" and "length ms \<le> 8"
  shows "rg_inv standin_sch snd fst (\<lambda>p. p) (\<lambda>_. True) hm_wf (registry_of (demo_sched ex s ms))"
    and "\<exists>e. dm_get standin_sch (by_id (registry_of (demo_sched ex s ms))) (ActorId 1) = Some e
      \<and> from_u8 (entry_state e) = s
      \<and> lanes_of snd (mailbox e) = \<lparr>critical_lane = [], normal_lane = ms\<rparr>"
    and "default_config (registry_of (demo_sched ex s ms)) = MailboxConfig_new 8"
  using standin_sch.queued_registry_ok [OF demo_cfg8(1) assms(1), of "ActorId 1" s] assms(2)
  by (simp_all add: demo_sched_def demo_cfg8(2))

lemma demo_sched_simps [simp]:
  "admit f (demo_sched ex s ms) = (Ok (), demo_sched ex s ms)"
  "queue_view (\<lambda>q. q) (demo_sched ex s ms) = ([[], [], [], []], [])"
  "executor_of (demo_sched ex s ms) = ex" "exec_state (demo_sched ex s ms) = []"
  "deques (demo_sched ex s ms) w = []" "length (worker_stats_of (demo_sched ex s ms)) = 1"
  "priority_scheduling (sched_config (demo_sched ex s ms))" "policy_of (demo_sched ex s ms) = None"
  by (simp_all add: demo_sched_def with_options_def admit_def queue_view_def levels_of_def WorkQueue_new_def
      PriorityQueue_new_def SchedulerConfig_default_def effective_workers_def)


section \<open>From a send to its processing\<close>

definition no_tasks :: "task list list \<times> task list" where
  "no_tasks = ([[], [], [], []], [])"

context scheduler_env
begin

text \<open>A queued task is the one the next turn of an otherwise idle worker runs.\<close>

lemma turn_runs_queued:
  assumes q: "queue_view content s = queue_add prio k no_tasks" and d: "tasks (deques s wid) = []"
  shows "\<exists>pq ds gq wl'. worker_turn X t n wid (wl, s) =
       map_option (\<lambda>s. (wl', s)) (run_task X t n wid k (s\<lparr>priority_queue_of := pq, deques := ds, global_queue := gq\<rparr>))
     \<and> queue_view content (s\<lparr>priority_queue_of := pq, deques := ds, global_queue := gq\<rparr>) = no_tasks"
proof -
  obtain pq where pq: "PriorityQueue_pop X (priority_queue_of s) =
      Some (fst (pop_levels (levels_of content (priority_queue_of s))), pq)"
    "levels_of content pq = snd (pop_levels (levels_of content (priority_queue_of s)))"
    using pq_pop_ok by blast
  let ?wl = "(refresh_stealers wid s wl)\<lparr>consecutive_empty := 0\<rparr>"
  show ?thesis
  proof (cases "prio \<and> High \<le> task_priority k")
    case True
    have "pop_levels (levels_of content (priority_queue_of s)) = (Some k, [[], [], [], []])"
      "content (injector (global_queue s)) = []"
      using q True by (cases "task_priority k"; simp add: queue_view_def queue_add_def no_tasks_def numeral_nat)+
    then show ?thesis
      using pq
      by (intro exI [where x = pq] exI [where x = "deques s"] exI [where x = "global_queue s"] exI [where x = ?wl])
         (simp add: worker_turn_def Let_def queue_view_def no_tasks_def)
  next
    case False
    have lv: "levels_of content (priority_queue_of s) = [[], [], [], []]" "content (injector (global_queue s)) = [k]"
      using q False by (auto simp: queue_view_def queue_add_def no_tasks_def)
    obtain g where g: "try_steal X (injector (global_queue s)) = Some (Some k, g)" "content g = []"
      using try_steal_ok [of "injector (global_queue s)"] lv(2) by auto
    obtain w where w: "wk_pop X (deques s wid) = (None, w)"
      using wk.pop_result [of "deques s wid"] d by (cases "wk_pop X (deques s wid)") simp
    show ?thesis
      using pq lv g w
      by (intro exI [where x = pq] exI [where x = "(deques s)(wid := w)"]
          exI [where x = "(global_queue s)\<lparr>injector := g\<rparr>"] exI [where x = ?wl])
         (simp add: worker_turn_def Let_def queue_view_def no_tasks_def steal_global_def)
  qed
qed

text \<open>Running a task of one message for an active actor.\<close>

lemma run_task_effect:
  assumes inv: "reg_inv (registry_of s)" and e: "dm_get X (by_id (registry_of s)) i = Some e"
    and st: "from_u8 (entry_state e) \<in> {Running, Creating}" and n: "0 < n"
    and out: "outcome_of (executor_of s) (exec_state s) i m (from_u8 (entry_state e)) = Counted st'"
  shows "\<exists>s' e'. run_task X t n wid (single_task i m) s = Some s' \<and> reg_inv (registry_of s')
    \<and> upd i (\<lambda>_. e') (registry_of s) (registry_of s')
    \<and> exec_state s' = exec_after (executor_of s) (exec_state s) i m
    \<and> from_u8 (entry_state e') = st' \<and> processed e' = processed e + 1
    \<and> lanes_of items (mailbox e') = snd (spec_recv (lanes_of items (mailbox e)))
    \<and> priority_queue_of s' = priority_queue_of s \<and> global_queue s' = global_queue s \<and> deques s' = deques s"
proof -
  let ?st = "\<lparr>ps_registry = registry_of s, ps_stats = worker_stats_of s ! wid, ps_exec = exec_state s\<rparr>"
  obtain p st1 e' where p: "process_active X (executor_of s) t i m ?st = Some (p, st1)" "reg_inv (ps_registry st1)"
    "upd i (\<lambda>_. e') (registry_of s) (ps_registry st1)"
    "ps_exec st1 = exec_after (executor_of s) (exec_state s) i m"
    "active_effect items t (Counted st') p e e' (worker_stats_of s ! wid) (ps_stats st1)"
    using process_active_effect [of ?st i e "executor_of s" t m] inv e out by auto
  obtain k where k: "n = Suc k" using n by (cases n) auto
  have "process_task_safe X (executor_of s) t n (single_task i m) ?st = Some st1"
    using p(1,5) e st by (auto simp: process_task_safe_def process_task_def single_task_def k get_state_def Let_def
        active_effect_def)
  then show ?thesis
    using p(2-5) by (auto simp: run_task_def active_effect_def)
qed

end

text \<open>
  C8: a message that is sent is processed by the next turn, and its mailbox slot comes
  back. With idle queues and an active actor whose mailbox is empty, \<open>send\<close> succeeds and
  the next turn of any worker with an empty deque executes the message, counts it, moves
  the actor to the state its outcome asks for and leaves queues and mailbox empty, as
  they were: no number of messages uses up the capacity.
\<close>

theorem send_then_turn_delivers:
  assumes env: "scheduler_env X items cap permits idle waiting dinv content retries tasks deque_retries"
    and inv: "rg_inv X items cap permits idle dinv (registry_of s)"
    and e: "dm_get X (by_id (registry_of s)) i = Some e"
    and st: "from_u8 (entry_state e) \<in> {Running, Creating}"
    and l: "lanes_of items (mailbox e) = lanes_empty"
    and q: "queue_view content s = no_tasks" and d: "tasks (deques s wid) = []"
    and ad: "admit (\<lambda>pol p. admit_message pol p 1) s = (Ok (), s0)"
    and out: "outcome_of (executor_of s) (exec_state s) i m (from_u8 (entry_state e)) = Counted st'" and n: "0 < n"
  shows "\<exists>s1 wl' s2 e2. sched_send X i m s = (Some (Ok ()), s1)
    \<and> worker_turn X t n wid (wl, s1) = Some (wl', s2)
    \<and> rg_inv X items cap permits idle dinv (registry_of s2)
    \<and> touches_only X i (registry_of s) (registry_of s2)
    \<and> exec_state s2 = exec_after (executor_of s) (exec_state s) i m
    \<and> dm_get X (by_id (registry_of s2)) i = Some e2 \<and> from_u8 (entry_state e2) = st'
    \<and> processed e2 = processed e + 1 \<and> lanes_of items (mailbox e2) = lanes_empty
    \<and> queue_view content s2 = no_tasks"
proof -
  have re: "registry_env X items cap permits idle waiting dinv" using env by (simp add: scheduler_env_def)
  let ?r = "registry_of s"
  have d0: "dinv (by_id ?r)" and c0: "0 < unat (capacity (default_config ?r))"
    using inv by (simp_all add: rg_inv_def config_ok_def)
  obtain mb where mb: "sched_send X i m s =
        (Some (Ok ()), dispatch X (single_task i m) (s0\<lparr>registry_of := put_mailbox X i mb ?r\<rparr>))"
      "lanes_of items mb = lanes_add (default_config ?r) m lanes_empty"
      "mb_inv items cap permits idle (default_config ?r) i mb"
    using scheduler_env.send_room_effect [OF env inv e _ _ ad, of m] st l c0
    by (auto simp: lanes_len_def lanes_empty_def)
  define s1 where "s1 = dispatch X (single_task i m) (s0\<lparr>registry_of := put_mailbox X i mb ?r\<rparr>)"
  have ok1: "rg_inv X items cap permits idle dinv (put_mailbox X i mb ?r)" "touches_only X i ?r (put_mailbox X i mb ?r)"
    using registry_env.put_mailbox_ok [OF re inv e mb(3)] by simp_all
  have e1: "dm_get X (by_id (put_mailbox X i mb ?r)) i = Some (e\<lparr>mailbox := mb\<rparr>)"
    by (rule registry_env.upd_same [OF re registry_env.put_mailbox_upd [OF re d0 e] e])
  have q1: "queue_view content s1 = queue_add (priority_scheduling (sched_config s)) (single_task i m) no_tasks"
    unfolding s1_def scheduler_env.dispatch_view [OF env] q [symmetric]
    using admit_keeps(2) [OF ad, where content = content] admit_keeps(3) [OF ad] by (simp add: queue_view_def)
  have d1: "tasks (deques s1 wid) = []" using d admit_keeps(7) [OF ad] by (simp add: s1_def)
  obtain pq ds gq wl' where t: "worker_turn X t n wid (wl, s1) = map_option (\<lambda>s. (wl', s))
       (run_task X t n wid (single_task i m) (s1\<lparr>priority_queue_of := pq, deques := ds, global_queue := gq\<rparr>))"
    "queue_view content (s1\<lparr>priority_queue_of := pq, deques := ds, global_queue := gq\<rparr>) = no_tasks"
    using scheduler_env.turn_runs_queued [OF env q1 d1] by blast
  let ?s = "s1\<lparr>priority_queue_of := pq, deques := ds, global_queue := gq\<rparr>"
  have s: "registry_of ?s = put_mailbox X i mb ?r" "executor_of ?s = executor_of s" "exec_state ?s = exec_state s"
    using admit_keeps(4,5) [OF ad] by (simp_all add: s1_def)
  obtain s2 e2 where s2: "run_task X t n wid (single_task i m) ?s = Some s2"
    "rg_inv X items cap permits idle dinv (registry_of s2)"
    "entry_upd X dinv i (\<lambda>_. e2) (put_mailbox X i mb ?r) (registry_of s2)"
    "exec_state s2 = exec_after (executor_of s) (exec_state s) i m"
    "from_u8 (entry_state e2) = st'" "processed e2 = processed e + 1"
    "lanes_of items (mailbox e2) = snd (spec_recv (lanes_of items mb))"
    "priority_queue_of s2 = pq" "global_queue s2 = gq"
    using scheduler_env.run_task_effect [OF env, of ?s i "e\<lparr>mailbox := mb\<rparr>" n m st' t wid] ok1(1) e1 st n out
    unfolding s by (auto simp: active_effect_def)
  have "lanes_of items (mailbox e2) = lanes_empty"
    using s2(7) mb(2) by (simp add: lanes_add_def lanes_empty_def spec_recv_def)
  moreover have "queue_view content s2 = no_tasks" using t(2) s2(8,9) by (simp add: queue_view_def)
  moreover have "touches_only X i ?r (registry_of s2)"
    using ok1(2) registry_env.upd_touches [OF re s2(3)] touches_only_trans by blast
  moreover have "dm_get X (by_id (registry_of s2)) i = Some e2"
    by (rule registry_env.upd_same [OF re s2(3) e1])
  ultimately show ?thesis
    using mb(1) t(1) s2(1,2,4-6) unfolding s1_def [symmetric] by auto
qed

theorem send_then_turn_delivers_witness:
  "\<exists>s1 wl' s2. sched_send standin_sch (ActorId 1) (demo_msg Normal 1) (demo_sched (Some log_executor) Running [])
       = (Some (Ok ()), s1)
     \<and> worker_turn standin_sch 9 1 0 (worker_start, s1) = Some (wl', s2) \<and> exec_state s2 = [demo_msg Normal 1]"
proof -
  let ?s = "demo_sched (Some log_executor) Running []"
  obtain e where e: "dm_get standin_sch (by_id (registry_of ?s)) (ActorId 1) = Some e"
    "from_u8 (entry_state e) = Running" "lanes_of snd (mailbox e) = lanes_empty"
    using demo_sched_entry(2) [of "[]" "Some log_executor" Running] by (auto simp: lanes_empty_def)
  have h: "from_u8 (entry_state e) \<in> {Running, Creating}" "queue_view (\<lambda>q. q) ?s = no_tasks" "deques ?s 0 = []"
    "outcome_of (executor_of ?s) (exec_state ?s) (ActorId 1) (demo_msg Normal 1) (from_u8 (entry_state e)) = Counted Running"
    "exec_after (executor_of ?s) (exec_state ?s) (ActorId 1) (demo_msg Normal 1) = [demo_msg Normal 1]"
    "rg_inv standin_sch snd fst (\<lambda>p. p) (\<lambda>_. True) hm_wf (registry_of ?s)"
    using e(2) demo_sched_entry(1) [of "[]"]
    by (simp_all add: no_tasks_def outcome_of_def exec_after_def log_executor_def demo_msg_def)
  show ?thesis
    using send_then_turn_delivers [OF standin_sch.scheduler_env_axioms h(6) e(1) h(1) e(3) h(2,3) demo_sched_simps(1)
        h(4) zero_less_one, of 9 worker_start] unfolding h(5) by blast
qed

section \<open>Batches\<close>

context mailbox_env
begin

lemma send_all_spec:
  assumes "inv_of cfg i mb"
  shows "\<exists>mb'. send_all X ms mb =
      (if length ms \<le> unat (capacity cfg) - lanes_len (lanes_of items mb) then Some (Ok ()) else None, mb')
    \<and> lanes_of items mb' =
        fold (lanes_add cfg) (take (unat (capacity cfg) - lanes_len (lanes_of items mb)) ms) (lanes_of items mb)
    \<and> (length ms \<le> unat (capacity cfg) - lanes_len (lanes_of items mb) \<longrightarrow> inv_of cfg i mb')"
  using assms
proof (induction ms arbitrary: mb)
  case (Cons m ms)
  let ?l = "lanes_of items mb" and ?c = "unat (capacity cfg)"
  show ?case
  proof (cases "lanes_len ?l < ?c")
    case True
    obtain mb1 where mb1: "Mailbox_send X m mb = (Some (Ok ()), mb1)" "inv_of cfg i mb1"
      "lanes_of items mb1 = lanes_add cfg m ?l"
      using send_room [OF Cons.prems True] by blast
    have len: "lanes_len (lanes_add cfg m ?l) = Suc (lanes_len ?l)" by (simp add: lanes_add_def lanes_len_def)
    have room: "?c - lanes_len ?l = Suc (?c - Suc (lanes_len ?l))" using True by simp
    show ?thesis
      using Cons.IH [OF mb1(2)] mb1(1) unfolding mb1(3) len room by auto
  next
    case False
    then show ?thesis
      using send_full [OF Cons.prems False, of m] by (cases "Mailbox_send X m mb") auto
  qed
qed simp

end

text \<open>
  C28: \<open>send_batch\<close> to an actor that takes messages. A batch that fits is stored in order
  and queued as one task with the highest of its priorities. One that does not fit is
  stored as far as there is room and then waits, and no task is queued: nothing that the
  scheduler holds will ever take the stored messages out, so a batch larger than the
  capacity never completes and fills the mailbox for good.
\<close>

theorem send_batch_outcomes:
  assumes env: "scheduler_env X items cap permits idle waiting dinv content retries tasks deque_retries"
    and inv: "rg_inv X items cap permits idle dinv (registry_of s)"
    and e: "dm_get X (by_id (registry_of s)) i = Some e"
    and st: "from_u8 (entry_state e) \<notin> {Stopped, Failed}"
    and ad: "admit (\<lambda>pol p. admit_message pol p (of_nat (length (m # ms)))) s = (Ok (), s0)"
    and room: "room = unat (capacity (default_config (registry_of s))) - lanes_len (lanes_of items (mailbox e))"
  shows "\<exists>res s' mb. send_batch X i (m # ms) s = (res, s')
    \<and> entry_upd X dinv i (\<lambda>e. e\<lparr>mailbox := mb\<rparr>) (registry_of s) (registry_of s')
    \<and> lanes_of items mb =
        fold (lanes_add (default_config (registry_of s))) (take room (m # ms)) (lanes_of items (mailbox e))
    \<and> (if length (m # ms) \<le> room
       then res = Some (Ok ()) \<and> queue_view content s' = queue_add (priority_scheduling (sched_config s))
              \<lparr>task_actor = i, task_message = m, task_priority = max_priority (m # ms), additional_messages = ms\<rparr>
              (queue_view content s)
       else res = None \<and> queue_view content s' = queue_view content s)"
proof -
  have re: "registry_env X items cap permits idle waiting dinv" and me: "mailbox_env X items cap permits idle waiting"
    using env by (simp_all add: scheduler_env_def registry_env_def)
  let ?r = "registry_of s" and ?fit = "length (m # ms) \<le> room"
  have d: "dinv (by_id ?r)" using inv by (simp add: rg_inv_def)
  obtain mb where mb: "send_all X (m # ms) (mailbox e) = (if ?fit then Some (Ok ()) else None, mb)"
    "lanes_of items mb = fold (lanes_add (default_config ?r)) (take room (m # ms)) (lanes_of items (mailbox e))"
    using mailbox_env.send_all_spec [OF me registry_env.reg_inv_entry(2) [OF re inv e], of "m # ms"]
    unfolding room by blast
  let ?s = "s0\<lparr>registry_of := put_mailbox X i mb ?r\<rparr>"
  let ?k = "\<lparr>task_actor = i, task_message = m, task_priority = max_priority (m # ms), additional_messages = ms\<rparr>"
  have run: "send_batch X i (m # ms) s = (if ?fit then (Some (Ok ()), dispatch X ?k ?s) else (None, ?s))"
    using e st ad mb(1) admit_keeps(1) [OF ad]
    by (auto simp: send_batch_def get_mailbox_def get_state_def Let_def simp del: send_all.simps)
  have v: "queue_view content ?s = queue_view content s" "sched_config ?s = sched_config s"
    using admit_keeps(2) [OF ad, where content = content] admit_keeps(3) [OF ad] by (simp_all add: queue_view_def)
  show ?thesis
    using run mb(2) registry_env.put_mailbox_upd [OF re d e, of mb] scheduler_env.dispatch_view [OF env, of ?k ?s] v
    by (cases ?fit) auto
qed

theorem send_batch_outcomes_witness:
  "\<exists>s'. send_batch standin_sch (ActorId 1) (replicate 9 (demo_msg Normal 1)) (demo_sched None Running []) = (None, s')
     \<and> queue_view (\<lambda>q. q) s' = no_tasks"
proof -
  obtain e where e: "dm_get standin_sch (by_id (registry_of (demo_sched None Running []))) (ActorId 1) = Some e"
    "from_u8 (entry_state e) \<notin> {Stopped, Failed}" "lanes_len (lanes_of snd (mailbox e)) = 0"
    using demo_sched_entry(2) [of "[]" None Running] by (auto simp: lanes_len_def)
  have c: "8 = unat (capacity (default_config (registry_of (demo_sched None Running [])))) - lanes_len (lanes_of snd (mailbox e))"
    using demo_sched_entry(3) [of "[]" None Running] demo_cfg8(2) e(3) by simp
  show ?thesis
    using send_batch_outcomes [OF standin_sch.scheduler_env_axioms demo_sched_entry(1) e(1,2) demo_sched_simps(1) c,
        of "demo_msg Normal 1" "replicate 8 (demo_msg Normal 1)"]
    by (auto simp: numeral_nat no_tasks_def)
qed

section \<open>Sends that skip the checks\<close>

text \<open>
  \<open>try_send\<close> accepts messages for actors that have stopped. For an actor that is
  stopped or failed \<open>send\<close> is an error, but \<open>try_send\<close> looks at neither the state nor
  the policy: with room in the mailbox it stores the message, queues a task and reports
  success. No worker processes that task, so the message keeps its slot.
\<close>

lemma try_send_to_dead_accepted:
  assumes env: "scheduler_env X items cap permits idle waiting dinv content retries tasks deque_retries"
    and inv: "rg_inv X items cap permits idle dinv (registry_of s)"
    and e: "dm_get X (by_id (registry_of s)) i = Some e"
    and st: "from_u8 (entry_state e) \<in> {Stopped, Failed}"
    and room: "lanes_len (lanes_of items (mailbox e)) < unat (capacity (default_config (registry_of s)))"
    and ad: "admit (\<lambda>pol p. admit_message pol p 1) s = (Ok (), s0)" and n: "0 < n"
  shows "fst (sched_send X i m s) = Some (Err (not_running_error i))
    \<and> (\<exists>s' e'. sched_try_send X i m s = (Ok (), s')
         \<and> queue_view content s' =
             queue_add (priority_scheduling (sched_config s)) (single_task i m) (queue_view content s)
         \<and> dm_get X (by_id (registry_of s')) i = Some e'
         \<and> lanes_of items (mailbox e') = lanes_add (default_config (registry_of s)) m (lanes_of items (mailbox e))
         \<and> run_task X t n wid (single_task i m) s' =
             Some (s'\<lparr>worker_stats_of := (worker_stats_of s')[wid := worker_stats_of s' ! wid]\<rparr>))"
proof
  have re: "registry_env X items cap permits idle waiting dinv" and me: "mailbox_env X items cap permits idle waiting"
    using env by (simp_all add: scheduler_env_def registry_env_def)
  let ?r = "registry_of s"
  have d: "dinv (by_id ?r)" using inv by (simp add: rg_inv_def)
  show "fst (sched_send X i m s) = Some (Err (not_running_error i))"
    using e st ad admit_keeps(1) [OF ad] by (auto simp: sched_send_def get_mailbox_def get_state_def)
  obtain mb where mb: "Mailbox_try_send X m (mailbox e) = (Inr (), mb)"
    "lanes_of items mb = lanes_add (default_config ?r) m (lanes_of items (mailbox e))"
    using mailbox_env.try_send_room [OF me registry_env.reg_inv_entry(2) [OF re inv e] room] by blast
  define s' where "s' = dispatch X (single_task i m) (s\<lparr>registry_of := put_mailbox X i mb ?r\<rparr>)"
  have e': "dm_get X (by_id (registry_of s')) i = Some (e\<lparr>mailbox := mb\<rparr>)"
    using registry_env.upd_same [OF re registry_env.put_mailbox_upd [OF re d e] e] by (simp add: s'_def)
  have "sched_try_send X i m s = (Ok (), s')"
    using e mb(1) by (simp add: sched_try_send_def get_mailbox_def Let_def s'_def single_task_def)
  moreover have "queue_view content s' =
      queue_add (priority_scheduling (sched_config s)) (single_task i m) (queue_view content s)"
    unfolding s'_def scheduler_env.dispatch_view [OF env] by (simp add: queue_view_def)
  moreover obtain k where k: "n = Suc k" using n by (cases n) auto
  have "run_task X t n wid (single_task i m) s' =
      Some (s'\<lparr>worker_stats_of := (worker_stats_of s')[wid := worker_stats_of s' ! wid]\<rparr>)"
    using e' st by (auto simp: run_task_def process_task_safe_def process_task_def single_task_def k get_state_def Let_def)
  ultimately show "\<exists>s' e'. sched_try_send X i m s = (Ok (), s')
         \<and> queue_view content s' =
             queue_add (priority_scheduling (sched_config s)) (single_task i m) (queue_view content s)
         \<and> dm_get X (by_id (registry_of s')) i = Some e'
         \<and> lanes_of items (mailbox e') = lanes_add (default_config (registry_of s)) m (lanes_of items (mailbox e))
         \<and> run_task X t n wid (single_task i m) s' =
             Some (s'\<lparr>worker_stats_of := (worker_stats_of s')[wid := worker_stats_of s' ! wid]\<rparr>)"
    using e' mb(2) by auto
qed

lemma try_send_to_dead_accepted_example:
  "fst (sched_send standin_sch (ActorId 1) (demo_msg Normal 1) (demo_sched None Stopped [])) =
     Some (Err (not_running_error (ActorId 1)))
   \<and> fst (sched_try_send standin_sch (ActorId 1) (demo_msg Normal 1) (demo_sched None Stopped [])) = Ok ()"
proof -
  obtain e where e: "dm_get standin_sch (by_id (registry_of (demo_sched None Stopped []))) (ActorId 1) = Some e"
    "from_u8 (entry_state e) \<in> {Stopped, Failed}" "lanes_len (lanes_of snd (mailbox e)) = 0"
    using demo_sched_entry(2) [of "[]" None Stopped] by (auto simp: lanes_len_def)
  have c: "lanes_len (lanes_of snd (mailbox e)) < unat (capacity (default_config (registry_of (demo_sched None Stopped []))))"
    using demo_sched_entry(3) [of "[]" None Stopped] demo_cfg8(2) e(3) by simp
  show ?thesis
    using try_send_to_dead_accepted [OF standin_sch.scheduler_env_axioms demo_sched_entry(1) e(1,2) c
        demo_sched_simps(1) zero_less_one, of "demo_msg Normal 1"] by force
qed

section \<open>Starting\<close>

lemma start_workers_prefix:
  assumes "spawn_error k = Some err" and "\<forall>j \<in> set js. spawn_error j = None"
  shows "\<exists>s'. start_workers X spawn_error (js @ k # ks) s =
      (Err (Internal ([Str ''Failed to spawn worker thread '', Num k, Str '': ''] @ err)), s')
    \<and> worker_handles s' = worker_handles s @ js \<and> is_running s' = is_running s
    \<and> worker_stats_of s' = worker_stats_of s"
  using assms(2)
proof (induction js arbitrary: s)
  case Nil
  then show ?case using assms(1) by (simp add: Let_def)
next
  case (Cons j js)
  have none: "spawn_error j = None" "\<forall>j \<in> set js. spawn_error j = None" using Cons.prems by auto
  define s1 where "s1 = s\<lparr>deques := create_local_queue X j (deques s),
      stealer_registry_of := add_stealer j j (stealer_registry_of s), worker_handles := worker_handles s @ [j]\<rparr>"
  have "start_workers X spawn_error ((j # js) @ k # ks) s = start_workers X spawn_error (js @ k # ks) s1"
    using none(1) by (simp add: Let_def s1_def)
  moreover have "worker_handles s1 = worker_handles s @ [j]" "is_running s1 = is_running s"
    "worker_stats_of s1 = worker_stats_of s" by (simp_all add: s1_def)
  ultimately show ?case using Cons.IH [OF none(2), of s1] by auto
qed

text \<open>
  A start that fails is final. When the thread of worker \<open>k\<close> cannot be spawned,
  \<open>start\<close> reports the error with \<open>k\<close> workers running and the scheduler marked as
  running, and every later \<open>start\<close> reports success without spawning anything: the
  missing workers never come.
\<close>

lemma failed_start_is_final:
  assumes "\<not> is_running s" and "k < length (worker_stats_of s)"
    and "spawn_error k = Some err" and "\<forall>j < k. spawn_error j = None"
  shows "\<exists>s'. sched_start X spawn_error s =
      (Err (Internal ([Str ''Failed to spawn worker thread '', Num k, Str '': ''] @ err)), s')
    \<and> worker_handles s' = worker_handles s @ [0..<k] \<and> is_running s'
    \<and> (\<forall>spawn_error'. sched_start X spawn_error' s' = (Ok (), s'))"
proof -
  have split: "[0..<length (worker_stats_of s)] = [0..<k] @ k # [Suc k..<length (worker_stats_of s)]"
    using assms(2) by (metis le0 less_or_eq_imp_le upt_add_eq_append upt_conv_Cons add_0 le_add_diff_inverse)
  have "\<forall>j \<in> set [0..<k]. spawn_error j = None" using assms(4) by simp
  from start_workers_prefix [OF assms(3) this, of X "[Suc k..<length (worker_stats_of s)]" "s\<lparr>is_running := True\<rparr>"]
  show ?thesis using assms(1) by (auto simp: sched_start_def split)
qed

lemma failed_start_is_final_example:
  "\<exists>s'. fst (sched_start standin_sch (\<lambda>_. Some []) (demo_sched None Running [])) \<noteq> Ok ()
     \<and> sched_start standin_sch (\<lambda>_. Some []) (demo_sched None Running []) =
         (Err (Internal [Str ''Failed to spawn worker thread '', Num 0, Str '': '']), s')
     \<and> sched_start standin_sch (\<lambda>_. None) s' = (Ok (), s') \<and> worker_handles s' = []"
proof -
  have "\<not> is_running (demo_sched None Running [])" "worker_handles (demo_sched None Running []) = []"
    by (simp_all add: demo_sched_def with_options_def)
  then show ?thesis
    using failed_start_is_final [of "demo_sched None Running []" 0 "\<lambda>_. Some []" "[]" standin_sch] by auto
qed

end
