(* ===== verification/Memory_Pool.thy ===== *)
theory Memory_Pool
  imports Floats
begin

text \<open>
  The bump allocator of \<open>src/memory_pool.rs\<close>, the crate's only unsafe code: an arena
  handed out from the front, and a free list threaded through the blocks that came back.
  Addresses are machine words and the memory is a function from the address of an aligned
  word to its content, so that the links of the free list live in the same memory as the
  data of the borrowers and the loop over it can run astray if they are overwritten.
\<close>

unbundle bit_operations_syntax

section \<open>Configuration\<close>

definition DEFAULT_ARENA_SIZE :: usize where
  "DEFAULT_ARENA_SIZE = 8 * 1024"

definition DEFAULT_PAGE_SIZE :: usize where
  "DEFAULT_PAGE_SIZE = 64"

definition DEFAULT_MAX_POOLS :: usize where
  "DEFAULT_MAX_POOLS = 1024"

definition MIN_BLOCK_SIZE :: usize where
  "MIN_BLOCK_SIZE = 16"

record pool_config =
  arena_size_bytes :: usize
  page_size :: usize
  max_pools :: usize
  preallocate :: bool

definition PoolConfig_default :: pool_config where
  "PoolConfig_default =
     \<lparr>arena_size_bytes = DEFAULT_ARENA_SIZE, page_size = DEFAULT_PAGE_SIZE,
      max_pools = DEFAULT_MAX_POOLS, preallocate = True\<rparr>"

definition set_arena_size_bytes :: "usize \<Rightarrow> pool_config \<Rightarrow> pool_config" where
  "set_arena_size_bytes bytes c = c\<lparr>arena_size_bytes := bytes\<rparr>"

definition set_page_size :: "usize \<Rightarrow> pool_config \<Rightarrow> pool_config" where
  "set_page_size sz c = c\<lparr>page_size := max sz MIN_BLOCK_SIZE\<rparr>"

definition set_max_pools :: "usize \<Rightarrow> pool_config \<Rightarrow> pool_config" where
  "set_max_pools m c = c\<lparr>max_pools := m\<rparr>"

definition set_preallocate :: "bool \<Rightarrow> pool_config \<Rightarrow> pool_config" where
  "set_preallocate yes c = c\<lparr>preallocate := yes\<rparr>"

section \<open>Blocks and the allocator\<close>

text \<open>
  A \<open>FreeBlock\<close> at address \<open>p\<close> has its sz in the word at \<open>p\<close> and its link in the one
  after it; the null pointer is zero.
\<close>

type_synonym memory = "usize \<Rightarrow> u64"

definition free_block :: "usize \<Rightarrow> usize \<Rightarrow> usize \<Rightarrow> memory \<Rightarrow> memory" where
  "free_block p sz next mem = mem(p := sz, p + 8 := next)"

record memory_block =
  ptr :: usize
  block_size :: usize

record pool_inner =
  arena :: "usize option"
  arena_size :: usize
  bump_offset :: usize
  freed_list :: usize
  total_allocated :: u64
  total_freed :: u64
  active_pools :: u64
  pool_config_of :: pool_config

definition no_arena :: pool_inner where
  "no_arena =
     \<lparr>arena = None, arena_size = 0, bump_offset = 0, freed_list = 0, total_allocated = 0,
      total_freed = 0, active_pools = 1, pool_config_of = PoolConfig_default\<rparr>"

text \<open>
  \<open>Layout::from_size_align\<close> refuses sizes that exceed \<open>isize::MAX\<close> when rounded up to
  the alignment. \<open>alloc\<close> is the answer of the global allocator, \<open>None\<close> for null.
\<close>

definition layout_ok :: "usize \<Rightarrow> bool" where
  "layout_ok sz = (unat sz \<le> 2 ^ 63 - 1 - 7)"

definition PoolInner_new :: "usize option \<Rightarrow> pool_config \<Rightarrow> pool_inner" where
  "PoolInner_new alloc c =
     (if preallocate c
      then let sz = arena_size_bytes c
           in if \<not> layout_ok sz then no_arena
              else (case alloc of
                      Some p \<Rightarrow> \<lparr>arena = Some p, arena_size = sz, bump_offset = 0, freed_list = 0,
                                 total_allocated = 0, total_freed = 0, active_pools = 1, pool_config_of = c\<rparr>
                    | None \<Rightarrow> no_arena)
      else no_arena)"

text \<open>The search of the free list; \<open>None\<close> is a walk that never ends.\<close>

partial_function (option) freed_walk ::
  "memory \<Rightarrow> usize \<Rightarrow> usize \<Rightarrow> usize \<Rightarrow> (usize \<times> usize) option option" where
  "freed_walk mem sz prev current =
     (if current = 0 then Some None
      else if sz \<le> mem current then Some (Some (prev, current))
      else freed_walk mem sz current (mem (current + 8)))"

declare freed_walk.simps [code]

definition try_borrow_from_freed_list ::
  "usize \<Rightarrow> pool_inner \<times> memory \<Rightarrow> (usize option \<times> pool_inner \<times> memory) option" where
  "try_borrow_from_freed_list sz im =
     (case im of (inner, mem) \<Rightarrow>
        map_option
          (\<lambda>r. case r of
                 None \<Rightarrow> (None, inner, mem)
               | Some (prev, current) \<Rightarrow>
                   if prev = 0 then (Some current, inner\<lparr>freed_list := mem (current + 8)\<rparr>, mem)
                   else (Some current, inner, mem(prev + 8 := mem (current + 8))))
          (freed_walk mem sz 0 (freed_list inner)))"

definition try_bump_allocate :: "usize \<Rightarrow> pool_inner \<Rightarrow> usize option \<times> pool_inner" where
  "try_bump_allocate sz inner =
     (case arena inner of
        None \<Rightarrow> (None, inner)
      | Some arena_ptr \<Rightarrow>
          let aligned_size = (sz + 7) AND NOT 7
          in case checked_add (bump_offset inner) aligned_size of
               None \<Rightarrow> (None, inner)
             | Some new_offset \<Rightarrow>
                 if arena_size inner < new_offset then (None, inner)
                 else (Some (arena_ptr + bump_offset inner), inner\<lparr>bump_offset := new_offset\<rparr>))"

text \<open>\<open>NonNull::dangling\<close> of a byte is the address one.\<close>

definition borrow ::
  "usize \<Rightarrow> pool_inner \<times> memory \<Rightarrow> (memory_block option \<times> pool_inner \<times> memory) option" where
  "borrow sz im =
     (if sz = 0 then Some (Some \<lparr>ptr = 1, block_size = 0\<rparr>, im)
      else let adjusted_size = max sz MIN_BLOCK_SIZE
           in map_option
                (\<lambda>(r, inner, mem).
                   case (case r of Some p \<Rightarrow> (Some p, inner) | None \<Rightarrow> try_bump_allocate adjusted_size inner) of
                     (None, inner) \<Rightarrow> (None, inner, mem)
                   | (Some p, inner) \<Rightarrow>
                       (Some \<lparr>ptr = p, block_size = adjusted_size\<rparr>,
                        inner\<lparr>total_allocated := total_allocated inner + adjusted_size\<rparr>, mem))
                (try_borrow_from_freed_list adjusted_size im))"

definition MemoryBlock_drop :: "memory_block \<Rightarrow> pool_inner \<times> memory \<Rightarrow> pool_inner \<times> memory" where
  "MemoryBlock_drop b im =
     (case im of (inner, mem) \<Rightarrow>
        if block_size b = 0 then (inner, mem)
        else (inner\<lparr>freed_list := ptr b, total_freed := total_freed inner + block_size b\<rparr>,
              free_block (ptr b) (block_size b) (freed_list inner) mem))"

text \<open>The words a borrower can read and write through \<open>data\<close> and \<open>data_mut\<close>.\<close>

definition up8 :: "nat \<Rightarrow> nat" where
  "up8 n = (n + 7) div 8 * 8"

definition data_words :: "memory_block \<Rightarrow> usize list" where
  "data_words b = map (\<lambda>k. ptr b + of_nat (8 * k)) [0..<up8 (unat (block_size b)) div 8]"

definition data_mut :: "memory_block \<Rightarrow> nat \<Rightarrow> u64 \<Rightarrow> memory \<Rightarrow> memory" where
  "data_mut b k v mem = (if k < length (data_words b) then mem(data_words b ! k := v) else mem)"

section \<open>Statistics and reset\<close>

record pool_stats =
  ps_total_allocated :: u64
  ps_total_freed :: u64
  ps_active_pools :: u64
  ps_fragmentation_ratio :: float

definition fragmentation_ratio :: "pool_inner \<Rightarrow> float" where
  "fragmentation_ratio inner =
     (if total_allocated inner = 0 then Fin 0 0
      else float_div f64 (float_of_nat f64 (unat (total_freed inner)))
             (float_of_nat f64 (unat (total_allocated inner))))"

definition pool_stats_of :: "pool_inner \<Rightarrow> pool_stats" where
  "pool_stats_of inner =
     \<lparr>ps_total_allocated = total_allocated inner, ps_total_freed = total_freed inner,
      ps_active_pools = active_pools inner, ps_fragmentation_ratio = fragmentation_ratio inner\<rparr>"

definition pool_capacity :: "pool_inner \<Rightarrow> usize" where
  "pool_capacity inner = arena_size inner"

definition pool_available :: "pool_inner \<Rightarrow> usize" where
  "pool_available inner = saturating_sub (arena_size inner) (bump_offset inner)"

definition pool_reset :: "pool_inner \<Rightarrow> pool_inner" where
  "pool_reset inner = inner\<lparr>bump_offset := 0, freed_list := 0, total_allocated := 0, total_freed := 0\<rparr>"

section \<open>Construction and destruction\<close>

definition BumpAllocator_new :: "usize option \<Rightarrow> pool_config \<Rightarrow> pool_inner" where
  "BumpAllocator_new alloc c = PoolInner_new alloc c"

definition BumpAllocator_default :: "usize option \<Rightarrow> pool_inner" where
  "BumpAllocator_default alloc = BumpAllocator_new alloc PoolConfig_default"

text \<open>Dropping the pool: the address and the size it hands to \<open>dealloc\<close>, if any.\<close>

definition PoolInner_drop :: "pool_inner \<Rightarrow> (usize \<times> usize) option \<times> pool_inner" where
  "PoolInner_drop inner =
     (case arena inner of
        None \<Rightarrow> (None, inner)
      | Some p \<Rightarrow> (if layout_ok (arena_size inner) then Some (p, arena_size inner) else None, inner\<lparr>arena := None\<rparr>))"

end
