(* ===== verification/Pool_Safety.thy ===== *)
theory Pool_Safety
  imports Memory_Pool
begin

text \<open>
  Memory safety of the pool: live blocks never overlap, stay in the arena and never
  overlap the links of the free list, whatever the borrowers write into their blocks;
  and the request sizes for which this fails.
\<close>

section \<open>Rounding up to the alignment\<close>

lemma up8_bounds: "n \<le> up8 n" "up8 n < n + 8" "8 dvd up8 n" "n \<le> m \<Longrightarrow> up8 n \<le> up8 m"
proof -
  have "(n + 7) div 8 * 8 + (n + 7) mod 8 = n + 7" by (rule div_mult_mod_eq)
  moreover have "(n + 7) mod 8 < 8" by simp
  ultimately show "n \<le> up8 n" "up8 n < n + 8" unfolding up8_def by linarith+
qed (simp_all add: up8_def div_le_mono)

lemma word_align_down: "x AND NOT 7 = of_nat (unat x div 8 * 8)" for x :: u64
proof -
  have m: "(7 :: u64) = mask 3" by (simp add: mask_eq_exp_minus_1)
  have "x AND NOT (mask 3) = push_bit 3 (drop_bit 3 x)"
    by (rule bit_word_eqI) (auto simp: bit_simps)
  also have "\<dots> = of_nat (unat x div 8 * 8)"
    by (simp add: push_bit_eq_mult drop_bit_eq_div word_arith_nat_div unsigned_of_nat)
  finally show ?thesis unfolding m .
qed

lemma aligned_size_small:
  assumes "unat (s :: u64) + 7 < 2 ^ 64"
  shows "unat ((s + 7) AND NOT 7) = up8 (unat s)"
proof -
  have s7: "unat (s + 7) = unat s + 7" using unat_add_no_wrap [of s 7] assms by simp
  have "(unat s + 7) div 8 * 8 < 2 ^ 64" using assms by (metis div_times_less_eq_dividend le_less_trans)
  then have "(unat s + 7) div 8 * 8 < 2 ^ LENGTH(64)" by simp
  then show ?thesis unfolding word_align_down s7 up8_def by (rule unat_of_nat_small)
qed

text \<open>The last seven sizes wrap around to nothing.\<close>

lemma aligned_size_wraps:
  assumes "2 ^ 64 - 7 \<le> unat (s :: u64)"
  shows "(s + 7) AND NOT 7 = 0"
proof -
  have "unat (s + 7) = (unat s + 7) mod 2 ^ 64" by (simp add: unat_word_ariths)
  also have "\<dots> = unat s + 7 - 2 ^ 64"
    using assms unat_u64_bound [of s] by (simp add: mod_if)
  finally have "unat (s + 7) < 8" using unat_u64_bound [of s] by simp
  then show ?thesis unfolding word_align_down by simp
qed

section \<open>Blocks apart\<close>

type_synonym extent = "usize \<times> usize"

definition bytes_of :: "extent \<Rightarrow> nat set" where
  "bytes_of b = {unat (fst b) ..< unat (fst b) + up8 (unat (snd b))}"

definition apart :: "extent \<Rightarrow> extent \<Rightarrow> bool" where
  "apart a b = (bytes_of a \<inter> bytes_of b = {})"

definition block_ok :: "nat \<Rightarrow> nat \<Rightarrow> extent \<Rightarrow> bool" where
  "block_ok base hi b =
     (16 \<le> unat (snd b) \<and> 8 dvd unat (fst b) \<and> base \<le> unat (fst b) \<and> unat (fst b) + up8 (unat (snd b)) \<le> hi)"

definition blocks_ok :: "nat \<Rightarrow> nat \<Rightarrow> extent list \<Rightarrow> bool" where
  "blocks_ok base hi bs = (sorted_wrt apart bs \<and> (\<forall>b \<in> set bs. block_ok base hi b))"

lemma apart_sym: "apart a b = apart b a"
  by (auto simp: apart_def)

lemma blocks_ok_move: "blocks_ok base hi (xs @ b # ys) = blocks_ok base hi (b # xs @ ys)"
  by (auto simp: blocks_ok_def sorted_wrt_append apart_sym)

lemma blocks_ok_weaken: "blocks_ok base hi bs \<Longrightarrow> hi \<le> hi2 \<Longrightarrow> blocks_ok base hi2 bs"
  by (auto simp: blocks_ok_def block_ok_def)

text \<open>A block may be handed out again with a smaller size.\<close>

lemma blocks_ok_shrink:
  assumes "blocks_ok base hi ((p, s) # bs)" and "unat s' \<le> unat s" "16 \<le> unat s'"
  shows "blocks_ok base hi ((p, s') # bs)"
proof -
  have "up8 (unat s') \<le> up8 (unat s)" by (rule up8_bounds(4) [OF assms(2)])
  then show ?thesis
    using assms by (fastforce simp: blocks_ok_def block_ok_def apart_def bytes_of_def)
qed

text \<open>The two words of a free block's header are in it, and so in no other block.\<close>

definition headers :: "extent list \<Rightarrow> usize set" where
  "headers fs = (\<Union>b \<in> set fs. {fst b, fst b + 8})"

lemma header_bytes:
  assumes "block_ok base hi b" and "hi < 2 ^ 64"
  shows "unat (fst b) \<in> bytes_of b" "unat (fst b + 8) \<in> bytes_of b" "unat (fst b + 8) = unat (fst b) + 8"
proof -
  have u: "unat (snd b) \<le> up8 (unat (snd b))" by (rule up8_bounds(1))
  show e: "unat (fst b + 8) = unat (fst b) + 8"
    using unat_add_no_wrap [of "fst b" 8] assms u by (simp add: block_ok_def)
  show "unat (fst b) \<in> bytes_of b" "unat (fst b + 8) \<in> bytes_of b"
    using assms u by (auto simp: bytes_of_def block_ok_def e)
qed

lemma headers_apart:
  assumes "blocks_ok base hi (b # bs)" and "hi < 2 ^ 64" and "unat a \<in> bytes_of b"
  shows "a \<notin> headers bs"
proof
  assume "a \<in> headers bs"
  then obtain c where c: "c \<in> set bs" "a = fst c \<or> a = fst c + 8" by (auto simp: headers_def)
  have "block_ok base hi c" "apart b c" using assms(1) c(1) by (auto simp: blocks_ok_def)
  then show False
    using header_bytes [OF \<open>block_ok base hi c\<close> assms(2)] c(2) assms(3) by (auto simp: apart_def)
qed

section \<open>The free list in memory\<close>

fun path :: "memory \<Rightarrow> usize \<Rightarrow> extent list \<Rightarrow> usize \<Rightarrow> bool" where
  "path mem p [] r = (p = r)"
| "path mem p (b # bs) r = (p = fst b \<and> mem (fst b) = snd b \<and> path mem (mem (fst b + 8)) bs r)"

lemma path_append: "path mem p (as @ bs) r = (\<exists>q. path mem p as q \<and> path mem q bs r)"
  by (induction as arbitrary: p) auto

lemma path_upd: "a \<notin> headers bs \<Longrightarrow> path (mem(a := v)) p bs r = path mem p bs r"
  by (induction bs arbitrary: p) (auto simp: headers_def)

text \<open>The walk stops at the first block that is large enough.\<close>

lemma freed_walk_path:
  assumes "path mem p bs 0" and "\<forall>b \<in> set bs. fst b \<noteq> 0"
  shows "freed_walk mem s prev p =
    Some (case dropWhile (\<lambda>b. snd b < s) bs of
            [] \<Rightarrow> None
          | b # _ \<Rightarrow> Some (last (prev # map fst (takeWhile (\<lambda>b. snd b < s) bs)), fst b))"
  using assms
proof (induction bs arbitrary: p prev)
  case Nil
  then show ?case by (simp add: freed_walk.simps)
next
  case (Cons b bs)
  show ?case
  proof (cases "snd b < s")
    case True
    have "freed_walk mem s prev p = freed_walk mem s (fst b) (mem (fst b + 8))"
      using Cons.prems True by (subst freed_walk.simps) (auto simp: not_le)
    then show ?thesis using Cons True by (cases "dropWhile (\<lambda>b. snd b < s) bs") (simp_all del: dropWhile_eq_Nil_conv)
  next
    case False
    then show ?thesis using Cons.prems by (subst freed_walk.simps) (auto simp: not_less)
  qed
qed

text \<open>Unlinking a block takes it out of the list and leaves the others.\<close>

lemma path_unlink:
  assumes "path mem p (as @ b # bs) 0" and ok: "blocks_ok base hi (as @ b # bs)" and hi: "hi < 2 ^ 64"
  shows "if as = [] then path mem (mem (fst b + 8)) bs 0
         else path (mem(fst (last as) + 8 := mem (fst b + 8))) p (as @ bs) 0"
proof (cases as rule: rev_cases)
  case Nil
  then show ?thesis using assms(1) by simp
next
  case (snoc as' l)
  have ok': "blocks_ok base hi (l # as' @ bs)"
    using ok snoc blocks_ok_move [of base hi as' l "b # bs"] blocks_ok_move [of base hi "l # as'" b bs]
    by (auto simp: blocks_ok_def)
  have bl: "block_ok base hi l" using ok' by (simp add: blocks_ok_def)
  note h = header_bytes [OF bl hi]
  have no: "fst l + 8 \<notin> headers (as' @ bs)" by (rule headers_apart [OF ok' hi h(2)])
  have ne: "fst l + 8 \<noteq> fst l" using h(3) by (metis add.commute less_add_eq_less n_not_Suc_n not_add_less2 zero_less_numeral add_cancel_right_right zero_neq_numeral)
  have no': "fst l + 8 \<notin> headers as'" "fst l + 8 \<notin> headers bs" using no by (auto simp: headers_def)
  show ?thesis
    using assms(1) snoc ne by (auto simp: path_append path_upd [OF no'(1)] path_upd [OF no'(2)])
qed

section \<open>The invariant\<close>

definition extent_of :: "memory_block \<Rightarrow> extent" where
  "extent_of b = (ptr b, block_size b)"

text \<open>
  The free list is a list of blocks in memory; free and live blocks together are apart
  and lie in the part of the arena that has been handed out; and what has been allocated
  is what has been freed and what is live.
\<close>

definition pool_inv :: "pool_inner \<Rightarrow> memory \<Rightarrow> memory_block list \<Rightarrow> extent list \<Rightarrow> bool" where
  "pool_inv inner mem live fs =
     (path mem (freed_list inner) fs 0
      \<and> total_allocated inner = total_freed inner + sum_list (map block_size live)
      \<and> (case arena inner of
           None \<Rightarrow> fs = [] \<and> live = []
         | Some p \<Rightarrow> 0 < unat p \<and> 8 dvd unat p \<and> unat p + unat (arena_size inner) < 2 ^ 64
             \<and> unat (bump_offset inner) \<le> unat (arena_size inner) \<and> 8 dvd unat (bump_offset inner)
             \<and> blocks_ok (unat p) (unat p + unat (bump_offset inner)) (fs @ map extent_of live)))"

lemma pool_inv_nonnull:
  assumes "pool_inv inner mem live fs"
  shows "\<forall>b \<in> set fs. fst b \<noteq> 0"
proof
  fix b assume b: "b \<in> set fs"
  then obtain p where "arena inner = Some p" "0 < unat p" "block_ok (unat p) (unat p + unat (bump_offset inner)) b"
    using assms by (cases "arena inner") (auto simp: pool_inv_def blocks_ok_def)
  then show "fst b \<noteq> 0" by (auto simp: block_ok_def)
qed

lemma blocks_ok_fresh:
  assumes "blocks_ok base (unat p) bs" and "8 dvd unat p" "base \<le> unat p" "16 \<le> unat s"
  shows "blocks_ok base (unat p + up8 (unat s)) (bs @ [(p, s)])"
  using assms
  by (fastforce simp: blocks_ok_def sorted_wrt_append block_ok_def apart_def bytes_of_def)

lemma blocks_ok_to_end: "blocks_ok base hi (b # bs) = blocks_ok base hi (bs @ [b])"
  using blocks_ok_move [of base hi bs b "[]"] by simp

lemma try_borrow_ok:
  assumes inv: "pool_inv inner mem live fs" and s: "16 \<le> unat s"
  shows "\<exists>r inner' mem' fs'. try_borrow_from_freed_list s (inner, mem) = Some (r, inner', mem')
    \<and> (case r of
         None \<Rightarrow> inner' = inner \<and> mem' = mem \<and> fs' = fs
       | Some p \<Rightarrow> pool_inv (inner'\<lparr>total_allocated := total_allocated inner' + s\<rparr>) mem'
                     (\<lparr>ptr = p, block_size = s\<rparr> # live) fs')"
proof -
  let ?P = "\<lambda>b :: extent. snd b < s"
  note w = freed_walk_path [OF _ pool_inv_nonnull [OF inv], of mem "freed_list inner" s 0]
  have path: "path mem (freed_list inner) fs 0" using inv by (simp add: pool_inv_def)
  show ?thesis
  proof (cases "dropWhile ?P fs")
    case Nil
    then show ?thesis using w [OF path] by (simp add: try_borrow_from_freed_list_def del: dropWhile_eq_Nil_conv)
  next
    case (Cons b bs)
    let ?as = "takeWhile ?P fs"
    have fs: "fs = ?as @ b # bs" using Cons takeWhile_dropWhile_id [of ?P fs] by simp
    have big: "unat s \<le> unat (snd b)"
      using hd_dropWhile [of ?P fs] Cons by (simp add: not_less word_le_nat_alt)
    obtain p where p: "arena inner = Some p"
      using inv fs by (cases "arena inner") (auto simp: pool_inv_def)
    let ?hi = "unat p + unat (bump_offset inner)"
    have ap: "fs @ map extent_of live = ?as @ b # bs @ map extent_of live" by (metis fs append.assoc append_Cons)
    have I: "unat p + unat (arena_size inner) < 2 ^ 64" "unat (bump_offset inner) \<le> unat (arena_size inner)"
      "blocks_ok (unat p) ?hi (?as @ b # bs @ map extent_of live)" "0 < unat p" "8 dvd unat p"
      "8 dvd unat (bump_offset inner)"
      using inv p ap by (simp_all add: pool_inv_def)
    have hi: "?hi < 2 ^ 64" using I by linarith
    have okf: "blocks_ok (unat p) ?hi (?as @ b # bs)"
      using I(3) by (auto simp: blocks_ok_def sorted_wrt_append)
    have "blocks_ok (unat p) ?hi ((fst b, snd b) # ?as @ bs @ map extent_of live)"
      using I(3) blocks_ok_move [of "unat p" ?hi ?as b "bs @ map extent_of live"] by simp
    then have ok': "blocks_ok (unat p) ?hi ((?as @ bs) @ extent_of \<lparr>ptr = fst b, block_size = s\<rparr> # map extent_of live)"
      using blocks_ok_shrink [OF _ big s] blocks_ok_move [of "unat p" ?hi "?as @ bs" "(fst b, s)" "map extent_of live"]
      by (simp add: extent_of_def)
    have unl: "if ?as = [] then path mem (mem (fst b + 8)) bs 0
        else path (mem(fst (last ?as) + 8 := mem (fst b + 8))) (freed_list inner) (?as @ bs) 0"
      using path_unlink [OF _ okf hi] path fs by metis
    have prev: "last (0 # map fst ?as) = (if ?as = [] then 0 else fst (last ?as))" by (simp add: last_map)
    have nz: "?as \<noteq> [] \<Longrightarrow> fst (last ?as) \<noteq> 0"
      using pool_inv_nonnull [OF inv] last_in_set [of ?as] by (metis set_takeWhileD)
    have tot: "total_allocated inner = total_freed inner + sum_list (map block_size live)"
      using inv by (simp add: pool_inv_def)
    show ?thesis
    proof (cases "?as = []")
      case True
      then show ?thesis
        using w [OF path] Cons unl ok' p I tot prev
        by (auto simp: try_borrow_from_freed_list_def pool_inv_def simp del: takeWhile_eq_Nil_iff intro!: exI [where x = bs])
    next
      case False
      then show ?thesis
        using w [OF path] Cons unl ok' p I tot prev nz [OF False]
        by (auto simp: try_borrow_from_freed_list_def pool_inv_def simp del: takeWhile_eq_Nil_iff
            intro!: exI [where x = "?as @ bs"])
    qed
  qed
qed

lemma try_bump_ok:
  assumes inv: "pool_inv inner mem live fs" and s: "16 \<le> unat s" "unat s + 7 < 2 ^ 64"
    and r: "try_bump_allocate s inner = (r, inner')"
  shows "case r of
      None \<Rightarrow> inner' = inner
    | Some p \<Rightarrow> pool_inv (inner'\<lparr>total_allocated := total_allocated inner' + s\<rparr>) mem
                  (\<lparr>ptr = p, block_size = s\<rparr> # live) fs"
proof (cases "arena inner")
  case None
  then show ?thesis using r by (auto simp: try_bump_allocate_def)
next
  case (Some p)
  let ?o = "bump_offset inner" and ?n = "(s + 7) AND NOT 7"
  have n: "unat ?n = up8 (unat s)" by (rule aligned_size_small [OF s(2)])
  have I: "path mem (freed_list inner) fs 0" "0 < unat p" "8 dvd unat p" "unat p + unat (arena_size inner) < 2 ^ 64"
    "unat ?o \<le> unat (arena_size inner)" "8 dvd unat ?o" "blocks_ok (unat p) (unat p + unat ?o) (fs @ map extent_of live)"
    "total_allocated inner = total_freed inner + sum_list (map block_size live)"
    using inv Some by (simp_all add: pool_inv_def)
  show ?thesis
  proof (cases "unat ?o + unat ?n < 2 ^ 64 \<and> ?o + ?n \<le> arena_size inner")
    case False
    then show ?thesis using r Some by (auto simp: try_bump_allocate_def checked_add_def Let_def not_less split: if_splits)
  next
    case True
    have on: "unat (?o + ?n) = unat ?o + unat ?n" using True by (intro unat_add_no_wrap) simp
    have po: "unat (p + ?o) = unat p + unat ?o" using I by (intro unat_add_no_wrap) simp
    have le: "unat ?o + up8 (unat s) \<le> unat (arena_size inner)" using True on n by (simp add: word_le_nat_alt)
    have "blocks_ok (unat p) (unat (p + ?o) + up8 (unat s)) ((fs @ map extent_of live) @ [(p + ?o, s)])"
      by (rule blocks_ok_fresh) (use I s(1) po in simp_all)
    then have "blocks_ok (unat p) (unat p + unat (?o + ?n)) (fs @ (p + ?o, s) # map extent_of live)"
      using blocks_ok_to_end [of _ _ "(p + ?o, s)" "fs @ map extent_of live"]
        blocks_ok_move [of _ _ fs "(p + ?o, s)" "map extent_of live"] po on n by (simp add: add.assoc)
    moreover have "r = Some (p + ?o)" "inner' = inner\<lparr>bump_offset := ?o + ?n\<rparr>"
      using r Some True by (auto simp: try_bump_allocate_def checked_add_def Let_def dest: leD split: if_splits)
    ultimately show ?thesis
      using I Some le on n up8_bounds(3) [of "unat s"] by (simp add: pool_inv_def extent_of_def add.assoc add.commute)
  qed
qed

lemma borrow_ok:
  assumes inv: "pool_inv inner mem live fs" and s: "unat sz + 7 < 2 ^ 64"
  shows "\<exists>b inner' mem' fs'. borrow sz (inner, mem) = Some (b, inner', mem')
    \<and> pool_inv inner' mem' (case b of None \<Rightarrow> live | Some b \<Rightarrow> if block_size b = 0 then live else b # live) fs'"
proof (cases "sz = 0")
  case True
  then show ?thesis using inv by (auto simp: borrow_def)
next
  case False
  let ?s = "max sz MIN_BLOCK_SIZE"
  have s': "16 \<le> unat ?s" "unat ?s + 7 < 2 ^ 64" "?s \<noteq> 0"
    using s by (auto simp: max_def MIN_BLOCK_SIZE_def word_le_nat_alt)
  obtain r inner' mem' fs' where t: "try_borrow_from_freed_list ?s (inner, mem) = Some (r, inner', mem')"
    "case r of None \<Rightarrow> inner' = inner \<and> mem' = mem \<and> fs' = fs
       | Some p \<Rightarrow> pool_inv (inner'\<lparr>total_allocated := total_allocated inner' + ?s\<rparr>) mem'
                     (\<lparr>ptr = p, block_size = ?s\<rparr> # live) fs'"
    using try_borrow_ok [OF inv s'(1)] by blast
  show ?thesis
  proof (cases r)
    case (Some p)
    then show ?thesis using t False s'(3) by (auto simp: borrow_def Let_def)
  next
    case None
    obtain r' inner'' where b: "try_bump_allocate ?s inner = (r', inner'')" by fastforce
    show ?thesis
      using t None b try_bump_ok [OF inv s'(1,2) b] False s'(3) inv
      by (cases r') (auto simp: borrow_def Let_def)
  qed
qed

lemma sum_list_remove_nth:
  "k < length xs \<Longrightarrow> sum_list (map f xs) = f (xs ! k) + sum_list (map f (take k xs @ drop (Suc k) xs))"
  for f :: "'a \<Rightarrow> 'b::comm_monoid_add"
  by (subst id_take_nth_drop [of k xs]) (simp_all add: ac_simps)

lemma drop_ok:
  assumes inv: "pool_inv inner mem live fs" and k: "k < length live"
  shows "case MemoryBlock_drop (live ! k) (inner, mem) of (inner', mem') \<Rightarrow>
    pool_inv inner' mem' (take k live @ drop (Suc k) live) (extent_of (live ! k) # fs)"
proof -
  let ?b = "live ! k" and ?rest = "take k live @ drop (Suc k) live"
  obtain p where p: "arena inner = Some p" using inv k by (cases "arena inner") (auto simp: pool_inv_def)
  let ?hi = "unat p + unat (bump_offset inner)"
  have I: "path mem (freed_list inner) fs 0" "unat p + unat (arena_size inner) < 2 ^ 64"
    "unat (bump_offset inner) \<le> unat (arena_size inner)" "blocks_ok (unat p) ?hi (fs @ map extent_of live)"
    using inv p by (simp_all add: pool_inv_def)
  have hi: "?hi < 2 ^ 64" using I by linarith
  have "map extent_of live = map extent_of (take k live) @ extent_of ?b # map extent_of (drop (Suc k) live)"
    by (subst id_take_nth_drop [OF k]) simp
  then have ok: "blocks_ok (unat p) ?hi (extent_of ?b # fs @ map extent_of ?rest)"
    using I(4) blocks_ok_move [of "unat p" ?hi "fs @ map extent_of (take k live)" "extent_of ?b"] by simp
  have bo: "block_ok (unat p) ?hi (extent_of ?b)" using ok by (simp add: blocks_ok_def)
  note h = header_bytes [OF bo hi]
  have okf: "blocks_ok (unat p) ?hi (extent_of ?b # fs)"
    using ok by (auto simp: blocks_ok_def sorted_wrt_append)
  have no: "ptr ?b \<notin> headers fs" "ptr ?b + 8 \<notin> headers fs"
    using headers_apart [OF okf hi h(1)] headers_apart [OF okf hi h(2)] by (simp_all add: extent_of_def)
  have ne: "ptr ?b + 8 \<noteq> ptr ?b" using h(3) by (auto simp: extent_of_def)
  have pth: "path (free_block (ptr ?b) (block_size ?b) (freed_list inner) mem) (ptr ?b) (extent_of ?b # fs) 0"
    using I(1) ne path_upd [OF no(2)] path_upd [OF no(1)] by (simp add: free_block_def extent_of_def)
  have bs: "block_size ?b \<noteq> 0" using bo by (auto simp: block_ok_def extent_of_def)
  have "sum_list (map block_size live) = block_size ?b + sum_list (map block_size ?rest)"
    by (rule sum_list_remove_nth [OF k])
  then show ?thesis
    using inv p pth bs ok by (auto simp: pool_inv_def MemoryBlock_drop_def add.assoc)
qed

lemma write_ok:
  assumes inv: "pool_inv inner mem live fs" and k: "k < length live"
  shows "pool_inv inner (data_mut (live ! k) j v mem) live fs"
proof (cases "j < length (data_words (live ! k))")
  case True
  let ?b = "live ! k"
  obtain p where p: "arena inner = Some p" using inv k by (cases "arena inner") (auto simp: pool_inv_def)
  let ?hi = "unat p + unat (bump_offset inner)"
  have I: "path mem (freed_list inner) fs 0" "unat p + unat (arena_size inner) < 2 ^ 64"
    "unat (bump_offset inner) \<le> unat (arena_size inner)" "blocks_ok (unat p) ?hi (fs @ map extent_of live)"
    using inv p by (simp_all add: pool_inv_def)
  have hi: "?hi < 2 ^ 64" using I by linarith
  have "map extent_of live = map extent_of (take k live) @ extent_of ?b # map extent_of (drop (Suc k) live)"
    by (subst id_take_nth_drop [OF k]) simp
  then have ok: "blocks_ok (unat p) ?hi (extent_of ?b # fs @ map extent_of (take k live @ drop (Suc k) live))"
    using I(4) blocks_ok_move [of "unat p" ?hi "fs @ map extent_of (take k live)" "extent_of ?b"] by simp
  have okf: "blocks_ok (unat p) ?hi (extent_of ?b # fs)" using ok by (auto simp: blocks_ok_def sorted_wrt_append)
  have bo: "block_ok (unat p) ?hi (extent_of ?b)" using ok by (simp add: blocks_ok_def)
  let ?u = "up8 (unat (block_size ?b))"
  have j: "8 * j + 8 \<le> ?u" using True up8_bounds(3) [of "unat (block_size ?b)"] by (auto simp: data_words_def elim!: dvdE)
  have top: "unat (ptr ?b) + ?u \<le> ?hi" using bo by (simp add: block_ok_def extent_of_def)
  have "unat (of_nat (8 * j) :: u64) = 8 * j" by (rule unat_of_nat_small) (use j top hi in simp)
  then have "unat (data_words ?b ! j) = unat (ptr ?b) + 8 * j"
    using True unat_add_no_wrap [of "ptr ?b" "of_nat (8 * j)"] j top hi by (simp add: data_words_def)
  then have "unat (data_words ?b ! j) \<in> bytes_of (extent_of ?b)" using j by (simp add: bytes_of_def extent_of_def)
  from headers_apart [OF okf hi this] show ?thesis
    using inv p path_upd by (auto simp: pool_inv_def data_mut_def True)
qed (use inv in \<open>simp add: data_mut_def\<close>)

section \<open>Runs\<close>

datatype pool_event =
    Borrow usize
  | DropBlock nat
  | WriteData nat nat u64
  | ResetPool

text \<open>The pool, the memory, and the blocks that are out; a block of size zero owns nothing.\<close>

type_synonym pool_state = "(pool_inner \<times> memory) \<times> memory_block list"

fun pool_step :: "pool_event \<Rightarrow> pool_state \<Rightarrow> pool_state option" where
  "pool_step (Borrow sz) (im, live) =
     map_option (\<lambda>(b, im). (im, case b of None \<Rightarrow> live | Some b \<Rightarrow> if block_size b = 0 then live else b # live))
       (borrow sz im)"
| "pool_step (DropBlock k) (im, live) = Some (MemoryBlock_drop (live ! k) im, take k live @ drop (Suc k) live)"
| "pool_step (WriteData k j v) ((inner, mem), live) = Some ((inner, data_mut (live ! k) j v mem), live)"
| "pool_step ResetPool ((inner, mem), live) = Some ((pool_reset inner, mem), live)"

text \<open>
  Only blocks that are out can be dropped or written, \<open>reset\<close> needs all blocks back, as
  the module's documentation demands, and the last seven sizes are excluded.
\<close>

fun pool_guard :: "pool_event \<Rightarrow> pool_state \<Rightarrow> bool" where
  "pool_guard (Borrow sz) s = (unat sz + 7 < 2 ^ 64)"
| "pool_guard (DropBlock k) s = (k < length (snd s))"
| "pool_guard (WriteData k j v) s = (k < length (snd s))"
| "pool_guard ResetPool s = (snd s = [])"

fun pool_run :: "pool_event list \<Rightarrow> pool_state \<Rightarrow> pool_state option" where
  "pool_run [] s = Some s"
| "pool_run (e # es) s = (case pool_step e s of None \<Rightarrow> None | Some s \<Rightarrow> pool_run es s)"

fun pool_guarded :: "pool_event list \<Rightarrow> pool_state \<Rightarrow> bool" where
  "pool_guarded [] s = True"
| "pool_guarded (e # es) s =
     (pool_guard e s \<and> (case pool_step e s of None \<Rightarrow> True | Some s \<Rightarrow> pool_guarded es s))"

lemma pool_step_inv:
  assumes "pool_inv inner mem live fs" and "pool_guard e ((inner, mem), live)"
  shows "\<exists>inner' mem' live' fs'. pool_step e ((inner, mem), live) = Some ((inner', mem'), live')
    \<and> pool_inv inner' mem' live' fs'"
proof (cases e)
  case (Borrow sz)
  then show ?thesis using borrow_ok [OF assms(1), of sz] assms(2) by fastforce
next
  case (DropBlock k)
  then show ?thesis
    using drop_ok [OF assms(1), of k] assms(2) by (cases "MemoryBlock_drop (live ! k) (inner, mem)") auto
next
  case (WriteData k j v)
  then show ?thesis using write_ok [OF assms(1), of k j v] assms(2) by auto
next
  case ResetPool
  then show ?thesis
    using assms
    by (intro exI [where x = "pool_reset inner"] exI [where x = mem] exI [where x = live] exI [where x = "[]"])
       (auto simp: pool_reset_def pool_inv_def blocks_ok_def split: option.split)
qed

lemma pool_run_inv:
  assumes "pool_inv inner mem live fs" and "pool_guarded es ((inner, mem), live)"
  shows "\<exists>inner' mem' live' fs'. pool_run es ((inner, mem), live) = Some ((inner', mem'), live')
    \<and> pool_inv inner' mem' live' fs'"
  using assms
proof (induction es arbitrary: inner mem live fs)
  case (Cons e es)
  obtain inner' mem' live' fs' where "pool_step e ((inner, mem), live) = Some ((inner', mem'), live')"
    "pool_inv inner' mem' live' fs'"
    using pool_step_inv [OF Cons.prems(1)] Cons.prems(2) by (metis pool_guarded.simps(2))
  then show ?case using Cons.IH [of inner' mem' live' fs'] Cons.prems(2) by simp
qed auto

text \<open>What the global allocator promises for the arena: aligned, not null, not wrapping.\<close>

definition arena_ok :: "usize option \<Rightarrow> usize \<Rightarrow> bool" where
  "arena_ok alloc sz =
     (case alloc of None \<Rightarrow> True | Some p \<Rightarrow> 0 < unat p \<and> 8 dvd unat p \<and> unat p + unat sz < 2 ^ 64)"

lemma new_pool_inv:
  assumes "arena_ok alloc (arena_size_bytes c)"
  shows "pool_inv (PoolInner_new alloc c) mem [] []"
  using assms
  by (auto simp: PoolInner_new_def no_arena_def pool_inv_def blocks_ok_def arena_ok_def Let_def split: option.split)

text \<open>
  No operation moves or resizes the arena, so the pool frees exactly what it was given:
  the address of \<open>alloc\<close> with the layout it was asked for, once.
\<close>

lemma try_arena:
  "try_borrow_from_freed_list sz (inner, mem) = Some (r, inner', mem') \<Longrightarrow>
     arena inner' = arena inner \<and> arena_size inner' = arena_size inner"
  "try_bump_allocate sz inner = (r', inner') \<Longrightarrow> arena inner' = arena inner \<and> arena_size inner' = arena_size inner"
proof -
  assume a: "try_borrow_from_freed_list sz (inner, mem) = Some (r, inner', mem')"
  then obtain w where w: "freed_walk mem sz 0 (freed_list inner) = Some w" by (auto simp: try_borrow_from_freed_list_def)
  then show "arena inner' = arena inner \<and> arena_size inner' = arena_size inner"
    using a by (cases w) (auto simp: try_borrow_from_freed_list_def split: if_split_asm)
qed (auto simp: try_bump_allocate_def Let_def split: if_splits option.splits)

lemma borrow_arena:
  assumes "borrow sz (inner, mem) = Some (b, inner', mem')"
  shows "arena inner' = arena inner \<and> arena_size inner' = arena_size inner"
proof (cases "sz = 0")
  case False
  let ?n = "max sz MIN_BLOCK_SIZE"
  obtain r inner1 mem1 where t: "try_borrow_from_freed_list ?n (inner, mem) = Some (r, inner1, mem1)"
    using assms False by (auto simp: borrow_def Let_def)
  obtain r2 inner2 where t2: "try_bump_allocate ?n inner1 = (r2, inner2)" by force
  show ?thesis
    using assms False t t2 try_arena(1) [OF t] try_arena(2) [OF t2]
    by (cases r; cases r2) (auto simp: borrow_def Let_def)
qed (use assms in \<open>simp add: borrow_def\<close>)

lemma pool_step_arena:
  assumes "pool_step e ((inner, mem), live) = Some ((inner', mem'), live')"
  shows "arena inner' = arena inner \<and> arena_size inner' = arena_size inner"
  using assms borrow_arena by (cases e) (auto simp: MemoryBlock_drop_def pool_reset_def split: if_splits)

lemma pool_run_arena:
  "pool_run es ((inner, mem), live) = Some ((inner', mem'), live') \<Longrightarrow>
     arena inner' = arena inner \<and> arena_size inner' = arena_size inner"
proof (induction es arbitrary: inner mem live)
  case (Cons e es)
  then obtain inner1 mem1 live1 where s: "pool_step e ((inner, mem), live) = Some ((inner1, mem1), live1)"
    "pool_run es ((inner1, mem1), live1) = Some ((inner', mem'), live')"
    by (auto split: option.splits)
  show ?case using Cons.IH [OF s(2)] pool_step_arena [OF s(1)] by simp
qed simp

lemma pool_drop_frees_arena:
  assumes "pool_run es ((BumpAllocator_new alloc c, mem), []) = Some ((inner, mem'), live)"
  shows "fst (PoolInner_drop inner) =
      (if preallocate c \<and> layout_ok (arena_size_bytes c) then map_option (\<lambda>p. (p, arena_size_bytes c)) alloc else None)"
    and "fst (PoolInner_drop (snd (PoolInner_drop inner))) = None"
proof -
  have "arena inner = arena (PoolInner_new alloc c)" "arena_size inner = arena_size (PoolInner_new alloc c)"
    using pool_run_arena [OF assms] by (simp_all add: BumpAllocator_new_def)
  then show "fst (PoolInner_drop inner) =
      (if preallocate c \<and> layout_ok (arena_size_bytes c) then map_option (\<lambda>p. (p, arena_size_bytes c)) alloc else None)"
    by (simp add: PoolInner_drop_def PoolInner_new_def no_arena_def Let_def split: option.split)
  show "fst (PoolInner_drop (snd (PoolInner_drop inner))) = None"
    by (simp add: PoolInner_drop_def split: option.split)
qed

section \<open>Properties\<close>

text \<open>
  C10: memory safety of the pool. Over any sequence of borrows, returns, writes by the
  borrowers to their own blocks, and resets with nothing out, every call returns (the
  walk over the free list ends) and the blocks that are out never overlap each other, are
  aligned, have at least the minimum size and lie within the arena; and the counters
  agree with them: what was allocated is what was freed plus what is out.
\<close>

theorem pool_run_memory_safe:
  assumes alloc: "arena_ok alloc (arena_size_bytes c)"
    and guarded: "pool_guarded es ((PoolInner_new alloc c, mem), [])"
  shows "\<exists>inner mem' live. pool_run es ((PoolInner_new alloc c, mem), []) = Some ((inner, mem'), live)
    \<and> sorted_wrt (\<lambda>a b. bytes_of (extent_of a) \<inter> bytes_of (extent_of b) = {}) live
    \<and> (\<forall>b \<in> set live. \<exists>p. arena inner = Some p \<and> 16 \<le> unat (block_size b) \<and> 8 dvd unat (ptr b)
         \<and> unat p \<le> unat (ptr b) \<and> unat (ptr b) + unat (block_size b) \<le> unat p + unat (arena_size inner))
    \<and> total_allocated inner = total_freed inner + sum_list (map block_size live)"
proof -
  obtain inner mem' live fs where r: "pool_run es ((PoolInner_new alloc c, mem), []) = Some ((inner, mem'), live)"
    "pool_inv inner mem' live fs"
    using pool_run_inv [OF new_pool_inv [OF alloc] guarded] by blast
  have sw: "sorted_wrt apart (map extent_of live)"
    using r(2) by (cases "arena inner") (auto simp: pool_inv_def blocks_ok_def sorted_wrt_append)
  have "\<exists>p. arena inner = Some p \<and> 16 \<le> unat (block_size b) \<and> 8 dvd unat (ptr b)
      \<and> unat p \<le> unat (ptr b) \<and> unat (ptr b) + unat (block_size b) \<le> unat p + unat (arena_size inner)"
    if b: "b \<in> set live" for b
  proof (cases "arena inner")
    case None
    then show ?thesis using r(2) b by (simp add: pool_inv_def)
  next
    case (Some p)
    then have I: "block_ok (unat p) (unat p + unat (bump_offset inner)) (extent_of b)"
      "unat (bump_offset inner) \<le> unat (arena_size inner)"
      using r(2) b by (auto simp: pool_inv_def blocks_ok_def)
    then show ?thesis using Some up8_bounds(1) [of "unat (block_size b)"] by (auto simp: block_ok_def extent_of_def)
  qed
  then show ?thesis
    using r sw by (auto simp: sorted_wrt_map apart_def pool_inv_def)
qed

definition demo_pool_events :: "pool_event list" where
  "demo_pool_events = [Borrow 24, Borrow 100, WriteData 1 0 7, DropBlock 1, Borrow 16, WriteData 0 1 9, DropBlock 1]"

theorem pool_run_memory_safe_witness:
  "\<exists>inner mem live. pool_run demo_pool_events ((PoolInner_new (Some 4096) PoolConfig_default, \<lambda>_. 0), [])
       = Some ((inner, mem), live)
     \<and> total_allocated inner = total_freed inner + sum_list (map block_size live)"
proof -
  have a: "arena_ok (Some 4096) (arena_size_bytes PoolConfig_default)"
    by (simp add: arena_ok_def PoolConfig_default_def DEFAULT_ARENA_SIZE_def)
  have "pool_guarded demo_pool_events ((PoolInner_new (Some 4096) PoolConfig_default, \<lambda>_. 0), [])"
    by code_simp
  from pool_run_memory_safe [OF a this] show ?thesis by blast
qed

text \<open>
  C31: the seven largest sizes break the pool. Rounding such a size up to the alignment
  wraps around to zero (in builds without overflow checks), so with an empty free list
  the request succeeds without consuming any of the arena: the block claims a size far
  beyond the arena, and every block that is bump-allocated next starts at the same
  address.
\<close>

theorem huge_borrow_aliases:
  assumes "arena inner = Some p" and "freed_list inner = 0" and "bump_offset inner \<le> arena_size inner"
    and "layout_ok (arena_size inner)" and "2 ^ 64 - 7 \<le> unat sz"
  shows "\<exists>b inner'. borrow sz (inner, mem) = Some (Some b, inner', mem)
    \<and> ptr b = p + bump_offset inner \<and> unat (arena_size inner) < unat (block_size b)
    \<and> (\<forall>sz2 b2 im2. sz2 \<noteq> 0 \<longrightarrow> borrow sz2 (inner', mem) = Some (Some b2, im2) \<longrightarrow> ptr b2 = ptr b)"
proof -
  let ?inner = "inner\<lparr>total_allocated := total_allocated inner + sz\<rparr>"
  have sz: "sz \<noteq> 0" "max sz MIN_BLOCK_SIZE = sz"
    using assms(5) by (auto simp: max_def MIN_BLOCK_SIZE_def word_le_nat_alt)
  have walk: "freed_walk mem s 0 0 = Some None" for s by (simp add: freed_walk.simps)
  have bump: "try_bump_allocate sz inner = (Some (p + bump_offset inner), inner)"
    using aligned_size_wraps [OF assms(5)] assms(1,3) unat_u64_bound [of "bump_offset inner"]
    unfolding try_bump_allocate_def Let_def by (simp add: checked_add_def leD)
  have "borrow sz (inner, mem) = Some (Some \<lparr>ptr = p + bump_offset inner, block_size = sz\<rparr>, ?inner, mem)"
    using sz bump walk assms(2) by (simp add: borrow_def try_borrow_from_freed_list_def Let_def)
  moreover have "unat (arena_size inner) < unat sz"
    using assms(4,5) by (simp add: layout_ok_def)
  moreover have "ptr b2 = p + bump_offset inner"
    if "sz2 \<noteq> 0" "borrow sz2 (?inner, mem) = Some (Some b2, im2)" for sz2 b2 im2
    using that walk assms(1,2)
    by (auto simp: borrow_def try_borrow_from_freed_list_def try_bump_allocate_def Let_def
        split: option.splits if_splits)
  ultimately show ?thesis by auto
qed

theorem huge_borrow_aliases_witness:
  "\<exists>b inner'. borrow (- 1) (PoolInner_new (Some 4096) PoolConfig_default, \<lambda>_. 0) = Some (Some b, inner', \<lambda>_. 0)
     \<and> ptr b = 4096 \<and> 8192 < unat (block_size b)"
proof -
  let ?i = "PoolInner_new (Some 4096) PoolConfig_default"
  have i: "arena ?i = Some 4096" "freed_list ?i = 0" "bump_offset ?i \<le> arena_size ?i" "layout_ok (arena_size ?i)"
    "arena_size ?i = 8192" "bump_offset ?i = 0"
    by (simp_all add: PoolInner_new_def PoolConfig_default_def layout_ok_def DEFAULT_ARENA_SIZE_def Let_def)
  have m: "2 ^ 64 - 7 \<le> unat (- 1 :: u64)" by (simp add: unat_max_word)
  show ?thesis using huge_borrow_aliases [OF i(1-4) m, of "\<lambda>_. 0"] i(5,6) by auto
qed

end
