(* ===== verification/Loom_Mailbox.thy ===== *)
theory Loom_Mailbox
  imports Floats
begin

text \<open>
  The concurrency protocol of the mailbox, as \<open>src/loom_mailbox.rs\<close> isolates it: any
  number of senders and one receiver over a capacity gate, a size counter, a FIFO and a
  wakeup gate, interleaved one atomic step at a time. The models in that file explore
  capacity two with two senders; the theorems here hold for every capacity and any number
  of senders. Steps are sequentially consistent.
\<close>

section \<open>The shared state\<close>

text \<open>
  \<open>gate\<close> is whether a receiver is registered with the \<open>WakeupGate\<close>, \<open>token\<close> the unpark
  token of the receiver's thread.
\<close>

record loom_mailbox =
  lm_queue :: "nat list"
  lm_permits :: usize
  lm_size :: usize
  lm_backpressure :: bool
  lm_capacity :: usize
  lm_backpressure_count :: usize
  gate :: bool
  token :: bool

definition with_capacity :: "usize \<Rightarrow> loom_mailbox" where
  "with_capacity n =
     \<lparr>lm_queue = [], lm_permits = n, lm_size = 0, lm_backpressure = False, lm_capacity = n,
      lm_backpressure_count =
        float_as_usize (float_mul f32 (float_of_nat f32 (unat n)) (Fin 13421773 (- 24))),
      gate = False, token = False\<rparr>"

definition gate_enable :: "loom_mailbox \<Rightarrow> loom_mailbox" where
  "gate_enable mb = mb\<lparr>gate := True\<rparr>"

definition gate_notify_waiters :: "loom_mailbox \<Rightarrow> loom_mailbox" where
  "gate_notify_waiters mb = (if gate mb then mb\<lparr>gate := False, token := True\<rparr> else mb)"

section \<open>Senders\<close>

text \<open>
  Where a sender stands in \<open>try_send\<close>: outside, with a permit, counted (with the size it
  saw), enqueued, and past the backpressure latch with only the notification to come.
\<close>

datatype sender_pc = SIdle | SPermit nat | SCounted nat usize | SPushed nat usize | SNotify nat

record sender =
  todo :: "nat list"
  spc :: sender_pc
  accepted :: "nat list"
  refused :: "nat list"

definition sender_new :: "nat list \<Rightarrow> sender" where
  "sender_new ms = \<lparr>todo = ms, spc = SIdle, accepted = [], refused = []\<rparr>"

text \<open>One atomic step of \<open>try_send\<close>; \<open>None\<close> when there is nothing left to send.\<close>

definition loom_try_send :: "loom_mailbox \<Rightarrow> sender \<Rightarrow> (loom_mailbox \<times> sender) option" where
  "loom_try_send mb sd =
     (case spc sd of
        SIdle \<Rightarrow>
          (case todo sd of
             [] \<Rightarrow> None
           | m # ms \<Rightarrow>
               if lm_permits mb = 0 then Some (mb, sd\<lparr>todo := ms, refused := refused sd @ [m]\<rparr>)
               else Some (mb\<lparr>lm_permits := lm_permits mb - 1\<rparr>, sd\<lparr>todo := ms, spc := SPermit m\<rparr>))
      | SPermit m \<Rightarrow>
          Some (mb\<lparr>lm_size := lm_size mb + 1\<rparr>, sd\<lparr>spc := SCounted m (lm_size mb + 1)\<rparr>)
      | SCounted m sz \<Rightarrow>
          Some (mb\<lparr>lm_queue := lm_queue mb @ [m]\<rparr>, sd\<lparr>spc := SPushed m sz\<rparr>)
      | SPushed m sz \<Rightarrow>
          Some (if lm_backpressure_count mb \<le> sz then mb\<lparr>lm_backpressure := True\<rparr> else mb,
                sd\<lparr>spc := SNotify m\<rparr>)
      | SNotify m \<Rightarrow>
          Some (gate_notify_waiters mb, sd\<lparr>spc := SIdle, accepted := accepted sd @ [m]\<rparr>))"

section \<open>The receiver\<close>

text \<open>
  Where the receiver stands in \<open>recv\<close>: about to register, about to dequeue, at the three
  steps after a successful dequeue, in the loop of \<open>wait\<close>, and in \<open>park\<close>.
\<close>

datatype receiver_pc =
    REnable
  | RTake
  | RCount nat
  | RPermit nat
  | RCheck nat
  | RLatch nat usize
  | RWait
  | RPark

record receiver =
  wanted :: nat
  rpc :: receiver_pc
  got :: "nat list"

text \<open>The steps of \<open>try_recv\<close> after the dequeue, with \<open>check_backpressure\<close>.\<close>

definition loom_try_recv :: "receiver_pc \<Rightarrow> loom_mailbox \<Rightarrow> receiver \<Rightarrow> loom_mailbox \<times> receiver" where
  "loom_try_recv start mb r =
     (case rpc r of
        RCount m \<Rightarrow> (mb\<lparr>lm_size := lm_size mb - 1\<rparr>, r\<lparr>rpc := RPermit m\<rparr>)
      | RPermit m \<Rightarrow> (mb\<lparr>lm_permits := lm_permits mb + 1\<rparr>, r\<lparr>rpc := RCheck m\<rparr>)
      | RCheck m \<Rightarrow> (mb, r\<lparr>rpc := RLatch m (lm_size mb)\<rparr>)
      | RLatch m sz \<Rightarrow>
          (if sz < lm_backpressure_count mb div 2 then mb\<lparr>lm_backpressure := False\<rparr> else mb,
           r\<lparr>rpc := start, got := got r @ [m]\<rparr>)
      | _ \<Rightarrow> (mb, r))"

text \<open>\<open>wait\<close>: park until the registration has been taken.\<close>

definition gate_wait :: "receiver_pc \<Rightarrow> loom_mailbox \<Rightarrow> receiver \<Rightarrow> (loom_mailbox \<times> receiver) option" where
  "gate_wait start mb r =
     (case rpc r of
        RWait \<Rightarrow> Some (mb, r\<lparr>rpc := if gate mb then RPark else start\<rparr>)
      | RPark \<Rightarrow> if token mb then Some (mb\<lparr>token := False\<rparr>, r\<lparr>rpc := RWait\<rparr>) else None
      | _ \<Rightarrow> None)"

text \<open>One atomic step of \<open>recv\<close>: register, then look, then wait.\<close>

definition loom_recv :: "loom_mailbox \<Rightarrow> receiver \<Rightarrow> (loom_mailbox \<times> receiver) option" where
  "loom_recv mb r =
     (case rpc r of
        REnable \<Rightarrow> if length (got r) < wanted r then Some (gate_enable mb, r\<lparr>rpc := RTake\<rparr>) else None
      | RTake \<Rightarrow>
          (case lm_queue mb of
             [] \<Rightarrow> Some (mb, r\<lparr>rpc := RWait\<rparr>)
           | m # ms \<Rightarrow> Some (mb\<lparr>lm_queue := ms\<rparr>, r\<lparr>rpc := RCount m\<rparr>))
      | RWait \<Rightarrow> gate_wait REnable mb r
      | RPark \<Rightarrow> gate_wait REnable mb r
      | _ \<Rightarrow> Some (loom_try_recv REnable mb r))"

text \<open>The deliberately broken receiver: look, then register, then wait.\<close>

definition broken_recv :: "loom_mailbox \<Rightarrow> receiver \<Rightarrow> (loom_mailbox \<times> receiver) option" where
  "broken_recv mb r =
     (case rpc r of
        RTake \<Rightarrow>
          if length (got r) < wanted r
          then (case lm_queue mb of
                  [] \<Rightarrow> Some (mb, r\<lparr>rpc := REnable\<rparr>)
                | m # ms \<Rightarrow> Some (mb\<lparr>lm_queue := ms\<rparr>, r\<lparr>rpc := RCount m\<rparr>))
          else None
      | REnable \<Rightarrow> Some (gate_enable mb, r\<lparr>rpc := RWait\<rparr>)
      | RWait \<Rightarrow> gate_wait RTake mb r
      | RPark \<Rightarrow> gate_wait RTake mb r
      | _ \<Rightarrow> Some (loom_try_recv RTake mb r))"

definition loom_len :: "loom_mailbox \<Rightarrow> usize" where
  "loom_len mb = lm_size mb"

definition loom_is_backpressured :: "loom_mailbox \<Rightarrow> bool" where
  "loom_is_backpressured mb = lm_backpressure mb"

definition is_fully_drained :: "loom_mailbox \<Rightarrow> bool" where
  "is_fully_drained mb = (lm_permits mb = lm_capacity mb \<and> lm_size mb = 0 \<and> lm_queue mb = [])"

section \<open>Interleavings\<close>

record loom_state =
  mailbox_of :: loom_mailbox
  senders :: "sender list"
  receiver_of :: receiver

inductive loom_step ::
  "(loom_mailbox \<Rightarrow> receiver \<Rightarrow> (loom_mailbox \<times> receiver) option) \<Rightarrow> loom_state \<Rightarrow> loom_state \<Rightarrow> bool"
  for recv where
  send_step: "i < length (senders s) \<Longrightarrow> loom_try_send (mailbox_of s) (senders s ! i) = Some (mb, sd) \<Longrightarrow>
     loom_step recv s (s\<lparr>mailbox_of := mb, senders := (senders s)[i := sd]\<rparr>)"
| recv_step: "recv (mailbox_of s) (receiver_of s) = Some (mb, r) \<Longrightarrow>
     loom_step recv s (s\<lparr>mailbox_of := mb, receiver_of := r\<rparr>)"

definition loom_start :: "receiver_pc \<Rightarrow> usize \<Rightarrow> nat list list \<Rightarrow> nat \<Rightarrow> loom_state" where
  "loom_start start cap sends n =
     \<lparr>mailbox_of = with_capacity cap, senders = map sender_new sends,
      receiver_of = \<lparr>wanted = n, rpc = start, got = []\<rparr>\<rparr>"

text \<open>The initial states of the models: two senders without a receiver, and so on.\<close>

definition model_capacity_gate_two_senders :: loom_state where
  "model_capacity_gate_two_senders = loom_start REnable 2 [[0, 0], [1, 1]] 0"

definition model_recv_no_lost_wakeup :: loom_state where
  "model_recv_no_lost_wakeup = loom_start REnable 2 [[1]] 1"

definition model_two_senders_receiver_drains_via_handshake :: loom_state where
  "model_two_senders_receiver_drains_via_handshake = loom_start REnable 2 [[1], [2]] 2"

definition model_broken_recv_loses_wakeup :: loom_state where
  "model_broken_recv_loses_wakeup = loom_start RTake 2 [[1]] 1"

inductive_cases loom_stepE [elim!]: "loom_step recv s s'"

text \<open>Schedules: which thread takes the next step, a sender or the receiver.\<close>

datatype choice = Sender nat | Receiver

fun run_schedule ::
  "(loom_mailbox \<Rightarrow> receiver \<Rightarrow> (loom_mailbox \<times> receiver) option) \<Rightarrow> choice list \<Rightarrow> loom_state \<Rightarrow> loom_state option" where
  "run_schedule recv [] s = Some s"
| "run_schedule recv (Sender i # cs) s =
     (if i < length (senders s)
      then (case loom_try_send (mailbox_of s) (senders s ! i) of
              None \<Rightarrow> None
            | Some (mb, sd) \<Rightarrow> run_schedule recv cs (s\<lparr>mailbox_of := mb, senders := (senders s)[i := sd]\<rparr>))
      else None)"
| "run_schedule recv (Receiver # cs) s =
     (case recv (mailbox_of s) (receiver_of s) of
        None \<Rightarrow> None
      | Some (mb, r) \<Rightarrow> run_schedule recv cs (s\<lparr>mailbox_of := mb, receiver_of := r\<rparr>))"

lemma run_schedule_steps: "run_schedule recv cs s = Some s' \<Longrightarrow> (loom_step recv ^^ length cs) s s'"
proof (induction recv cs s rule: run_schedule.induct)
  case (2 recv i cs s)
  then obtain mb sd where i: "i < length (senders s)" "loom_try_send (mailbox_of s) (senders s ! i) = Some (mb, sd)"
    "(loom_step recv ^^ length cs) (s\<lparr>mailbox_of := mb, senders := (senders s)[i := sd]\<rparr>) s'"
    by (auto split: if_splits option.splits)
  show ?case
    using relpowp_Suc_I2 [where P = "loom_step recv", OF send_step [OF i(1,2)] i(3)] by simp
next
  case (3 recv cs s)
  then obtain mb r where i: "recv (mailbox_of s) (receiver_of s) = Some (mb, r)"
    "(loom_step recv ^^ length cs) (s\<lparr>mailbox_of := mb, receiver_of := r\<rparr>) s'"
    by (auto split: option.splits)
  show ?case
    using relpowp_Suc_I2 [where P = "loom_step recv", OF recv_step [of recv s mb r, OF i(1)] i(2)] by simp
qed simp

lemmas run_schedule_reaches = run_schedule_steps [THEN relpowp_imp_rtranclp]

section \<open>Accounting\<close>

text \<open>Permits taken and not yet given back, messages counted and not in the queue.\<close>

fun sender_holds :: "sender_pc \<Rightarrow> nat" where
  "sender_holds (SPermit _) = 1"
| "sender_holds (SCounted _ _) = 1"
| "sender_holds _ = 0"

fun sender_counted :: "sender_pc \<Rightarrow> nat" where
  "sender_counted (SCounted _ _) = 1"
| "sender_counted _ = 0"

fun receiver_holds :: "receiver_pc \<Rightarrow> nat" where
  "receiver_holds (RCount _) = 1"
| "receiver_holds (RPermit _) = 1"
| "receiver_holds _ = 0"

fun receiver_counted :: "receiver_pc \<Rightarrow> nat" where
  "receiver_counted (RCount _) = 1"
| "receiver_counted _ = 0"

text \<open>The messages a sender has put into the queue, and those the receiver has taken out.\<close>

definition put_by :: "sender \<Rightarrow> nat multiset" where
  "put_by sd = mset (accepted sd) + (case spc sd of SPushed m _ \<Rightarrow> {#m#} | SNotify m \<Rightarrow> {#m#} | _ \<Rightarrow> {#})"

definition taken_by :: "receiver \<Rightarrow> nat multiset" where
  "taken_by r = mset (got r) + (case rpc r of
     RCount m \<Rightarrow> {#m#} | RPermit m \<Rightarrow> {#m#} | RCheck m \<Rightarrow> {#m#} | RLatch m _ \<Rightarrow> {#m#} | _ \<Rightarrow> {#})"

definition conserved :: "usize \<Rightarrow> loom_state \<Rightarrow> bool" where
  "conserved cap s =
     (lm_capacity (mailbox_of s) = cap
      \<and> unat (lm_permits (mailbox_of s)) + sum_list (map (sender_holds \<circ> spc) (senders s))
          + length (lm_queue (mailbox_of s)) + receiver_holds (rpc (receiver_of s)) = unat cap
      \<and> unat (lm_size (mailbox_of s)) = sum_list (map (sender_counted \<circ> spc) (senders s))
          + length (lm_queue (mailbox_of s)) + receiver_counted (rpc (receiver_of s))
      \<and> sum_list (map put_by (senders s)) = mset (lm_queue (mailbox_of s)) + taken_by (receiver_of s))"

lemma sum_list_upd:
  "i < length xs \<Longrightarrow> sum_list (map f (xs[i := x])) + f (xs ! i) = sum_list (map f xs) + f x"
  for f :: "'a \<Rightarrow> 'b::comm_monoid_add"
  by (subst (3) id_take_nth_drop [of i xs]) (simp_all add: upd_conv_take_nth_drop ac_simps)

text \<open>A step of one sender moves a message along without losing count of it.\<close>

lemma try_send_moves:
  assumes step: "loom_try_send mb sd = Some (mb', sd')" and room: "sender_holds (spc sd) = 1 \<Longrightarrow> sender_counted (spc sd) = 0 \<Longrightarrow> unat (lm_size mb) < 2 ^ 64 - 1"
  shows "unat (lm_permits mb') + sender_holds (spc sd') + length (lm_queue mb') =
      unat (lm_permits mb) + sender_holds (spc sd) + length (lm_queue mb)
    \<and> unat (lm_size mb') + sender_counted (spc sd) + length (lm_queue mb) =
      unat (lm_size mb) + sender_counted (spc sd') + length (lm_queue mb')
    \<and> put_by sd' + mset (lm_queue mb) = put_by sd + mset (lm_queue mb')
    \<and> lm_capacity mb' = lm_capacity mb"
proof (cases "spc sd")
  case SIdle
  have "unat (lm_permits mb - 1) + 1 = unat (lm_permits mb)" if "lm_permits mb \<noteq> 0"
    using that by (simp add: unat_pred_no_wrap unat_gt_0)
  then show ?thesis using step SIdle by (auto simp: loom_try_send_def put_by_def split: list.splits if_splits)
next
  case (SPermit m)
  have "unat (lm_size mb + 1) = Suc (unat (lm_size mb))"
    by (rule unat_succ_no_wrap) (use room SPermit in simp)
  then show ?thesis using step SPermit by (auto simp: loom_try_send_def put_by_def)
qed (use step in \<open>auto simp: loom_try_send_def put_by_def gate_notify_waiters_def split: if_splits\<close>)

text \<open>The same of a receiver; the two receivers differ in their order only.\<close>

definition recv_ready :: "loom_mailbox \<Rightarrow> receiver \<Rightarrow> bool" where
  "recv_ready mb r =
     (length (lm_queue mb) + receiver_counted (rpc r) \<le> unat (lm_size mb)
      \<and> (receiver_holds (rpc r) = 1 \<longrightarrow> unat (lm_permits mb) < 2 ^ 64 - 1))"

definition balanced :: "loom_mailbox \<Rightarrow> receiver \<Rightarrow> loom_mailbox \<Rightarrow> receiver \<Rightarrow> bool" where
  "balanced mb r mb' r' =
     (unat (lm_permits mb') + length (lm_queue mb') + receiver_holds (rpc r') =
        unat (lm_permits mb) + length (lm_queue mb) + receiver_holds (rpc r)
      \<and> unat (lm_size mb') + length (lm_queue mb) + receiver_counted (rpc r) =
        unat (lm_size mb) + length (lm_queue mb') + receiver_counted (rpc r')
      \<and> mset (lm_queue mb') + taken_by r' = mset (lm_queue mb) + taken_by r
      \<and> lm_capacity mb' = lm_capacity mb)"

lemma try_recv_balanced:
  assumes "loom_try_recv start mb r = (mb', r')" and "start \<in> {REnable, RTake}" and "recv_ready mb r"
  shows "balanced mb r mb' r'"
proof (cases "rpc r")
  case (RCount m)
  have "unat (lm_size mb - 1) = unat (lm_size mb) - 1"
    by (rule unat_pred_no_wrap) (use assms(3) RCount in \<open>simp add: recv_ready_def\<close>)
  then show ?thesis using assms RCount by (auto simp: loom_try_recv_def taken_by_def balanced_def recv_ready_def)
next
  case (RPermit m)
  have "unat (lm_permits mb + 1) = Suc (unat (lm_permits mb))"
    by (rule unat_succ_no_wrap) (use assms(3) RPermit in \<open>simp add: recv_ready_def\<close>)
  then show ?thesis using assms RPermit by (auto simp: loom_try_recv_def taken_by_def balanced_def)
qed (use assms in \<open>auto simp: loom_try_recv_def taken_by_def balanced_def split: if_splits\<close>)

lemma gate_wait_balanced:
  "gate_wait start mb r = Some (mb', r') \<Longrightarrow> start \<in> {REnable, RTake} \<Longrightarrow> balanced mb r mb' r'"
  by (auto simp: gate_wait_def taken_by_def balanced_def split: receiver_pc.splits if_splits)

locale mailbox_receiver =
  fixes recv :: "loom_mailbox \<Rightarrow> receiver \<Rightarrow> (loom_mailbox \<times> receiver) option"
  assumes recv_balanced: "recv mb r = Some (mb', r') \<Longrightarrow> recv_ready mb r \<Longrightarrow> balanced mb r mb' r'"
begin

lemma step_conserved:
  assumes "loom_step recv s s'" and inv: "conserved cap s"
  shows "conserved cap s'"
  using assms(1)
proof cases
  case (send_step i mb sd)
  let ?sd = "senders s ! i"
  note u = sum_list_upd [OF send_step(2)]
  have cnt: "sum_list (map (sender_counted \<circ> spc) (senders s)) + sender_holds (spc ?sd)
      \<le> sum_list (map (sender_holds \<circ> spc) (senders s)) + sender_counted (spc ?sd)"
  proof -
    have "sender_counted p \<le> sender_holds p" for p by (cases p) auto
    then have "sum_list (map (sender_counted \<circ> spc) (take i (senders s))) \<le> sum_list (map (sender_holds \<circ> spc) (take i (senders s)))"
      "sum_list (map (sender_counted \<circ> spc) (drop (Suc i) (senders s))) \<le> sum_list (map (sender_holds \<circ> spc) (drop (Suc i) (senders s)))"
      by (simp_all add: sum_list_mono)
    then show ?thesis
      by (subst (1 3) id_take_nth_drop [OF send_step(2)]) simp
  qed
  have "receiver_counted (rpc (receiver_of s)) \<le> receiver_holds (rpc (receiver_of s))"
    by (cases "rpc (receiver_of s)") auto
  then have "unat (lm_size (mailbox_of s)) + sender_holds (spc ?sd) \<le> unat cap + sender_counted (spc ?sd)"
    using inv cnt unfolding conserved_def by linarith
  then have "sender_holds (spc ?sd) = 1 \<Longrightarrow> sender_counted (spc ?sd) = 0 \<Longrightarrow> unat (lm_size (mailbox_of s)) < 2 ^ 64 - 1"
    using unat_u64_bound [of cap] by simp
  note m = try_send_moves [OF send_step(3) this]
  let ?T = "taken_by (receiver_of s)"
  have "sum_list (map put_by ((senders s)[i := sd])) + put_by ?sd = sum_list (map put_by (senders s)) + put_by sd"
    by (rule u)
  also have "\<dots> = ?T + (put_by sd + mset (lm_queue (mailbox_of s)))" using inv by (simp add: conserved_def ac_simps)
  also have "\<dots> = ?T + (put_by ?sd + mset (lm_queue mb))" using m by simp
  finally have "sum_list (map put_by ((senders s)[i := sd])) = mset (lm_queue mb) + ?T" by (simp add: ac_simps)
  then show ?thesis
    using inv m u [of "sender_holds \<circ> spc" sd] u [of "sender_counted \<circ> spc" sd]
    unfolding send_step(1) conserved_def by simp
next
  case (recv_step mb r)
  have "recv_ready (mailbox_of s) (receiver_of s)"
    using inv unat_u64_bound [of cap] by (auto simp: conserved_def recv_ready_def)
  from recv_balanced [OF recv_step(2) this] show ?thesis
    using inv unfolding recv_step(1) conserved_def balanced_def by simp
qed

lemma start_conserved: "conserved cap (loom_start start cap sends n)" if "start \<in> {REnable, RTake}"
proof -
  have "sum_list (map (sender_holds \<circ> spc) (map sender_new sends)) = 0"
    "sum_list (map (sender_counted \<circ> spc) (map sender_new sends)) = 0"
    "sum_list (map put_by (map sender_new sends)) = {#}"
    by (induction sends) (simp_all add: sender_new_def put_by_def)
  then show ?thesis using that by (auto simp: conserved_def loom_start_def with_capacity_def taken_by_def)
qed

lemma reachable_conserved:
  assumes "(loom_step recv)\<^sup>*\<^sup>* (loom_start start cap sends n) s" and "start \<in> {REnable, RTake}"
  shows "conserved cap s"
  using assms(1) by (induction rule: rtranclp_induct) (use start_conserved [OF assms(2)] step_conserved in auto)

end

interpretation handshake: mailbox_receiver loom_recv
proof
  fix mb r mb' r'
  assume a: "loom_recv mb r = Some (mb', r')" "recv_ready mb r"
  then show "balanced mb r mb' r'"
    using try_recv_balanced [of REnable mb r mb' r'] gate_wait_balanced [of REnable mb r mb' r']
    by (cases "rpc r")
       (auto simp: loom_recv_def gate_enable_def taken_by_def balanced_def split: list.splits if_splits)
qed

interpretation broken: mailbox_receiver broken_recv
proof
  fix mb r mb' r'
  assume a: "broken_recv mb r = Some (mb', r')" "recv_ready mb r"
  then show "balanced mb r mb' r'"
    using try_recv_balanced [of RTake mb r mb' r'] gate_wait_balanced [of RTake mb r mb' r']
    by (cases "rpc r")
       (auto simp: broken_recv_def gate_enable_def taken_by_def balanced_def split: list.splits if_splits)
qed

section \<open>The handshake\<close>

text \<open>
  A receiver that has registered and found the queue empty is woken for every message
  that comes after: as long as its registration stands and a message waits, some sender
  has yet to notify; and once the registration is taken, the token that ends the park is
  there.
\<close>

fun will_notify :: "sender_pc \<Rightarrow> bool" where
  "will_notify (SPushed _ _) = True"
| "will_notify (SNotify _) = True"
| "will_notify _ = False"

definition awake :: "loom_state \<Rightarrow> bool" where
  "awake s =
     ((rpc (receiver_of s) \<in> {RWait, RPark} \<and> gate (mailbox_of s) \<and> lm_queue (mailbox_of s) \<noteq> []
         \<longrightarrow> (\<exists>i < length (senders s). will_notify (spc (senders s ! i))))
      \<and> (rpc (receiver_of s) = RPark \<and> \<not> gate (mailbox_of s) \<longrightarrow> token (mailbox_of s)))"

lemma try_send_gate:
  assumes "loom_try_send mb sd = Some (mb', sd')"
  shows "will_notify (spc sd') \<or> \<not> gate mb' \<or> \<not> will_notify (spc sd) \<and> lm_queue mb' = lm_queue mb"
    and "gate mb' = gate mb \<and> token mb' = token mb \<or> \<not> gate mb' \<and> (token mb' \<or> mb' = mb)"
  using assms
  by (auto simp: loom_try_send_def gate_notify_waiters_def split: sender_pc.splits list.splits if_splits)

lemma step_awake:
  assumes "loom_step loom_recv s s'" and inv: "awake s"
  shows "awake s'"
  using assms(1)
proof cases
  case (send_step i mb sd)
  note g = try_send_gate [OF send_step(3)]
  have "\<exists>j < length (senders s). will_notify (spc ((senders s)[i := sd] ! j))"
    if w: "rpc (receiver_of s) \<in> {RWait, RPark}" "gate mb" "lm_queue mb \<noteq> []"
  proof (cases "will_notify (spc sd)")
    case True
    then show ?thesis using send_step(2) by (intro exI [where x = i]) simp
  next
    case False
    then have "\<not> will_notify (spc (senders s ! i))" "lm_queue mb = lm_queue (mailbox_of s)"
      "gate (mailbox_of s)"
      using g w(2) by auto
    moreover from this(2) have "lm_queue (mailbox_of s) \<noteq> []" using w(3) by simp
    ultimately obtain j where "j < length (senders s)" "will_notify (spc (senders s ! j))" "j \<noteq> i"
      using inv w(1) unfolding awake_def by blast
    then show ?thesis by (intro exI [where x = j]) simp
  qed
  moreover have "token mb" if "rpc (receiver_of s) = RPark" "\<not> gate mb"
    using g(2) inv that by (auto simp: awake_def)
  ultimately show ?thesis unfolding send_step(1) by (auto simp: awake_def)
next
  case (recv_step mb r)
  then show ?thesis
    using inv
    by (auto simp: awake_def loom_recv_def loom_try_recv_def gate_wait_def gate_enable_def
        split: receiver_pc.splits list.splits if_splits)
qed

lemma reachable_awake:
  assumes "(loom_step loom_recv)\<^sup>*\<^sup>* (loom_start REnable cap sends n) s"
  shows "awake s"
  using assms
proof (induction rule: rtranclp_induct)
  case base
  show ?case by (simp add: awake_def loom_start_def)
qed (rule step_awake)

section \<open>Termination\<close>

text \<open>
  The steps that are left. A message in the queue pays for its receipt, a notification
  for the round of the receiver that it may cause: from a withdrawn registration back to
  a new one.
\<close>

fun sender_weight :: "sender_pc \<Rightarrow> nat" where
  "sender_weight SIdle = 0"
| "sender_weight (SNotify _) = 11"
| "sender_weight (SPushed _ _) = 12"
| "sender_weight (SCounted _ _) = 19"
| "sender_weight (SPermit _) = 20"

fun receiver_weight :: "receiver_pc \<Rightarrow> bool \<Rightarrow> nat" where
  "receiver_weight REnable g = 6"
| "receiver_weight RTake g = (if g then 5 else 9)"
| "receiver_weight (RCount _) g = 10"
| "receiver_weight (RPermit _) g = 9"
| "receiver_weight (RCheck _) g = 8"
| "receiver_weight (RLatch _ _) g = 7"
| "receiver_weight RWait g = (if g then 2 else 8)"
| "receiver_weight RPark g = (if g then 1 else 9)"

definition sender_fuel :: "sender \<Rightarrow> nat" where
  "sender_fuel sd = 21 * length (todo sd) + sender_weight (spc sd)"

definition receiver_fuel :: "loom_mailbox \<Rightarrow> receiver \<Rightarrow> nat" where
  "receiver_fuel mb r = 6 * length (lm_queue mb) + receiver_weight (rpc r) (gate mb) + 2 * of_bool (token mb)"

definition loom_fuel :: "loom_state \<Rightarrow> nat" where
  "loom_fuel s = sum_list (map sender_fuel (senders s)) + receiver_fuel (mailbox_of s) (receiver_of s)"

lemma notify_fuel: "receiver_fuel (gate_notify_waiters mb) r \<le> receiver_fuel mb r + 10"
  by (cases "rpc r") (simp_all add: receiver_fuel_def gate_notify_waiters_def)

lemma try_send_fuel:
  assumes "loom_try_send mb sd = Some (mb', sd')"
  shows "sender_fuel sd' + receiver_fuel mb' r < sender_fuel sd + receiver_fuel mb r"
proof (cases "spc sd")
  case (SNotify m)
  then show ?thesis using assms notify_fuel [of mb r] by (auto simp: loom_try_send_def sender_fuel_def)
qed (use assms in \<open>auto simp: loom_try_send_def sender_fuel_def receiver_fuel_def split: list.splits if_splits\<close>)

lemma recv_fuel: "loom_recv mb r = Some (mb', r') \<Longrightarrow> receiver_fuel mb' r' < receiver_fuel mb r"
  by (cases "rpc r")
     (auto simp: loom_recv_def loom_try_recv_def gate_wait_def gate_enable_def receiver_fuel_def split: list.splits if_splits)

lemma step_fuel:
  assumes "loom_step loom_recv s s'"
  shows "loom_fuel s' < loom_fuel s"
  using assms
proof cases
  case (send_step i mb sd)
  then show ?thesis
    using try_send_fuel [OF send_step(3), of "receiver_of s"] sum_list_upd [OF send_step(2), of sender_fuel sd]
    by (simp add: loom_fuel_def)
next
  case (recv_step mb r)
  then show ?thesis using recv_fuel [OF recv_step(2)] by (simp add: loom_fuel_def)
qed

text \<open>A measure that every step lowers bounds the length of runs.\<close>

lemma relpowp_decreasing:
  fixes f :: "'a \<Rightarrow> nat"
  assumes step: "\<And>x y. R x y \<Longrightarrow> I x \<Longrightarrow> I y \<and> f y < f x"
  shows "(R ^^ m) x y \<Longrightarrow> I x \<Longrightarrow> I y \<and> f y + m \<le> f x"
proof (induction m arbitrary: y)
  case (Suc m)
  from Suc.prems(1) obtain t where "(R ^^ m) x t" "R t y" by (rule relpowp_Suc_E)
  then show ?case using Suc.IH [of t] Suc.prems(2) step [of t y] by fastforce
qed simp

lemma run_fuel: "(loom_step loom_recv ^^ m) s s' \<Longrightarrow> loom_fuel s' + m \<le> loom_fuel s"
  using relpowp_decreasing [of "loom_step loom_recv" "\<lambda>_. True" loom_fuel] step_fuel by simp

lemma start_fuel: "loom_fuel (loom_start REnable cap sends n) = 21 * length (concat sends) + 6"
proof -
  have "sum_list (map (sender_fuel \<circ> sender_new) sends) = 21 * length (concat sends)"
    by (induction sends) (simp_all add: sender_fuel_def sender_new_def)
  then show ?thesis by (simp add: loom_fuel_def receiver_fuel_def loom_start_def with_capacity_def)
qed

section \<open>Properties\<close>

text \<open>
  C32: the capacity gate and the accounting, under every interleaving of any number of
  senders with the receiver. The queue never exceeds the capacity; permits, messages in
  the queue and messages under way add up to the capacity; what the senders have put in
  is, message for message, what waits and what the receiver has taken; and when every
  sender has returned from its call, the receiver is between two messages and the queue
  is empty, all permits are back and the size is zero.
\<close>

theorem loom_capacity_conserved:
  assumes "(loom_step loom_recv)\<^sup>*\<^sup>* (loom_start REnable cap sends n) s"
  shows "length (lm_queue (mailbox_of s)) \<le> unat cap
    \<and> unat (lm_permits (mailbox_of s)) + sum_list (map (sender_holds \<circ> spc) (senders s))
        + length (lm_queue (mailbox_of s)) + receiver_holds (rpc (receiver_of s)) = unat cap
    \<and> sum_list (map put_by (senders s)) = mset (lm_queue (mailbox_of s)) + taken_by (receiver_of s)
    \<and> ((\<forall>sd \<in> set (senders s). spc sd = SIdle) \<and> rpc (receiver_of s) \<in> {REnable, RTake, RWait, RPark}
         \<and> lm_queue (mailbox_of s) = [] \<longrightarrow>
       is_fully_drained (mailbox_of s) \<and> mset (got (receiver_of s)) = sum_list (map (mset \<circ> accepted) (senders s)))"
proof -
  have c: "conserved cap s" by (rule handshake.reachable_conserved [OF assms]) simp
  have idle: "sum_list (map (sender_holds \<circ> spc) xs) = 0 \<and> sum_list (map (sender_counted \<circ> spc) xs) = 0
      \<and> sum_list (map put_by xs) = sum_list (map (mset \<circ> accepted) xs)"
    if "\<forall>sd \<in> set xs. spc sd = SIdle" for xs
    using that by (induction xs) (simp_all add: put_by_def)
  have "is_fully_drained (mailbox_of s) \<and> mset (got (receiver_of s)) = sum_list (map (mset \<circ> accepted) (senders s))"
    if a: "\<forall>sd \<in> set (senders s). spc sd = SIdle" "rpc (receiver_of s) \<in> {REnable, RTake, RWait, RPark}"
      "lm_queue (mailbox_of s) = []"
    using c idle [OF a(1)] a(2,3)
    by (auto simp: conserved_def is_fully_drained_def taken_by_def word_unat_eq_iff)
  then show ?thesis using c by (auto simp: conserved_def)
qed

definition demo_schedule :: "choice list" where
  "demo_schedule = [Receiver, Receiver, Sender 0, Sender 0, Sender 1, Receiver, Sender 0, Sender 0, Sender 0]
     @ replicate 4 (Sender 1) @ replicate 8 Receiver @ replicate 6 Receiver"

lemma demo_schedule_runs:
  "case run_schedule loom_recv demo_schedule model_two_senders_receiver_drains_via_handshake of
     None \<Rightarrow> False
   | Some s \<Rightarrow> list_all (\<lambda>sd. spc sd = SIdle) (senders s) \<and> rpc (receiver_of s) = REnable
       \<and> lm_queue (mailbox_of s) = []"
  by code_simp

theorem loom_capacity_conserved_witness:
  "\<exists>s. run_schedule loom_recv demo_schedule model_two_senders_receiver_drains_via_handshake = Some s
     \<and> is_fully_drained (mailbox_of s) \<and> mset (got (receiver_of s)) = sum_list (map (mset \<circ> accepted) (senders s))"
proof -
  obtain s where s: "run_schedule loom_recv demo_schedule model_two_senders_receiver_drains_via_handshake = Some s"
    "list_all (\<lambda>sd. spc sd = SIdle) (senders s)" "rpc (receiver_of s) = REnable" "lm_queue (mailbox_of s) = []"
    using demo_schedule_runs by (auto split: option.splits)
  have "(loom_step loom_recv)\<^sup>*\<^sup>* (loom_start REnable 2 [[1], [2]] 2) s"
    using run_schedule_reaches [OF s(1)] by (simp add: model_two_senders_receiver_drains_via_handshake_def)
  from loom_capacity_conserved [OF this] show ?thesis using s by (auto simp: list_all_iff)
qed

lemma try_send_None_iff: "loom_try_send mb sd = None \<longleftrightarrow> spc sd = SIdle \<and> todo sd = []"
  by (cases "spc sd"; cases "todo sd") (simp_all add: loom_try_send_def)

text \<open>A state in which no thread can move.\<close>

lemma stuck_parts:
  assumes stuck: "\<nexists>s'. loom_step recv s s'"
  shows "list_all (\<lambda>sd. spc sd = SIdle \<and> todo sd = []) (senders s)" and "recv (mailbox_of s) (receiver_of s) = None"
proof -
  have "loom_try_send (mailbox_of s) (senders s ! i) = None" if "i < length (senders s)" for i
    using stuck send_step [OF that] by (metis option.exhaust surj_pair)
  then show "list_all (\<lambda>sd. spc sd = SIdle \<and> todo sd = []) (senders s)"
    by (simp add: try_send_None_iff list_all_length)
  show "recv (mailbox_of s) (receiver_of s) = None"
    using stuck recv_step [of recv s] by (metis option.exhaust surj_pair)
qed

lemma recv_None:
  "loom_recv mb r = None \<Longrightarrow> wanted r \<le> length (got r) \<and> rpc r = REnable \<or> rpc r = RPark \<and> \<not> token mb"
  by (auto simp: loom_recv_def gate_wait_def not_less split: receiver_pc.splits list.splits if_splits)

lemma stuck_awake:
  assumes reach: "(loom_step loom_recv)\<^sup>*\<^sup>* (loom_start REnable cap sends n) s"
    and stuck: "\<nexists>s'. loom_step loom_recv s s'"
  shows "wanted (receiver_of s) \<le> length (got (receiver_of s))
    \<or> lm_queue (mailbox_of s) = [] \<and> (\<forall>sd \<in> set (senders s). spc sd = SIdle \<and> todo sd = [])"
proof -
  note idle = stuck_parts(1) [OF stuck]
  then have "lm_queue (mailbox_of s) = []" if "rpc (receiver_of s) = RPark" "\<not> token (mailbox_of s)"
    using reachable_awake [OF reach] that by (auto simp: awake_def list_all_length)
  then show ?thesis using recv_None [OF stuck_parts(2) [OF stuck]] idle by (auto simp: list_all_iff)
qed

text \<open>
  C9: no wakeup is lost, and nothing runs forever. Every schedule of the senders and the
  receiver takes at most twenty-one steps per message to send and six more; and when no
  thread can take a step any more, either the receiver has all the messages it wanted, or
  every sender is done and there is no message left to receive: a receiver never sleeps
  beside a message.
\<close>

theorem loom_no_lost_wakeup:
  assumes run: "(loom_step loom_recv ^^ m) (loom_start REnable cap sends n) s"
  shows "m \<le> 21 * length (concat sends) + 6
    \<and> ((\<nexists>s'. loom_step loom_recv s s') \<longrightarrow> wanted (receiver_of s) \<le> length (got (receiver_of s))
       \<or> lm_queue (mailbox_of s) = [] \<and> (\<forall>sd \<in> set (senders s). spc sd = SIdle \<and> todo sd = []))"
  using run_fuel [OF run] start_fuel [of cap sends n] stuck_awake [OF relpowp_imp_rtranclp [OF run]] by simp

lemma stuck_simp:
  assumes "\<forall>i < length (senders s). loom_try_send (mailbox_of s) (senders s ! i) = None"
    and "recv (mailbox_of s) (receiver_of s) = None"
  shows "\<nexists>s'. loom_step recv s s'"
  using assms by auto

definition wakeup_schedule :: "choice list" where
  "wakeup_schedule = [Receiver, Receiver] @ replicate 5 (Sender 0) @ replicate 7 Receiver"

theorem loom_no_lost_wakeup_witness:
  "\<exists>s. run_schedule loom_recv wakeup_schedule model_recv_no_lost_wakeup = Some s
     \<and> (\<nexists>s'. loom_step loom_recv s s') \<and> length wakeup_schedule \<le> 27 \<and> wanted (receiver_of s) \<le> length (got (receiver_of s))"
proof -
  have "case run_schedule loom_recv wakeup_schedule model_recv_no_lost_wakeup of
      None \<Rightarrow> False
    | Some s \<Rightarrow> list_all (\<lambda>i. loom_try_send (mailbox_of s) (senders s ! i) = None) [0..<length (senders s)]
        \<and> loom_recv (mailbox_of s) (receiver_of s) = None \<and> wanted (receiver_of s) = 1 \<and> got (receiver_of s) = [1]"
    by code_simp
  then obtain s where s: "run_schedule loom_recv wakeup_schedule model_recv_no_lost_wakeup = Some s"
    "\<forall>i < length (senders s). loom_try_send (mailbox_of s) (senders s ! i) = None"
    "loom_recv (mailbox_of s) (receiver_of s) = None" "wanted (receiver_of s) = 1" "got (receiver_of s) = [1]"
    by (auto simp: list_all_iff split: option.splits)
  have "(loom_step loom_recv ^^ length wakeup_schedule) (loom_start REnable 2 [[1]] 1) s"
    using run_schedule_steps [OF s(1)] by (simp add: model_recv_no_lost_wakeup_def)
  from loom_no_lost_wakeup [OF this] show ?thesis
    using stuck_simp [where s = s and recv = loom_recv, OF s(2,3)] s(1,4,5) by auto
qed


end
