(* ===== verification/Loom_Roundtrip.thy ===== *)
theory Loom_Roundtrip
  imports Loom_Mailbox
begin

text \<open>
  The models of \<open>src/loom_mailbox.rs\<close> that end with all messages received. The round trip
  has senders that retry a bounded number of times, a receiver that polls a bounded
  number of times, and a main thread that drains what is left once all of them have been
  joined; the other two use the handshake. Every schedule ends, and ends with each
  message received once and the mailbox as it was created.
\<close>

section \<open>The threads\<close>

text \<open>One step of a sender's retry loop: a call that was accepted ends it.\<close>

definition retry_send :: "loom_mailbox \<Rightarrow> sender \<Rightarrow> (loom_mailbox \<times> sender) option" where
  "retry_send mb sd =
     (case loom_try_send mb sd of
        None \<Rightarrow> None
      | Some (mb', sd') \<Rightarrow> Some (mb', if accepted sd' = [] then sd' else sd'\<lparr>todo := []\<rparr>))"

text \<open>One step of \<open>try_recv\<close> in a polling loop.\<close>

definition poll_recv :: "loom_mailbox \<Rightarrow> receiver \<Rightarrow> (loom_mailbox \<times> receiver) option" where
  "poll_recv mb r =
     (case rpc r of
        RTake \<Rightarrow>
          (case lm_queue mb of
             [] \<Rightarrow> Some (mb, r)
           | m # ms \<Rightarrow> Some (mb\<lparr>lm_queue := ms\<rparr>, r\<lparr>rpc := RCount m\<rparr>))
      | _ \<Rightarrow> Some (loom_try_recv RTake mb r))"

text \<open>\<open>tries\<close> is what is left of the receiver's attempts.\<close>

record roundtrip = loom_state +
  tries :: nat

text \<open>The senders have been joined, and the receiver has left its loop.\<close>

definition joined :: "roundtrip \<Rightarrow> bool" where
  "joined x =
     (list_all (\<lambda>sd. spc sd = SIdle \<and> todo sd = []) (senders x) \<and> rpc (receiver_of x) = RTake
      \<and> (tries x = 0 \<or> wanted (receiver_of x) \<le> length (got (receiver_of x))))"

inductive roundtrip_step :: "roundtrip \<Rightarrow> roundtrip \<Rightarrow> bool" where
  retry: "i < length (senders x) \<Longrightarrow> retry_send (mailbox_of x) (senders x ! i) = Some (mb, sd) \<Longrightarrow>
     roundtrip_step x (x\<lparr>mailbox_of := mb, senders := (senders x)[i := sd]\<rparr>)"
| poll: "rpc (receiver_of x) = RTake \<Longrightarrow> length (got (receiver_of x)) < wanted (receiver_of x) \<Longrightarrow> tries x = Suc k \<Longrightarrow>
     poll_recv (mailbox_of x) (receiver_of x) = Some (mb, r) \<Longrightarrow>
     roundtrip_step x (x\<lparr>mailbox_of := mb, receiver_of := r, tries := k\<rparr>)"
| finish: "rpc (receiver_of x) \<noteq> RTake \<Longrightarrow> poll_recv (mailbox_of x) (receiver_of x) = Some (mb, r) \<Longrightarrow>
     roundtrip_step x (x\<lparr>mailbox_of := mb, receiver_of := r\<rparr>)"
| drain: "joined x \<Longrightarrow> lm_queue (mailbox_of x) \<noteq> [] \<Longrightarrow> poll_recv (mailbox_of x) (receiver_of x) = Some (mb, r) \<Longrightarrow>
     roundtrip_step x (x\<lparr>mailbox_of := mb, receiver_of := r\<rparr>)"

definition roundtrip_start :: "usize \<Rightarrow> nat \<Rightarrow> nat list \<Rightarrow> roundtrip" where
  "roundtrip_start cap n tags =
     \<lparr>mailbox_of = with_capacity cap, senders = map (\<lambda>tag. sender_new (replicate n tag)) tags,
      receiver_of = \<lparr>wanted = length tags, rpc = RTake, got = []\<rparr>, tries = n * 2\<rparr>"

definition model_permit_conservation_roundtrip :: roundtrip where
  "model_permit_conservation_roundtrip = roundtrip_start 2 4 [1, 2]"

section \<open>Conservation\<close>

interpretation polling: mailbox_receiver poll_recv
proof
  fix mb r mb' r'
  assume a: "poll_recv mb r = Some (mb', r')" "recv_ready mb r"
  then show "balanced mb r mb' r'"
    using try_recv_balanced [of RTake mb r mb' r']
    by (cases "rpc r") (auto simp: poll_recv_def taken_by_def balanced_def split: list.splits)
qed

text \<open>The receiver never registers with the wakeup gate.\<close>

definition polls :: "receiver_pc \<Rightarrow> bool" where
  "polls pc = (case pc of REnable \<Rightarrow> False | RWait \<Rightarrow> False | RPark \<Rightarrow> False | _ \<Rightarrow> True)"

text \<open>
  What a sender has done with its tag: it holds at most one permit or has put at most one
  copy into the queue, and as long as neither, attempts are left.
\<close>

definition sent_once :: "nat \<Rightarrow> sender \<Rightarrow> bool" where
  "sent_once tag sd =
     (case spc sd of
        SIdle \<Rightarrow> accepted sd = [tag] \<and> todo sd = [] \<or> accepted sd = [] \<and> refused sd = [] \<and> todo sd \<noteq> [] \<and> set (todo sd) = {tag}
      | SPermit m \<Rightarrow> m = tag \<and> accepted sd = []
      | SCounted m _ \<Rightarrow> m = tag \<and> accepted sd = []
      | SPushed m _ \<Rightarrow> m = tag \<and> accepted sd = []
      | SNotify m \<Rightarrow> m = tag \<and> accepted sd = [])"

definition roundtrip_inv :: "usize \<Rightarrow> nat list \<Rightarrow> roundtrip \<Rightarrow> bool" where
  "roundtrip_inv cap tags x =
     (conserved cap (loom_state.truncate x) \<and> list_all2 sent_once tags (senders x) \<and> polls (rpc (receiver_of x)))"

lemma put_by_todo [simp]: "put_by (sd\<lparr>todo := ts\<rparr>) = put_by sd"
  by (simp add: put_by_def)

lemma sum_below_length:
  "i < length xs \<Longrightarrow> \<forall>x \<in> set xs. f x \<le> 1 \<Longrightarrow> f (xs ! i) = 0 \<Longrightarrow> sum_list (map f xs) < length xs"
  for f :: "'a \<Rightarrow> nat"
proof (induction xs arbitrary: i)
  case (Cons a xs)
  have le: "sum_list (map f xs) \<le> length xs"
    using sum_list_mono [of xs f "\<lambda>_. 1"] Cons.prems(2) by (simp add: sum_list_triv)
  then show ?case using Cons by (cases i) fastforce+
qed simp

lemma size_sum_list: "size (sum_list (map f xs)) = sum_list (map (size \<circ> f) xs)" for f :: "'a \<Rightarrow> 'b multiset"
  by (induction xs) simp_all

text \<open>A sender that has not been accepted finds a permit.\<close>

lemma permit_left:
  assumes con: "conserved cap s" and once: "list_all2 sent_once tags (senders s)" and room: "length tags \<le> unat cap"
    and i: "i < length (senders s)" and idle: "spc (senders s ! i) = SIdle" "accepted (senders s ! i) = []"
  shows "lm_permits (mailbox_of s) \<noteq> 0"
proof -
  let ?f = "\<lambda>sd. sender_holds (spc sd) + size (put_by sd)"
  have len: "length (senders s) = length tags" using once by (auto dest: list_all2_lengthD)
  have one: "?f sd \<le> 1" if "sent_once tag sd" for tag sd
    using that by (auto simp: sent_once_def put_by_def split: sender_pc.splits)
  have "?f sd \<le> 1" if "sd \<in> set (senders s)" for sd
  proof -
    from that obtain k where "k < length (senders s)" "sd = senders s ! k" by (auto simp: in_set_conv_nth)
    then have "sent_once (tags ! k) sd" using once by (simp add: list_all2_conv_all_nth)
    then show ?thesis by (rule one)
  qed
  then have "sum_list (map ?f (senders s)) < length tags"
    using sum_below_length [OF i] idle len by (simp add: put_by_def)
  then have f: "sum_list (map (sender_holds \<circ> spc) (senders s)) + size (sum_list (map put_by (senders s))) < length tags"
    by (simp add: sum_list_addf size_sum_list comp_def)
  have c: "unat (lm_permits (mailbox_of s)) + sum_list (map (sender_holds \<circ> spc) (senders s))
      + length (lm_queue (mailbox_of s)) + receiver_holds (rpc (receiver_of s)) = unat cap"
    "sum_list (map put_by (senders s)) = mset (lm_queue (mailbox_of s)) + taken_by (receiver_of s)"
    using con by (simp_all add: conserved_def)
  have "receiver_holds (rpc (receiver_of s)) \<le> size (taken_by (receiver_of s))"
    by (cases "rpc (receiver_of s)") (simp_all add: taken_by_def)
  then have "0 < unat (lm_permits (mailbox_of s))" using f c room by simp
  then show ?thesis by (simp add: unat_gt_0)
qed

lemma retry_sent_once:
  assumes "retry_send mb sd = Some (mb', sd')" and "sent_once tag sd"
    and "spc sd = SIdle \<Longrightarrow> accepted sd = [] \<Longrightarrow> lm_permits mb \<noteq> 0"
  shows "sent_once tag sd'"
  using assms
  by (auto simp: retry_send_def loom_try_send_def sent_once_def split: sender_pc.splits list.splits if_splits)

lemma poll_polls: "poll_recv mb r = Some (mb', r') \<Longrightarrow> polls (rpc r) \<Longrightarrow> polls (rpc r')"
  by (auto simp: poll_recv_def loom_try_recv_def polls_def split: receiver_pc.splits list.splits)

lemma poll_inv:
  assumes "poll_recv (mailbox_of x) (receiver_of x) = Some (mb, r)" and inv: "roundtrip_inv cap tags x"
  shows "roundtrip_inv cap tags (x\<lparr>mailbox_of := mb, receiver_of := r, tries := k\<rparr>)"
    and "roundtrip_inv cap tags (x\<lparr>mailbox_of := mb, receiver_of := r\<rparr>)"
proof -
  let ?s = "loom_state.truncate x"
  have "loom_step poll_recv ?s (?s\<lparr>mailbox_of := mb, receiver_of := r\<rparr>)"
    by (rule recv_step) (use assms(1) in \<open>simp add: loom_state.truncate_def\<close>)
  from polling.step_conserved [OF this] have "conserved cap (?s\<lparr>mailbox_of := mb, receiver_of := r\<rparr>)"
    using inv by (simp add: roundtrip_inv_def)
  then show "roundtrip_inv cap tags (x\<lparr>mailbox_of := mb, receiver_of := r, tries := k\<rparr>)"
    "roundtrip_inv cap tags (x\<lparr>mailbox_of := mb, receiver_of := r\<rparr>)"
    using inv poll_polls [OF assms(1)] by (simp_all add: roundtrip_inv_def loom_state.truncate_def)
qed

lemma retry_inv:
  assumes i: "i < length (senders x)" and step: "retry_send (mailbox_of x) (senders x ! i) = Some (mb, sd)"
    and inv: "roundtrip_inv cap tags x" and room: "length tags \<le> unat cap"
  shows "roundtrip_inv cap tags (x\<lparr>mailbox_of := mb, senders := (senders x)[i := sd]\<rparr>)"
proof -
  let ?s = "loom_state.truncate x"
  obtain sd1 where sd1: "loom_try_send (mailbox_of x) (senders x ! i) = Some (mb, sd1)" "spc sd = spc sd1" "put_by sd = put_by sd1"
    using step by (auto simp: retry_send_def split: option.splits if_splits)
  have "loom_step poll_recv ?s (?s\<lparr>mailbox_of := mb, senders := (senders ?s)[i := sd1]\<rparr>)"
    by (rule send_step) (use i sd1(1) in \<open>simp_all add: loom_state.truncate_def\<close>)
  from polling.step_conserved [OF this] have "conserved cap (?s\<lparr>mailbox_of := mb, senders := (senders ?s)[i := sd1]\<rparr>)"
    using inv by (simp add: roundtrip_inv_def)
  then have "conserved cap (loom_state.truncate (x\<lparr>mailbox_of := mb, senders := (senders x)[i := sd]\<rparr>))"
    using sd1(2,3) by (simp add: conserved_def loom_state.truncate_def map_update)
  moreover have "sent_once (tags ! i) sd"
    by (rule retry_sent_once [OF step])
       (use inv i permit_left [of cap ?s tags i] room in
          \<open>auto simp: roundtrip_inv_def list_all2_conv_all_nth loom_state.truncate_def\<close>)
  ultimately show ?thesis
    using inv i by (auto simp: roundtrip_inv_def list_all2_conv_all_nth nth_list_update)
qed

lemma roundtrip_step_inv:
  assumes "roundtrip_step x x'" and "roundtrip_inv cap tags x" and "length tags \<le> unat cap"
  shows "roundtrip_inv cap tags x'"
  using assms(1) by cases (use assms(2,3) poll_inv retry_inv in auto)

lemma start_inv:
  assumes "n \<noteq> 0"
  shows "roundtrip_inv cap tags (roundtrip_start cap n tags)"
proof -
  have "loom_state.truncate (roundtrip_start cap n tags) = loom_start RTake cap (map (replicate n) tags) (length tags)"
    by (simp add: roundtrip_start_def loom_start_def loom_state.truncate_def)
  moreover have "list_all2 sent_once tags (map (\<lambda>tag. sender_new (replicate n tag)) tags)"
    using assms by (simp add: list_all2_conv_all_nth sent_once_def sender_new_def)
  ultimately show ?thesis
    using polling.start_conserved [of RTake] by (simp add: roundtrip_inv_def) (simp add: roundtrip_start_def polls_def)
qed

section \<open>Termination\<close>

text \<open>Steps that are left: a message in the queue is worth the five steps that receive it.\<close>

fun sender_steps :: "sender_pc \<Rightarrow> nat" where
  "sender_steps SIdle = 0"
| "sender_steps (SPermit _) = 9"
| "sender_steps (SCounted _ _) = 8"
| "sender_steps (SPushed _ _) = 2"
| "sender_steps (SNotify _) = 1"

fun receiver_steps :: "receiver_pc \<Rightarrow> nat" where
  "receiver_steps (RCount _) = 4"
| "receiver_steps (RPermit _) = 3"
| "receiver_steps (RCheck _) = 2"
| "receiver_steps (RLatch _ _) = 1"
| "receiver_steps _ = 0"

definition effort :: "sender \<Rightarrow> nat" where
  "effort sd = 10 * length (todo sd) + sender_steps (spc sd)"

definition steps_left :: "roundtrip \<Rightarrow> nat" where
  "steps_left x =
     sum_list (map effort (senders x)) + 5 * length (lm_queue (mailbox_of x)) + receiver_steps (rpc (receiver_of x)) + tries x"

lemma retry_effort:
  assumes "retry_send mb sd = Some (mb', sd')"
  shows "effort sd' + 5 * length (lm_queue mb') < effort sd + 5 * length (lm_queue mb)"
  using assms
  by (auto simp: retry_send_def loom_try_send_def effort_def gate_notify_waiters_def split: sender_pc.splits list.splits if_splits)

lemma poll_effort:
  assumes "poll_recv mb r = Some (mb', r')" and "polls (rpc r)"
  shows "rpc r \<noteq> RTake \<or> lm_queue mb \<noteq> [] \<Longrightarrow>
      5 * length (lm_queue mb') + receiver_steps (rpc r') < 5 * length (lm_queue mb) + receiver_steps (rpc r)"
    and "5 * length (lm_queue mb') + receiver_steps (rpc r') \<le> 5 * length (lm_queue mb) + receiver_steps (rpc r)"
  using assms by (auto simp: poll_recv_def loom_try_recv_def polls_def split: receiver_pc.splits list.splits)

lemma step_effort:
  assumes "roundtrip_step x x'" and "polls (rpc (receiver_of x))"
  shows "steps_left x' < steps_left x"
  using assms(1)
proof cases
  case (retry i mb sd)
  then show ?thesis
    using retry_effort [OF retry(3)] sum_list_upd [OF retry(2), of effort sd] by (simp add: steps_left_def)
next
  case (poll k mb r)
  then show ?thesis using poll_effort(2) [OF poll(5) assms(2)] by (simp add: steps_left_def)
next
  case (finish mb r)
  then show ?thesis using poll_effort(1) [OF finish(3) assms(2)] by (simp add: steps_left_def)
next
  case (drain mb r)
  then show ?thesis using poll_effort(1) [OF drain(4) assms(2)] by (simp add: steps_left_def)
qed

lemma run_bounded:
  assumes "(roundtrip_step ^^ m) x x'" and "roundtrip_inv cap tags x" and "length tags \<le> unat cap"
  shows "roundtrip_inv cap tags x' \<and> steps_left x' + m \<le> steps_left x"
proof (rule relpowp_decreasing [where I = "roundtrip_inv cap tags" and f = steps_left, OF _ assms(1,2)])
  fix x y
  assume "roundtrip_step x y" "roundtrip_inv cap tags x"
  then show "roundtrip_inv cap tags y \<and> steps_left y < steps_left x"
    using roundtrip_step_inv [OF _ _ assms(3)] step_effort by (simp add: roundtrip_inv_def)
qed

section \<open>The end of the round trip\<close>

lemma retry_None: "retry_send mb sd = None \<longleftrightarrow> spc sd = SIdle \<and> todo sd = []"
  unfolding try_send_None_iff [of mb, symmetric] by (simp add: retry_send_def split: option.splits)

lemma poll_some: "\<exists>mb' r'. poll_recv mb r = Some (mb', r')"
  by (simp add: poll_recv_def split: receiver_pc.splits list.splits)

lemma stuck_joined:
  assumes stuck: "\<nexists>x'. roundtrip_step x x'"
  shows "joined x" and "lm_queue (mailbox_of x) = []"
proof -
  obtain mb r where p: "poll_recv (mailbox_of x) (receiver_of x) = Some (mb, r)" using poll_some by blast
  have "retry_send (mailbox_of x) (senders x ! i) = None" if "i < length (senders x)" for i
    using stuck retry [OF that] by (metis option.exhaust surj_pair)
  then have "list_all (\<lambda>sd. spc sd = SIdle \<and> todo sd = []) (senders x)"
    by (simp add: retry_None list_all_length)
  moreover have "rpc (receiver_of x) = RTake" using stuck finish [OF _ p] by blast
  moreover have "tries x = 0 \<or> wanted (receiver_of x) \<le> length (got (receiver_of x))"
    using stuck poll [OF calculation(2) _ _ p] by (metis not_less not0_implies_Suc)
  ultimately show j: "joined x" by (simp add: joined_def)
  show "lm_queue (mailbox_of x) = []" using stuck drain [OF j _ p] by blast
qed

lemma all_sent:
  "list_all2 sent_once tags sds \<Longrightarrow> list_all (\<lambda>sd. spc sd = SIdle \<and> todo sd = []) sds \<Longrightarrow>
     sum_list (map (sender_holds \<circ> spc) sds) = 0 \<and> sum_list (map (sender_counted \<circ> spc) sds) = 0
     \<and> sum_list (map put_by sds) = mset tags"
  by (induction rule: list_all2_induct) (auto simp: sent_once_def put_by_def)

text \<open>
  Senders that each have at least one attempt and together no more tags than the mailbox
  has room for: every schedule ends, after at most ten steps per attempt of a sender and
  one per poll, and when it has ended the mailbox is as it was created and every tag has
  been received exactly once.
\<close>

theorem roundtrip_settles:
  assumes run: "(roundtrip_step ^^ m) (roundtrip_start cap n tags) x" and "length tags \<le> unat cap" and "n \<noteq> 0"
  shows "m \<le> 10 * n * length tags + 2 * n"
    and "\<nexists>x'. roundtrip_step x x' \<Longrightarrow> is_fully_drained (mailbox_of x) \<and> mset (got (receiver_of x)) = mset tags"
proof -
  have inv: "roundtrip_inv cap tags x" "steps_left x + m \<le> steps_left (roundtrip_start cap n tags)"
    using run_bounded [OF run start_inv [OF assms(3)] assms(2)] by auto
  have "sum_list (map (effort \<circ> (\<lambda>tag. sender_new (replicate n tag))) tags) = 10 * n * length tags"
    by (induction tags) (simp_all add: effort_def sender_new_def)
  then have "steps_left (roundtrip_start cap n tags) = 10 * n * length tags + 2 * n"
    by (simp add: steps_left_def roundtrip_start_def with_capacity_def)
  then show "m \<le> 10 * n * length tags + 2 * n" using inv(2) by simp
  show "is_fully_drained (mailbox_of x) \<and> mset (got (receiver_of x)) = mset tags" if stuck: "\<nexists>x'. roundtrip_step x x'"
  proof -
    note j = stuck_joined [OF stuck, unfolded joined_def]
    have a: "sum_list (map (sender_holds \<circ> spc) (senders x)) = 0" "sum_list (map (sender_counted \<circ> spc) (senders x)) = 0"
      "sum_list (map put_by (senders x)) = mset tags"
      using all_sent [of tags "senders x"] inv(1) j by (simp_all only: roundtrip_inv_def)
    have c: "conserved cap (loom_state.truncate x)" using inv(1) by (simp add: roundtrip_inv_def)
    show ?thesis
      using c [unfolded conserved_def loom_state.truncate_def loom_state.simps a] j
      by (simp add: is_fully_drained_def taken_by_def word_unat_eq_iff)
  qed
qed

text \<open>The assertions of the model in the source.\<close>

corollary model_permit_conservation_roundtrip_holds:
  assumes "(roundtrip_step ^^ m) model_permit_conservation_roundtrip x" and "\<nexists>x'. roundtrip_step x x'"
  shows "sort (got (receiver_of x)) = [1, 2] \<and> is_fully_drained (mailbox_of x)"
proof -
  have "is_fully_drained (mailbox_of x) \<and> mset (got (receiver_of x)) = mset [1, 2]"
    using roundtrip_settles(2) [of m 2 4 "[1, 2]" x] assms by (simp add: model_permit_conservation_roundtrip_def)
  then show ?thesis by (auto intro: properties_for_sort)
qed

section \<open>The handshake with enough room\<close>

text \<open>A sender with a single attempt: its retry loop is that attempt.\<close>

definition one_shot :: "nat \<Rightarrow> sender \<Rightarrow> bool" where
  "one_shot tag sd = (sent_once tag sd \<and> length (todo sd) = of_bool (spc sd = SIdle \<and> accepted sd = []))"

lemma try_send_one_shot:
  assumes "loom_try_send mb sd = Some (mb', sd')" and "one_shot tag sd"
    and "spc sd = SIdle \<Longrightarrow> accepted sd = [] \<Longrightarrow> lm_permits mb \<noteq> 0"
  shows "one_shot tag sd'"
  using assms
  by (auto simp: one_shot_def loom_try_send_def sent_once_def split: sender_pc.splits list.splits if_splits)

lemma handshake_one_shot:
  assumes reach: "(loom_step loom_recv)\<^sup>*\<^sup>* (loom_start REnable cap (map (\<lambda>tag. [tag]) tags) n) s"
    and room: "length tags \<le> unat cap"
  shows "list_all2 one_shot tags (senders s)"
  using reach
proof (induction rule: rtranclp_induct)
  case base
  show ?case by (simp add: loom_start_def list_all2_conv_all_nth one_shot_def sent_once_def sender_new_def)
next
  case (step s s')
  have once: "list_all2 sent_once tags (senders s)" using step.IH by (auto simp: one_shot_def list_all2_conv_all_nth)
  have "conserved cap s" by (rule handshake.reachable_conserved [OF step.hyps(1)]) simp
  note permit = permit_left [OF this once room]
  from step.hyps(2) show ?case
  proof cases
    case (send_step i mb sd)
    have "one_shot (tags ! i) sd"
      by (rule try_send_one_shot [OF send_step(3)])
         (use step.IH send_step(2) permit in \<open>auto simp: list_all2_conv_all_nth\<close>)
    then have "one_shot (tags ! j) ((senders s)[i := sd] ! j)" if "j < length (senders s)" for j
      using step.IH that by (cases "j = i") (auto simp: list_all2_conv_all_nth)
    then show ?thesis using step.IH unfolding send_step(1) by (simp add: list_all2_conv_all_nth)
  qed (use step.IH in simp)
qed

lemma reach_wanted:
  assumes "(loom_step loom_recv)\<^sup>*\<^sup>* (loom_start start cap sends n) s"
  shows "wanted (receiver_of s) = n"
  using assms
proof (induction rule: rtranclp_induct)
  case (step s s')
  have "loom_recv mb r = Some (mb', r') \<Longrightarrow> wanted r' = wanted r" for mb r mb' r'
    by (auto simp: loom_recv_def loom_try_recv_def gate_wait_def split: receiver_pc.splits list.splits if_splits)
  with step show ?case by auto
qed (simp add: loom_start_def)

text \<open>
  Senders of one message each with room for all of them, and a receiver that waits for
  all of them: every schedule ends, no send is refused, every message is received exactly
  once, and the mailbox is as it was created.
\<close>

theorem handshake_delivers:
  assumes run: "(loom_step loom_recv ^^ m) (loom_start REnable cap (map (\<lambda>tag. [tag]) tags) (length tags)) s"
    and room: "length tags \<le> unat cap"
  shows "m \<le> 21 * length tags + 6"
    and "\<nexists>s'. loom_step loom_recv s s' \<Longrightarrow> is_fully_drained (mailbox_of s) \<and> mset (got (receiver_of s)) = mset tags"
proof -
  show "m \<le> 21 * length tags + 6" using run_fuel [OF run] by (simp add: start_fuel concat_map_singleton)
  assume stuck: "\<nexists>s'. loom_step loom_recv s s'"
  note reach = relpowp_imp_rtranclp [OF run]
  have con: "conserved cap s" by (rule handshake.reachable_conserved [OF reach]) simp
  note idle = stuck_parts(1) [OF stuck]
  have "list_all2 sent_once tags (senders s)"
    using handshake_one_shot [OF reach room] by (auto simp: one_shot_def list_all2_conv_all_nth)
  note sent = all_sent [OF this idle]
  have r: "rpc (receiver_of s) \<in> {REnable, RPark}" using recv_None [OF stuck_parts(2) [OF stuck]] by auto
  then have eq: "mset tags = mset (lm_queue (mailbox_of s)) + mset (got (receiver_of s))"
    using con sent by (auto simp: conserved_def taken_by_def)
  have "lm_queue (mailbox_of s) = []"
    using stuck_awake [OF reach stuck] arg_cong [OF eq, of size] by (auto simp: reach_wanted [OF reach])
  moreover have "unat (lm_permits (mailbox_of s)) = unat cap" "unat (lm_size (mailbox_of s)) = 0" "lm_capacity (mailbox_of s) = cap"
    using con [unfolded conserved_def] sent r calculation by auto
  ultimately show "is_fully_drained (mailbox_of s) \<and> mset (got (receiver_of s)) = mset tags"
    using eq by (simp add: is_fully_drained_def word_unat_eq_iff)
qed

text \<open>The assertions of the two handshake models in the source.\<close>

corollary model_recv_no_lost_wakeup_holds:
  assumes "(loom_step loom_recv ^^ m) model_recv_no_lost_wakeup s" and "\<nexists>s'. loom_step loom_recv s s'"
  shows "got (receiver_of s) = [1] \<and> is_fully_drained (mailbox_of s)"
  using handshake_delivers(2) [of m 2 "[1]" s] assms by (simp add: model_recv_no_lost_wakeup_def)

corollary model_two_senders_receiver_drains_via_handshake_holds:
  assumes "(loom_step loom_recv ^^ m) model_two_senders_receiver_drains_via_handshake s" and "\<nexists>s'. loom_step loom_recv s s'"
  shows "sort (got (receiver_of s)) = [1, 2] \<and> is_fully_drained (mailbox_of s)"
proof -
  have "model_two_senders_receiver_drains_via_handshake
      = loom_start REnable 2 (map (\<lambda>tag. [tag]) [1, 2]) (length [1 :: nat, 2])"
    by (simp add: model_two_senders_receiver_drains_via_handshake_def numeral_eq_Suc)
  from handshake_delivers(2) [of m 2 "[1, 2]" s, folded this, OF assms(1) _ assms(2)]
  have "is_fully_drained (mailbox_of s) \<and> mset (got (receiver_of s)) = mset [1, 2]" by simp
  then show ?thesis by (auto intro: properties_for_sort)
qed

end
