(* ===== verification/Actor_Handle.thy ===== *)
theory Actor_Handle
  imports Scheduler
begin

text \<open>
  The client side of the scheduler: actor handles and the builder (\<open>src/handle.rs\<close>) and
  the context that a running actor sends with (\<open>src/lib.rs\<close>). A handle is an identity;
  the scheduler it shares is the state that its operations act on.
\<close>

section \<open>Handles\<close>

type_synonym ('d, 'i, 'w, 'e, 'p, 'm) send_poll =
  "unit result option \<times> ('d, 'i, 'w, 'e, 'p, 'm) scheduler"

record actor_handle =
  handle_id :: actor_id

definition handle_send_with_priority ::
  "('q, 's, 'n, 'd, 'i, 'w, 'z) sch_ext_scheme \<Rightarrow> actor_handle \<Rightarrow> message_payload \<Rightarrow> priority
   \<Rightarrow> ('d, 'i, 'w, 'e, 'p, 'm) scheduler \<Rightarrow> ('d, 'i, 'w, 'e, 'p, 'm) send_poll" where
  "handle_send_with_priority X h pl prio s =
     sched_send X (handle_id h) \<lparr>sender = None, payload = pl, priority = prio\<rparr> s"

definition handle_send ::
  "('q, 's, 'n, 'd, 'i, 'w, 'z) sch_ext_scheme \<Rightarrow> actor_handle \<Rightarrow> message_payload
   \<Rightarrow> ('d, 'i, 'w, 'e, 'p, 'm) scheduler \<Rightarrow> ('d, 'i, 'w, 'e, 'p, 'm) send_poll" where
  "handle_send X h pl s = sched_send X (handle_id h) \<lparr>sender = None, payload = pl, priority = Normal\<rparr> s"

definition handle_send_from ::
  "('q, 's, 'n, 'd, 'i, 'w, 'z) sch_ext_scheme \<Rightarrow> actor_handle \<Rightarrow> actor_id \<Rightarrow> message_payload
   \<Rightarrow> ('d, 'i, 'w, 'e, 'p, 'm) scheduler \<Rightarrow> ('d, 'i, 'w, 'e, 'p, 'm) send_poll" where
  "handle_send_from X h from pl s =
     sched_send X (handle_id h) \<lparr>sender = Some from, payload = pl, priority = Normal\<rparr> s"

definition handle_start ::
  "('q, 's, 'n, 'd, 'i, 'w, 'z) sch_ext_scheme \<Rightarrow> actor_handle
   \<Rightarrow> ('d, 'i, 'w, 'e, 'p, 'm) scheduler \<Rightarrow> ('d, 'i, 'w, 'e, 'p, 'm) send_poll" where
  "handle_start X h s = handle_send X h Start s"

definition handle_stop ::
  "('q, 's, 'n, 'd, 'i, 'w, 'z) sch_ext_scheme \<Rightarrow> actor_handle
   \<Rightarrow> ('d, 'i, 'w, 'e, 'p, 'm) scheduler \<Rightarrow> ('d, 'i, 'w, 'e, 'p, 'm) send_poll" where
  "handle_stop X h s = handle_send X h Stop s"

definition handle_pause ::
  "('q, 's, 'n, 'd, 'i, 'w, 'z) sch_ext_scheme \<Rightarrow> actor_handle
   \<Rightarrow> ('d, 'i, 'w, 'e, 'p, 'm) scheduler \<Rightarrow> ('d, 'i, 'w, 'e, 'p, 'm) send_poll" where
  "handle_pause X h s = handle_send X h (Signal Pause) s"

definition handle_resume ::
  "('q, 's, 'n, 'd, 'i, 'w, 'z) sch_ext_scheme \<Rightarrow> actor_handle
   \<Rightarrow> ('d, 'i, 'w, 'e, 'p, 'm) scheduler \<Rightarrow> ('d, 'i, 'w, 'e, 'p, 'm) send_poll" where
  "handle_resume X h s = handle_send X h (Signal Resume) s"

definition handle_restart ::
  "('q, 's, 'n, 'd, 'i, 'w, 'z) sch_ext_scheme \<Rightarrow> actor_handle
   \<Rightarrow> ('d, 'i, 'w, 'e, 'p, 'm) scheduler \<Rightarrow> ('d, 'i, 'w, 'e, 'p, 'm) send_poll" where
  "handle_restart X h s = handle_send X h (Signal Restart) s"

section \<open>Queries\<close>

definition handle_state ::
  "('q, 's, 'n, 'd, 'i, 'w, 'z) sch_ext_scheme \<Rightarrow> actor_handle
   \<Rightarrow> ('d, 'i, 'w, 'e, 'p, 'm) scheduler \<Rightarrow> actor_state option" where
  "handle_state X h s = get_state X (registry_of s) (handle_id h)"

definition handle_is_running ::
  "('q, 's, 'n, 'd, 'i, 'w, 'z) sch_ext_scheme \<Rightarrow> actor_handle \<Rightarrow> ('d, 'i, 'w, 'e, 'p, 'm) scheduler \<Rightarrow> bool" where
  "handle_is_running X h s = (handle_state X h s = Some Running)"

definition handle_is_stopped ::
  "('q, 's, 'n, 'd, 'i, 'w, 'z) sch_ext_scheme \<Rightarrow> actor_handle \<Rightarrow> ('d, 'i, 'w, 'e, 'p, 'm) scheduler \<Rightarrow> bool" where
  "handle_is_stopped X h s = (handle_state X h s = Some Stopped)"

definition handle_is_suspended ::
  "('q, 's, 'n, 'd, 'i, 'w, 'z) sch_ext_scheme \<Rightarrow> actor_handle \<Rightarrow> ('d, 'i, 'w, 'e, 'p, 'm) scheduler \<Rightarrow> bool" where
  "handle_is_suspended X h s = (handle_state X h s = Some Suspended)"

definition handle_is_backpressured ::
  "('q, 's, 'n, 'd, 'i, 'w, 'z) sch_ext_scheme \<Rightarrow> actor_handle \<Rightarrow> ('d, 'i, 'w, 'e, 'p, 'm) scheduler \<Rightarrow> bool" where
  "handle_is_backpressured X h s =
     (case get_mailbox X (registry_of s) (handle_id h) of None \<Rightarrow> False | Some mb \<Rightarrow> is_backpressured mb)"

definition handle_mailbox_size ::
  "('q, 's, 'n, 'd, 'i, 'w, 'z) sch_ext_scheme \<Rightarrow> actor_handle \<Rightarrow> ('d, 'i, 'w, 'e, 'p, 'm) scheduler \<Rightarrow> usize" where
  "handle_mailbox_size X h s =
     (case get_mailbox X (registry_of s) (handle_id h) of None \<Rightarrow> 0 | Some mb \<Rightarrow> Mailbox_len mb)"

definition handle_processed_count ::
  "('q, 's, 'n, 'd, 'i, 'w, 'z) sch_ext_scheme \<Rightarrow> actor_handle \<Rightarrow> ('d, 'i, 'w, 'e, 'p, 'm) scheduler \<Rightarrow> u64" where
  "handle_processed_count X h s = get_processed_count X (registry_of s) (handle_id h)"

text \<open>Two handles are the same when their actors are.\<close>

definition handle_eq :: "actor_handle \<Rightarrow> actor_handle \<Rightarrow> bool" where
  "handle_eq h k = (handle_id h = handle_id k)"

section \<open>The builder and the context\<close>

record actor_builder =
  builder_name :: "string option"
  builder_priority :: priority

definition ActorBuilder_new :: actor_builder where
  "ActorBuilder_new = \<lparr>builder_name = None, builder_priority = Normal\<rparr>"

definition ActorBuilder_name :: "string \<Rightarrow> actor_builder \<Rightarrow> actor_builder" where
  "ActorBuilder_name n b = b\<lparr>builder_name := Some n\<rparr>"

definition ActorBuilder_priority :: "priority \<Rightarrow> actor_builder \<Rightarrow> actor_builder" where
  "ActorBuilder_priority p b = b\<lparr>builder_priority := p\<rparr>"

definition ActorBuilder_spawn ::
  "('q, 's, 'n, 'd, 'i, 'w, 'z) sch_ext_scheme \<Rightarrow> int \<Rightarrow> actor_id \<Rightarrow> actor_builder
   \<Rightarrow> ('d, 'i, 'w, 'e, 'p, 'm) scheduler \<Rightarrow> actor_handle result \<times> ('d, 'i, 'w, 'e, 'p, 'm) scheduler" where
  "ActorBuilder_spawn X unix_now new_id b s =
     (case spawn_named X unix_now new_id (builder_name b) s of
        (Inl e, s) \<Rightarrow> (Err e, s)
      | (Inr i, s) \<Rightarrow> (Ok \<lparr>handle_id = i\<rparr>, s))"

record actor_context =
  context_id :: actor_id

definition context_send ::
  "('q, 's, 'n, 'd, 'i, 'w, 'z) sch_ext_scheme \<Rightarrow> actor_context \<Rightarrow> actor_id \<Rightarrow> message_payload
   \<Rightarrow> ('d, 'i, 'w, 'e, 'p, 'm) scheduler \<Rightarrow> ('d, 'i, 'w, 'e, 'p, 'm) send_poll" where
  "context_send X c target pl s =
     sched_send X target \<lparr>sender = Some (context_id c), payload = pl, priority = Normal\<rparr> s"

definition context_send_high ::
  "('q, 's, 'n, 'd, 'i, 'w, 'z) sch_ext_scheme \<Rightarrow> actor_context \<Rightarrow> actor_id \<Rightarrow> message_payload
   \<Rightarrow> ('d, 'i, 'w, 'e, 'p, 'm) scheduler \<Rightarrow> ('d, 'i, 'w, 'e, 'p, 'm) send_poll" where
  "context_send_high X c target pl s =
     sched_send X target \<lparr>sender = Some (context_id c), payload = pl, priority = High\<rparr> s"

end
