(* ===== verification/Rpc.thy ===== *)
theory Rpc
  imports Scheduler
begin

text \<open>
  Request and response over actor messages (\<open>src/rpc.rs\<close>): the wire types, the tracker of
  pending calls, the client and the handler registry. \<open>bincode\<close> is external, a record of
  encoders and decoders; a \<open>oneshot\<close> sender is a number, and what is sent through the
  senders is kept in a log.
\<close>

section \<open>Errors\<close>

datatype rpc_error =
    RpcTimeout
  | ActorNotFound actor_id
  | HandlerPanic rust_string
  | SerializationError rust_string
  | InternalError rust_string

datatype raw_rpc_error =
    RawTimeout
  | RawActorNotFound actor_id
  | RawHandlerPanic rust_string
  | RawSerializationError rust_string
  | RawInternalError rust_string

primrec to_raw_error :: "rpc_error \<Rightarrow> raw_rpc_error" where
  "to_raw_error RpcTimeout = RawTimeout"
| "to_raw_error (ActorNotFound i) = RawActorNotFound i"
| "to_raw_error (HandlerPanic s) = RawHandlerPanic s"
| "to_raw_error (SerializationError s) = RawSerializationError s"
| "to_raw_error (InternalError s) = RawInternalError s"

primrec of_raw_error :: "raw_rpc_error \<Rightarrow> rpc_error" where
  "of_raw_error RawTimeout = RpcTimeout"
| "of_raw_error (RawActorNotFound i) = ActorNotFound i"
| "of_raw_error (RawHandlerPanic s) = HandlerPanic s"
| "of_raw_error (RawSerializationError s) = SerializationError s"
| "of_raw_error (RawInternalError s) = InternalError s"

primrec rpc_error_display :: "rpc_error \<Rightarrow> rust_string" where
  "rpc_error_display RpcTimeout = [Str ''RPC request timed out'']"
| "rpc_error_display (ActorNotFound i) = [Str ''Actor not found: '', DbgId i]"
| "rpc_error_display (HandlerPanic s) = Str ''Handler panic: '' # s"
| "rpc_error_display (SerializationError s) = Str ''Serialization error: '' # s"
| "rpc_error_display (InternalError s) = Str ''Internal error: '' # s"

definition rpc_into_error :: "rpc_error \<Rightarrow> error" where
  "rpc_into_error e = Actor (rpc_error_display e)"

section \<open>Requests and responses\<close>

type_synonym uuid = u128
type_synonym bytes = "u8 list"

record 'a rpc_request =
  rq_from :: actor_id
  rq_to :: actor_id
  rq_payload :: 'a
  rq_correlation_id :: uuid
  rq_timeout :: duration

record raw_rpc_request =
  raw_from :: actor_id
  raw_to :: actor_id
  raw_payload :: bytes
  raw_correlation_id :: uuid
  raw_timeout_ms :: u64
  raw_type_name :: string

record 'a rpc_response =
  rs_correlation_id :: uuid
  rs_result :: "rpc_error + 'a"

record raw_rpc_response =
  rr_correlation_id :: uuid
  rr_result :: "raw_rpc_error + bytes"

record rpc_envelope =
  env_type_name :: string
  env_payload :: bytes
  env_correlation_id :: uuid

text \<open>\<open>bincode\<close>: an encoder and a decoder for each type that is sent.\<close>

record 'a codec =
  encode :: "'a \<Rightarrow> rust_string + bytes"
  decode :: "bytes \<Rightarrow> rust_string + 'a"

record bincode =
  bc_request :: "raw_rpc_request codec"
  bc_response :: "raw_rpc_response codec"
  bc_envelope :: "rpc_envelope codec"

definition ser_err :: "rust_string + 'a \<Rightarrow> rpc_error + 'a" where
  "ser_err r = (case r of Inl e \<Rightarrow> Inl (SerializationError e) | Inr x \<Rightarrow> Inr x)"

text \<open>A message type is its name and its codec; \<open>as_millis() as u64\<close> truncates twice.\<close>

record 'a rpc_message =
  TYPE_NAME :: string
  msg_codec :: "'a codec"

definition as_millis :: "duration \<Rightarrow> u64" where
  "as_millis d = of_nat (d div 1000000)"

definition from_millis :: "u64 \<Rightarrow> duration" where
  "from_millis ms = unat ms * 1000000"

definition RpcRequest_new :: "uuid \<Rightarrow> actor_id \<Rightarrow> actor_id \<Rightarrow> 'a \<Rightarrow> 'a rpc_request" where
  "RpcRequest_new new_uuid f t p =
     \<lparr>rq_from = f, rq_to = t, rq_payload = p, rq_correlation_id = new_uuid, rq_timeout = from_secs 30\<rparr>"

definition with_timeout :: "duration \<Rightarrow> 'a rpc_request \<Rightarrow> 'a rpc_request" where
  "with_timeout d r = r\<lparr>rq_timeout := d\<rparr>"

definition request_to_bytes :: "bincode \<Rightarrow> 'a rpc_message \<Rightarrow> 'a rpc_request \<Rightarrow> rpc_error + bytes" where
  "request_to_bytes B M r =
     (case ser_err (encode (msg_codec M) (rq_payload r)) of
        Inl e \<Rightarrow> Inl e
      | Inr pl \<Rightarrow>
          ser_err (encode (bc_request B)
            \<lparr>raw_from = rq_from r, raw_to = rq_to r, raw_payload = pl,
             raw_correlation_id = rq_correlation_id r, raw_timeout_ms = as_millis (rq_timeout r),
             raw_type_name = TYPE_NAME M\<rparr>))"

definition request_from_bytes :: "bincode \<Rightarrow> 'a rpc_message \<Rightarrow> bytes \<Rightarrow> rpc_error + 'a rpc_request" where
  "request_from_bytes B M bs =
     (case ser_err (decode (bc_request B) bs) of
        Inl e \<Rightarrow> Inl e
      | Inr raw \<Rightarrow>
          (case ser_err (decode (msg_codec M) (raw_payload raw)) of
             Inl e \<Rightarrow> Inl e
           | Inr pl \<Rightarrow>
               Inr \<lparr>rq_from = raw_from raw, rq_to = raw_to raw, rq_payload = pl,
                    rq_correlation_id = raw_correlation_id raw, rq_timeout = from_millis (raw_timeout_ms raw)\<rparr>))"

definition response_ok :: "uuid \<Rightarrow> 'a \<Rightarrow> 'a rpc_response" where
  "response_ok cid p = \<lparr>rs_correlation_id = cid, rs_result = Inr p\<rparr>"

definition response_error :: "uuid \<Rightarrow> rpc_error \<Rightarrow> 'a rpc_response" where
  "response_error cid e = \<lparr>rs_correlation_id = cid, rs_result = Inl e\<rparr>"

definition response_to_bytes :: "bincode \<Rightarrow> 'a rpc_message \<Rightarrow> 'a rpc_response \<Rightarrow> rpc_error + bytes" where
  "response_to_bytes B M r =
     (case (case rs_result r of
              Inr p \<Rightarrow> (case ser_err (encode (msg_codec M) p) of Inl e \<Rightarrow> Inl e | Inr bs \<Rightarrow> Inr (Inr bs))
            | Inl e \<Rightarrow> Inr (Inl (to_raw_error e))) of
        Inl e \<Rightarrow> Inl e
      | Inr res \<Rightarrow>
          ser_err (encode (bc_response B) \<lparr>rr_correlation_id = rs_correlation_id r, rr_result = res\<rparr>))"

definition response_from_bytes :: "bincode \<Rightarrow> 'a rpc_message \<Rightarrow> bytes \<Rightarrow> rpc_error + 'a rpc_response" where
  "response_from_bytes B M bs =
     (case ser_err (decode (bc_response B) bs) of
        Inl e \<Rightarrow> Inl e
      | Inr raw \<Rightarrow>
          (case rr_result raw of
             Inr pl \<Rightarrow>
               (case ser_err (decode (msg_codec M) pl) of
                  Inl e \<Rightarrow> Inl e
                | Inr p \<Rightarrow> Inr \<lparr>rs_correlation_id = rr_correlation_id raw, rs_result = Inr p\<rparr>)
           | Inl e \<Rightarrow> Inr \<lparr>rs_correlation_id = rr_correlation_id raw, rs_result = Inl (of_raw_error e)\<rparr>))"

section \<open>Pending calls\<close>

record pending_call =
  tx :: nat
  deadline :: instant

type_synonym pending_calls = "(uuid, pending_call) hashmap"

definition PendingCalls_new :: pending_calls where
  "PendingCalls_new = []"

definition pending_insert :: "instant \<Rightarrow> uuid \<Rightarrow> nat \<Rightarrow> duration \<Rightarrow> pending_calls \<Rightarrow> pending_calls" where
  "pending_insert now cid t d calls = hm_insert calls cid \<lparr>tx = t, deadline = now + d\<rparr>"

definition pending_remove :: "uuid \<Rightarrow> pending_calls \<Rightarrow> pending_call option \<times> pending_calls" where
  "pending_remove cid calls = (hm_get calls cid, hm_remove calls cid)"

text \<open>The log of what was sent: the sender and the bytes.\<close>

definition expire_one ::
  "bincode \<Rightarrow> uuid \<Rightarrow> pending_calls \<times> (nat \<times> bytes) list \<Rightarrow> pending_calls \<times> (nat \<times> bytes) list" where
  "expire_one B cid st =
     (case st of (calls, sent) \<Rightarrow>
        case pending_remove cid calls of
          (None, calls) \<Rightarrow> (calls, sent)
        | (Some call, calls) \<Rightarrow>
            (case encode (bc_response B) \<lparr>rr_correlation_id = cid, rr_result = Inl RawTimeout\<rparr> of
               Inl _ \<Rightarrow> (calls, sent)
             | Inr bs \<Rightarrow> (calls, sent @ [(tx call, bs)])))"

definition cleanup_expired ::
  "bincode \<Rightarrow> instant \<Rightarrow> pending_calls \<times> (nat \<times> bytes) list \<Rightarrow> pending_calls \<times> (nat \<times> bytes) list" where
  "cleanup_expired B now st =
     fold (expire_one B) (map fst (filter (\<lambda>(_, c). deadline c \<le> now) (fst st))) st"

text \<open>
  The cleanup task sweeps at every tick of its interval and never ends: its effect so far
  is that of the ticks so far, whose clock readings are \<open>nows\<close>.
\<close>

definition cleanup_task ::
  "bincode \<Rightarrow> instant list \<Rightarrow> pending_calls \<times> (nat \<times> bytes) list \<Rightarrow> pending_calls \<times> (nat \<times> bytes) list" where
  "cleanup_task B nows st = fold (cleanup_expired B) nows st"

section \<open>The client\<close>

record rpc_client =
  default_timeout :: duration
  pending :: pending_calls
  channel_log :: "(nat \<times> bytes) list"
  next_tx :: nat

definition RpcClient_new :: rpc_client where
  "RpcClient_new = \<lparr>default_timeout = from_secs 30, pending = PendingCalls_new, channel_log = [], next_tx = 0\<rparr>"

definition with_default_timeout :: "duration \<Rightarrow> rpc_client \<Rightarrow> rpc_client" where
  "with_default_timeout d c = c\<lparr>default_timeout := d\<rparr>"

text \<open>
  A call up to its first suspension: everything until the send has been polled. \<open>Inl e\<close>
  ends the call, \<open>Inr None\<close> waits for room in the mailbox, \<open>Inr (Some t)\<close> waits for a
  response on channel \<open>t\<close>.
\<close>

definition call_begin ::
  "bincode \<Rightarrow> ('q, 's, 'n, 'd, 'i, 'w, 'z) sch_ext_scheme \<Rightarrow> (error \<Rightarrow> rust_string) \<Rightarrow> 'a rpc_message
   \<Rightarrow> instant \<Rightarrow> actor_id \<Rightarrow> uuid \<Rightarrow> actor_id \<Rightarrow> 'a \<Rightarrow> duration
   \<Rightarrow> rpc_client \<times> ('d, 'i, 'w, 'e, 'p, 'm) scheduler
   \<Rightarrow> (rpc_error + nat option) \<times> rpc_client \<times> ('d, 'i, 'w, 'e, 'p, 'm) scheduler" where
  "call_begin B X show_error M now from cid to req timeout cs =
     (case cs of (c, s) \<Rightarrow>
        case request_to_bytes B M \<lparr>rq_from = from, rq_to = to, rq_payload = req, rq_correlation_id = cid,
                                   rq_timeout = timeout\<rparr> of
          Inl e \<Rightarrow> (Inl e, c, s)
        | Inr rb \<Rightarrow>
            (case ser_err (encode (bc_envelope B)
                     \<lparr>env_type_name = TYPE_NAME M, env_payload = rb, env_correlation_id = cid\<rparr>) of
               Inl e \<Rightarrow> (Inl e, c, s)
             | Inr eb \<Rightarrow>
                 let t = next_tx c;
                     c = c\<lparr>pending := pending_insert now cid t timeout (pending c), next_tx := t + 1\<rparr>
                 in case sched_send X to \<lparr>sender = Some from, payload = Custom eb, priority = High\<rparr> s of
                      (None, s) \<Rightarrow> (Inr None, c, s)
                    | (Some (Inl e), s) \<Rightarrow> (Inl (InternalError (show_error e)), c, s)
                    | (Some (Inr _), s) \<Rightarrow> (Inr (Some t), c, s)))"

text \<open>\<open>call\<close> is \<open>call_with_timeout\<close> with the client's own timeout.\<close>

definition rpc_call ::
  "bincode \<Rightarrow> ('q, 's, 'n, 'd, 'i, 'w, 'z) sch_ext_scheme \<Rightarrow> (error \<Rightarrow> rust_string) \<Rightarrow> 'a rpc_message
   \<Rightarrow> instant \<Rightarrow> actor_id \<Rightarrow> uuid \<Rightarrow> actor_id \<Rightarrow> 'a
   \<Rightarrow> rpc_client \<times> ('d, 'i, 'w, 'e, 'p, 'm) scheduler
   \<Rightarrow> (rpc_error + nat option) \<times> rpc_client \<times> ('d, 'i, 'w, 'e, 'p, 'm) scheduler" where
  "rpc_call B X show_error M now from cid to req cs =
     call_begin B X show_error M now from cid to req (default_timeout (fst cs)) cs"

text \<open>How the wait for the response ends.\<close>

datatype rx_outcome = RxElapsed | RxClosed | RxBytes bytes

definition call_finish ::
  "bincode \<Rightarrow> 'b rpc_message \<Rightarrow> uuid \<Rightarrow> rx_outcome \<Rightarrow> rpc_client \<Rightarrow> (rpc_error + 'b) \<times> rpc_client" where
  "call_finish B M cid out c =
     (case out of
        RxElapsed \<Rightarrow> (Inl RpcTimeout, c\<lparr>pending := snd (pending_remove cid (pending c))\<rparr>)
      | RxClosed \<Rightarrow> (Inl (InternalError [Str ''Response channel closed'']), c)
      | RxBytes bs \<Rightarrow>
          (case response_from_bytes B M bs of
             Inl e \<Rightarrow> (Inl e, c)
           | Inr r \<Rightarrow> (rs_result r, c)))"

definition handle_response :: "bincode \<Rightarrow> bytes \<Rightarrow> rpc_client \<Rightarrow> (rpc_error + unit) \<times> rpc_client" where
  "handle_response B bs c =
     (case ser_err (decode (bc_envelope B) bs) of
        Inl e \<Rightarrow> (Inl e, c)
      | Inr env \<Rightarrow>
          (case pending_remove (env_correlation_id env) (pending c) of
             (Some call, calls) \<Rightarrow>
               (Inr (), c\<lparr>pending := calls, channel_log := channel_log c @ [(tx call, env_payload env)]\<rparr>)
           | (None, calls) \<Rightarrow> (Inr (), c\<lparr>pending := calls\<rparr>)))"

section \<open>Handlers\<close>

text \<open>A handler without its types: bytes of a request to bytes of a response.\<close>

type_synonym erased_handler = "bytes \<Rightarrow> rpc_error + bytes"

definition HandlerWrapper ::
  "bincode \<Rightarrow> 'a rpc_message \<Rightarrow> 'b rpc_message \<Rightarrow> ('a rpc_request \<Rightarrow> 'b rpc_response) \<Rightarrow> erased_handler" where
  "HandlerWrapper B Q R h bs =
     (case request_from_bytes B Q bs of
        Inl e \<Rightarrow> Inl e
      | Inr rq \<Rightarrow> response_to_bytes B R (h rq))"

record rpc_registry =
  handlers :: "(string, erased_handler) hashmap"
  type_ids :: "(string, nat) hashmap"

definition RpcRegistry_new :: rpc_registry where
  "RpcRegistry_new = \<lparr>handlers = [], type_ids = []\<rparr>"

definition rpc_register ::
  "bincode \<Rightarrow> nat \<Rightarrow> 'a rpc_message \<Rightarrow> 'b rpc_message \<Rightarrow> ('a rpc_request \<Rightarrow> 'b rpc_response)
   \<Rightarrow> rpc_registry \<Rightarrow> rpc_registry" where
  "rpc_register B type_id Q R h reg =
     reg\<lparr>type_ids := hm_insert (type_ids reg) (TYPE_NAME Q) type_id,
         handlers := hm_insert (handlers reg) (TYPE_NAME Q) (HandlerWrapper B Q R h)\<rparr>"

definition no_handler_error :: "string \<Rightarrow> rpc_error" where
  "no_handler_error n = InternalError [Str ''No handler registered for type: '', Str n]"

definition rpc_dispatch :: "string \<Rightarrow> bytes \<Rightarrow> rpc_registry \<Rightarrow> rpc_error + bytes" where
  "rpc_dispatch n bs reg =
     (case hm_get (handlers reg) n of
        None \<Rightarrow> Inl (no_handler_error n)
      | Some h \<Rightarrow> h bs)"

definition has_handler :: "string \<Rightarrow> rpc_registry \<Rightarrow> bool" where
  "has_handler n reg = hm_contains (handlers reg) n"

definition registered_types :: "rpc_registry \<Rightarrow> string list" where
  "registered_types reg = map fst (handlers reg)"

definition rpc_unregister :: "string \<Rightarrow> rpc_registry \<Rightarrow> bool \<times> rpc_registry" where
  "rpc_unregister n reg =
     (hm_contains (handlers reg) n,
      reg\<lparr>type_ids := hm_remove (type_ids reg) n, handlers := hm_remove (handlers reg) n\<rparr>)"

definition rpc_clear :: "rpc_registry \<Rightarrow> rpc_registry" where
  "rpc_clear reg = \<lparr>handlers = [], type_ids = []\<rparr>"

definition process_rpc_message :: "bincode \<Rightarrow> rpc_registry \<Rightarrow> bytes \<Rightarrow> rpc_error + bytes" where
  "process_rpc_message B reg bs =
     (case ser_err (decode (bc_envelope B) bs) of
        Inl e \<Rightarrow> Inl e
      | Inr env \<Rightarrow> rpc_dispatch (env_type_name env) (env_payload env) reg)"

end
