(* ===== verification/Rpc_Correct.thy ===== *)
theory Rpc_Correct
  imports Rpc Scheduler_Correct
begin

text \<open>
  Correctness of the request and response protocol: round trips through the wire types,
  a whole call from the client through a handler and back, and the expiry of pending
  calls.
\<close>

section \<open>What the encoding promises\<close>

locale lawful_codec =
  fixes C :: "'a codec"
  assumes decode_encode: "encode C x = Inr bs \<Longrightarrow> decode C bs = Inr x"

locale rpc_wire =
  rq: lawful_codec "bc_request B" + rs: lawful_codec "bc_response B" + ev: lawful_codec "bc_envelope B"
  for B :: bincode

locale rpc_wire_message = rpc_wire B + msg: lawful_codec "msg_codec M"
  for B :: bincode and M :: "'a rpc_message"

lemma ser_err_Inr [simp]: "ser_err r = Inr x \<longleftrightarrow> r = Inr x" "ser_err (Inr x) = Inr x"
  by (auto simp: ser_err_def split: sum.splits)

lemma of_to_raw_error [simp]: "of_raw_error (to_raw_error e) = e"
  by (cases e) simp_all

text \<open>What is left of a timeout after the wire: whole milliseconds, modulo the range of \<open>u64\<close>.\<close>

definition wire_timeout :: "duration \<Rightarrow> duration" where
  "wire_timeout d = (d div 1000000 mod 2 ^ 64) * 1000000"

lemma from_as_millis: "from_millis (as_millis d) = wire_timeout d"
  by (simp add: from_millis_def as_millis_def wire_timeout_def unat_of_nat)

lemma wire_timeout_exact: "1000000 dvd d \<Longrightarrow> d div 1000000 < 2 ^ 64 \<Longrightarrow> wire_timeout d = d"
  by (simp add: wire_timeout_def)

context rpc_wire_message
begin

lemma request_roundtrip:
  assumes "request_to_bytes B M r = Inr bs"
  shows "request_from_bytes B M bs = Inr (r\<lparr>rq_timeout := wire_timeout (rq_timeout r)\<rparr>)"
proof -
  obtain pl where pl: "encode (msg_codec M) (rq_payload r) = Inr pl"
    "encode (bc_request B) \<lparr>raw_from = rq_from r, raw_to = rq_to r, raw_payload = pl,
       raw_correlation_id = rq_correlation_id r, raw_timeout_ms = as_millis (rq_timeout r),
       raw_type_name = TYPE_NAME M\<rparr> = Inr bs"
    using assms by (auto simp: request_to_bytes_def split: sum.splits)
  show ?thesis
    using rq.decode_encode [OF pl(2)] msg.decode_encode [OF pl(1)]
    by (simp add: request_from_bytes_def from_as_millis)
qed

lemma response_roundtrip:
  assumes "response_to_bytes B M r = Inr bs"
  shows "response_from_bytes B M bs = Inr r"
proof (cases "rs_result r")
  case (Inl e)
  then have "encode (bc_response B) \<lparr>rr_correlation_id = rs_correlation_id r, rr_result = Inl (to_raw_error e)\<rparr> = Inr bs"
    using assms by (simp add: response_to_bytes_def)
  from rs.decode_encode [OF this] show ?thesis using Inl by (simp add: response_from_bytes_def)
next
  case (Inr p)
  then obtain pl where pl: "encode (msg_codec M) p = Inr pl"
    "encode (bc_response B) \<lparr>rr_correlation_id = rs_correlation_id r, rr_result = Inr pl\<rparr> = Inr bs"
    using assms by (auto simp: response_to_bytes_def split: sum.splits)
  show ?thesis
    using rs.decode_encode [OF pl(2)] msg.decode_encode [OF pl(1)] Inr by (simp add: response_from_bytes_def)
qed

end

section \<open>An instance of the encoding\<close>

text \<open>A codec for the values of a table, each encoded as its position.\<close>

definition position :: "'a \<Rightarrow> 'a list \<Rightarrow> nat" where
  "position x xs = length (takeWhile (\<lambda>y. y \<noteq> x) xs)"

definition table_codec :: "'a list \<Rightarrow> 'a codec" where
  "table_codec xs =
     \<lparr>encode = (\<lambda>x. if x \<in> set xs \<and> length xs \<le> 256 then Inr [of_nat (position x xs)]
                   else Inl [Str ''not in the table'']),
      decode = (\<lambda>bs. case bs of
                       [b] \<Rightarrow> if unat b < length xs then Inr (xs ! unat b) else Inl [Str ''no such entry'']
                     | _ \<Rightarrow> Inl [Str ''length''])\<rparr>"

lemma position_nth: "x \<in> set xs \<Longrightarrow> position x xs < length xs \<and> xs ! position x xs = x"
  by (induction xs) (auto simp: position_def)

lemma table_codec_lawful: "lawful_codec (table_codec xs)"
proof
  fix x bs
  assume "encode (table_codec xs) x = Inr bs"
  then have x: "x \<in> set xs" "length xs \<le> 256" "bs = [of_nat (position x xs)]"
    by (auto simp: table_codec_def split: if_splits)
  have "unat (of_nat (position x xs) :: u8) = position x xs"
    by (rule unat_of_nat_small) (use position_nth [OF x(1)] x(2) in simp)
  then show "decode (table_codec xs) bs = Inr x"
    using position_nth [OF x(1)] x(3) by (simp add: table_codec_def)
qed

definition demo_request :: "nat rpc_request" where
  "demo_request = \<lparr>rq_from = ActorId 5, rq_to = ActorId 1, rq_payload = 42, rq_correlation_id = 77,
     rq_timeout = 1500000\<rparr>"

definition demo_question :: "nat rpc_message" where
  "demo_question = \<lparr>TYPE_NAME = ''Q'', msg_codec = table_codec [42]\<rparr>"

definition demo_answer :: "nat rpc_message" where
  "demo_answer = \<lparr>TYPE_NAME = ''A'', msg_codec = table_codec [84]\<rparr>"

definition demo_wire :: bincode where
  "demo_wire =
     \<lparr>bc_request = table_codec [\<lparr>raw_from = ActorId 5, raw_to = ActorId 1, raw_payload = [0],
        raw_correlation_id = 77, raw_timeout_ms = 1, raw_type_name = ''Q''\<rparr>],
      bc_response = table_codec [\<lparr>rr_correlation_id = 77, rr_result = Inr [0]\<rparr>,
        \<lparr>rr_correlation_id = 77, rr_result = Inl RawTimeout\<rparr>],
      bc_envelope = table_codec [\<lparr>env_type_name = ''Q'', env_payload = [0], env_correlation_id = 77\<rparr>]\<rparr>"

interpretation demo_question: rpc_wire_message demo_wire demo_question
  by (simp add: rpc_wire_message_def rpc_wire_def demo_wire_def demo_question_def table_codec_lawful)

interpretation demo_answer: rpc_wire_message demo_wire demo_answer
  by (simp add: rpc_wire_message_def rpc_wire_def demo_wire_def demo_answer_def table_codec_lawful)

section \<open>Properties\<close>

text \<open>
  C34: requests and responses survive the wire. A response decodes to what was encoded,
  errors included. A request decodes to itself but for its timeout, of which only whole
  milliseconds are left, so that a timeout below one millisecond arrives as zero.
\<close>

theorem rpc_wire_roundtrip:
  assumes "rpc_wire_message B M" and "request_to_bytes B M rq = Inr qb" and "response_to_bytes B M rs = Inr rb"
  shows "request_from_bytes B M qb = Inr (rq\<lparr>rq_timeout := wire_timeout (rq_timeout rq)\<rparr>)
    \<and> response_from_bytes B M rb = Inr rs
    \<and> (rq_timeout rq < 1000000 \<longrightarrow> wire_timeout (rq_timeout rq) = 0)"
  using rpc_wire_message.request_roundtrip [OF assms(1,2)] rpc_wire_message.response_roundtrip [OF assms(1,3)]
  by (simp add: wire_timeout_def)

lemmas demo_rpc_defs =
  demo_wire_def demo_question_def demo_answer_def demo_request_def table_codec_def position_def

theorem rpc_wire_roundtrip_witness:
  "request_from_bytes demo_wire demo_question [0] = Inr (demo_request\<lparr>rq_timeout := 1000000\<rparr>)
   \<and> response_from_bytes demo_wire demo_question [1] = Inr (response_error 77 RpcTimeout)"
proof -
  have "request_to_bytes demo_wire demo_question demo_request = Inr [0]"
    "response_to_bytes demo_wire demo_question (response_error 77 RpcTimeout) = Inr [1]"
    "wire_timeout (rq_timeout demo_request) = 1000000"
    by (simp_all add: request_to_bytes_def response_to_bytes_def response_error_def as_millis_def
        wire_timeout_def demo_rpc_defs)
  from rpc_wire_roundtrip [OF demo_question.rpc_wire_message_axioms this(1,2)] this(3) show ?thesis by simp
qed

text \<open>What a call has done by the time it waits for its response.\<close>

lemma call_begin_sent:
  assumes "call_begin B X sh M now from cid to req timeout (c, s) = (Inr (Some t), c1, s1)"
  shows "\<exists>qb eb. request_to_bytes B M \<lparr>rq_from = from, rq_to = to, rq_payload = req, rq_correlation_id = cid,
        rq_timeout = timeout\<rparr> = Inr qb
    \<and> encode (bc_envelope B) \<lparr>env_type_name = TYPE_NAME M, env_payload = qb, env_correlation_id = cid\<rparr> = Inr eb
    \<and> sched_send X to \<lparr>sender = Some from, payload = Custom eb, priority = High\<rparr> s = (Some (Ok ()), s1)
    \<and> c1 = c\<lparr>pending := pending_insert now cid t timeout (pending c), next_tx := t + 1\<rparr> \<and> t = next_tx c"
  using assms
  by (auto simp: call_begin_def Let_def split: sum.splits option.splits prod.splits)

text \<open>
  C35: a call through and back. When a call is waiting, exactly one message was sent for
  it, of priority \<open>High\<close>, with an envelope that the registry of the receiving side routes
  to the handler of the request's type. If the bytes that \<open>process_rpc_message\<close> returns
  are put into an envelope with the call's correlation id and handed to the client, they
  reach the channel of this very call, the pending entry is gone, and the call returns
  what the handler answered to the request (with the timeout that the wire leaves).
\<close>

theorem rpc_call_round_trip:
  assumes wire: "rpc_wire_message B Q" "rpc_wire_message B R"
    and reg: "hm_get (handlers reg) (TYPE_NAME Q) = Some (HandlerWrapper B Q R h)"
    and call: "call_begin B X sh Q now from cid to req timeout (c, s) = (Inr (Some t), c1, s1)"
  shows "\<exists>qb eb. request_to_bytes B Q \<lparr>rq_from = from, rq_to = to, rq_payload = req, rq_correlation_id = cid,
        rq_timeout = timeout\<rparr> = Inr qb
    \<and> encode (bc_envelope B) \<lparr>env_type_name = TYPE_NAME Q, env_payload = qb, env_correlation_id = cid\<rparr> = Inr eb
    \<and> sched_send X to \<lparr>sender = Some from, payload = Custom eb, priority = High\<rparr> s = (Some (Ok ()), s1)
    \<and> (\<forall>rb n wb. process_rpc_message B reg eb = Inr rb
         \<longrightarrow> encode (bc_envelope B) \<lparr>env_type_name = n, env_payload = rb, env_correlation_id = cid\<rparr> = Inr wb
         \<longrightarrow> (\<exists>c2. handle_response B wb c1 = (Inr (), c2) \<and> channel_log c2 = channel_log c1 @ [(t, rb)]
               \<and> hm_get (pending c2) cid = None
               \<and> fst (call_finish B R cid (RxBytes rb) c2) =
                   rs_result (h \<lparr>rq_from = from, rq_to = to, rq_payload = req, rq_correlation_id = cid,
                                 rq_timeout = wire_timeout timeout\<rparr>)))"
proof -
  let ?rq = "\<lparr>rq_from = from, rq_to = to, rq_payload = req, rq_correlation_id = cid, rq_timeout = timeout\<rparr>"
  let ?rq' = "?rq\<lparr>rq_timeout := wire_timeout timeout\<rparr>"
  obtain qb eb where e: "request_to_bytes B Q ?rq = Inr qb"
    "encode (bc_envelope B) \<lparr>env_type_name = TYPE_NAME Q, env_payload = qb, env_correlation_id = cid\<rparr> = Inr eb"
    "sched_send X to \<lparr>sender = Some from, payload = Custom eb, priority = High\<rparr> s = (Some (Ok ()), s1)"
    "c1 = c\<lparr>pending := pending_insert now cid t timeout (pending c), next_tx := t + 1\<rparr>"
    using call_begin_sent [OF call] by blast
  have ev: "lawful_codec (bc_envelope B)" using wire(1) by (simp add: rpc_wire_message_def rpc_wire_def)
  note dec = lawful_codec.decode_encode [OF ev]
  have proc: "process_rpc_message B reg eb = response_to_bytes B R (h ?rq')"
    using dec [OF e(2)] rpc_wire_message.request_roundtrip [OF wire(1) e(1)] reg
    by (simp add: process_rpc_message_def rpc_dispatch_def HandlerWrapper_def)
  have "\<exists>c2. handle_response B wb c1 = (Inr (), c2) \<and> channel_log c2 = channel_log c1 @ [(t, rb)]
      \<and> hm_get (pending c2) cid = None \<and> fst (call_finish B R cid (RxBytes rb) c2) = rs_result (h ?rq')"
    if p: "process_rpc_message B reg eb = Inr rb"
      and w: "encode (bc_envelope B) \<lparr>env_type_name = n, env_payload = rb, env_correlation_id = cid\<rparr> = Inr wb"
    for rb n wb
  proof -
    have "response_from_bytes B R rb = Inr (h ?rq')"
      using rpc_wire_message.response_roundtrip [OF wire(2)] p proc by simp
    then show ?thesis
      using dec [OF w] e(4)
      by (simp add: handle_response_def pending_remove_def pending_insert_def call_finish_def hm_simps)
  qed
  with e(1,2,3) show ?thesis by (intro exI conjI) auto
qed

definition demo_handler :: "nat rpc_request \<Rightarrow> nat rpc_response" where
  "demo_handler r = response_ok (rq_correlation_id r) (2 * rq_payload r)"

definition demo_rpc_registry :: rpc_registry where
  "demo_rpc_registry = rpc_register demo_wire 1 demo_question demo_answer demo_handler RpcRegistry_new"

theorem rpc_call_round_trip_witness:
  "\<exists>c1 s1 c2. call_begin demo_wire standin_sch (\<lambda>_. []) demo_question 0 (ActorId 5) 77 (ActorId 1) 42 1500000
        (RpcClient_new, demo_sched None Running []) = (Inr (Some 0), c1, s1)
     \<and> process_rpc_message demo_wire demo_rpc_registry [0] = Inr [0]
     \<and> handle_response demo_wire [0] c1 = (Inr (), c2) \<and> channel_log c2 = [(0, [0])]
     \<and> fst (call_finish demo_wire demo_answer 77 (RxBytes [0]) c2) = Inr 84"
proof -
  let ?s = "demo_sched None Running []"
  let ?m = "\<lparr>sender = Some (ActorId 5), payload = Custom [0], priority = High\<rparr>"
  obtain e where e: "dm_get standin_sch (by_id (registry_of ?s)) (ActorId 1) = Some e"
    "from_u8 (entry_state e) \<notin> {Stopped, Failed}" "lanes_len (lanes_of snd (mailbox e)) < unat (capacity (default_config (registry_of ?s)))"
    using demo_sched_entry(2) [of "[]" None Running] demo_sched_entry(3) [of "[]" None Running] demo_cfg8(2)
    by (auto simp: lanes_len_def)
  obtain s1 where s1: "sched_send standin_sch (ActorId 1) ?m ?s = (Some (Ok ()), s1)"
    using standin_sch.send_room_effect [OF demo_sched_entry(1) e demo_sched_simps(1), of ?m] by auto
  define c1 where "c1 = RpcClient_new\<lparr>pending := pending_insert 0 77 0 1500000 [], next_tx := 1\<rparr>"
  have call: "call_begin demo_wire standin_sch (\<lambda>_. []) demo_question 0 (ActorId 5) 77 (ActorId 1) 42 1500000
        (RpcClient_new, ?s) = (Inr (Some 0), c1, s1)"
    using s1 by (simp add: call_begin_def request_to_bytes_def demo_rpc_defs as_millis_def RpcClient_new_def PendingCalls_new_def c1_def Let_def)
  have reg: "hm_get (handlers demo_rpc_registry) (TYPE_NAME demo_question) =
      Some (HandlerWrapper demo_wire demo_question demo_answer demo_handler)"
    by (simp add: demo_rpc_registry_def rpc_register_def hm_simps)
  have ev: "encode (bc_envelope demo_wire) \<lparr>env_type_name = ''Q'', env_payload = [0], env_correlation_id = 77\<rparr> = Inr [0]"
    by (simp add: demo_rpc_defs)
  have proc: "process_rpc_message demo_wire demo_rpc_registry [0] = Inr [0]"
    by (simp add: process_rpc_message_def rpc_dispatch_def demo_rpc_registry_def rpc_register_def hm_simps
        HandlerWrapper_def request_from_bytes_def response_to_bytes_def demo_handler_def response_ok_def demo_rpc_defs)
  have rq: "request_to_bytes demo_wire demo_question \<lparr>rq_from = ActorId 5, rq_to = ActorId 1, rq_payload = 42,
      rq_correlation_id = 77, rq_timeout = 1500000\<rparr> = Inr [0]"
    by (simp add: request_to_bytes_def demo_rpc_defs as_millis_def)
  obtain c2 where "handle_response demo_wire [0] c1 = (Inr (), c2)" "channel_log c2 = channel_log c1 @ [(0, [0])]"
    "fst (call_finish demo_wire demo_answer 77 (RxBytes [0]) c2) =
       rs_result (demo_handler \<lparr>rq_from = ActorId 5, rq_to = ActorId 1, rq_payload = 42, rq_correlation_id = 77,
                     rq_timeout = wire_timeout 1500000\<rparr>)"
    using rpc_call_round_trip [OF demo_question.rpc_wire_message_axioms demo_answer.rpc_wire_message_axioms reg call]
      rq ev proc by (auto simp: demo_question_def)
  then show ?thesis
    using call proc by (auto simp: c1_def RpcClient_new_def PendingCalls_new_def demo_handler_def response_ok_def)
qed

section \<open>Expiry\<close>

text \<open>What an expired call is sent.\<close>

definition timeout_notice :: "bincode \<Rightarrow> uuid \<times> pending_call \<Rightarrow> (nat \<times> bytes) list" where
  "timeout_notice B kc =
     (case encode (bc_response B) \<lparr>rr_correlation_id = fst kc, rr_result = Inl RawTimeout\<rparr> of
        Inl _ \<Rightarrow> []
      | Inr bs \<Rightarrow> [(tx (snd kc), bs)])"

definition expired_calls :: "instant \<Rightarrow> pending_calls \<Rightarrow> pending_calls" where
  "expired_calls now calls = filter (\<lambda>(_, c). deadline c \<le> now) calls"

lemma expire_fold:
  assumes "distinct (map fst es)" "\<forall>(k, c) \<in> set es. hm_get calls k = Some c"
  shows "fold (expire_one B) (map fst es) (calls, sent) =
    (fold (\<lambda>k m. hm_remove m k) (map fst es) calls, sent @ concat (map (timeout_notice B) es))"
  using assms
proof (induction es arbitrary: calls sent)
  case (Cons e es)
  obtain k c where e: "e = (k, c)" by force
  have "\<forall>(k', c') \<in> set es. hm_get (hm_remove calls k) k' = Some c'"
    using Cons.prems e by (force simp: hm_simps)
  note IH = Cons.IH [OF _ this]
  have "expire_one B k (calls, sent) = (hm_remove calls k, sent @ timeout_notice B e)"
    using Cons.prems(2) by (auto simp: e expire_one_def pending_remove_def timeout_notice_def split: sum.splits)
  then show ?case using IH Cons.prems(1) e by simp
qed simp

lemma hm_get_remove_all:
  "hm_get (fold (\<lambda>k m. hm_remove m k) ks m) k = (if k \<in> set ks then None else hm_get m k)"
  by (induction ks arbitrary: m) (auto simp: hm_simps)

lemma hm_wf_remove_all: "hm_wf m \<Longrightarrow> hm_wf (fold (\<lambda>k m. hm_remove m k) ks m)"
  by (induction ks arbitrary: m) (auto intro: hm_intros)

lemma timeout_notice_decodes:
  assumes "rpc_wire_message B M" "(t, bs) \<in> set (timeout_notice B kc)"
  shows "fst (call_finish B M cid (RxBytes bs) c) = Inl RpcTimeout"
proof -
  have "lawful_codec (bc_response B)" using assms(1) by (simp add: rpc_wire_message_def rpc_wire_def)
  from lawful_codec.decode_encode [OF this] assms(2) show ?thesis
    by (auto simp: timeout_notice_def call_finish_def response_from_bytes_def split: sum.splits)
qed

text \<open>One sweep, and any number of them.\<close>

definition still_pending :: "instant \<Rightarrow> pending_call option \<Rightarrow> pending_call option" where
  "still_pending now c = (case c of Some c \<Rightarrow> if deadline c \<le> now then None else Some c | None \<Rightarrow> None)"

lemma sweep:
  assumes wf: "hm_wf calls"
  shows "\<exists>calls'. cleanup_expired B now (calls, sent) = (calls', sent @ concat (map (timeout_notice B) (expired_calls now calls)))
    \<and> hm_wf calls' \<and> (\<forall>k. hm_get calls' k = still_pending now (hm_get calls k))"
proof -
  define es where "es = expired_calls now calls"
  note es_def = es_def [unfolded expired_calls_def]
  define calls' where "calls' = fold (\<lambda>k m. hm_remove m k) (map fst es) calls"
  have dist: "distinct (map fst es)" using wf by (simp add: es_def hm_wf_def distinct_map_filter)
  have mem: "\<forall>(k, c) \<in> set es. hm_get calls k = Some c"
    using hm_get_iff_mem [OF wf] by (auto simp: es_def)
  have "cleanup_expired B now (calls, sent) = (calls', sent @ concat (map (timeout_notice B) es))"
    using expire_fold [OF dist mem] by (simp add: cleanup_expired_def es_def calls'_def)
  moreover have "hm_wf calls'" using wf by (simp add: calls'_def hm_wf_remove_all)
  moreover have keys: "k \<in> set (map fst es) \<longleftrightarrow> (\<exists>c. hm_get calls k = Some c \<and> deadline c \<le> now)" for k
    using hm_get_iff_mem [OF wf] by (force simp: es_def)
  then have "hm_get calls' k = still_pending now (hm_get calls k)" for k
    using keys [of k] by (auto simp: calls'_def hm_get_remove_all still_pending_def split: option.splits)
  ultimately show ?thesis unfolding es_def expired_calls_def by blast
qed

lemma sweep_nothing:
  assumes "hm_wf calls" and "\<forall>k. still_pending now (hm_get calls k) = hm_get calls k"
  shows "cleanup_expired B now (calls, sent) = (calls, sent)"
proof -
  have "\<not> deadline c \<le> now" if "(k, c) \<in> set calls" for k c
    using that assms(2) [rule_format, of k] hm_get_iff_mem [OF assms(1), of k c]
    by (auto simp: still_pending_def split: if_splits)
  then have "filter (\<lambda>(_, c). deadline c \<le> now) calls = []" by (auto simp: filter_empty_conv)
  then show ?thesis by (simp add: cleanup_expired_def)
qed

text \<open>
  However many ticks the cleanup task has had, exactly the calls whose deadline is after
  every one of them are still pending; entries that a failed send left behind go too.
\<close>

lemma cleanup_task_left:
  "hm_wf calls \<Longrightarrow> hm_get (fst (cleanup_task B nows (calls, sent))) k =
     (case hm_get calls k of Some c \<Rightarrow> if \<exists>now \<in> set nows. deadline c \<le> now then None else Some c | None \<Rightarrow> None)"
proof (induction nows arbitrary: calls sent)
  case Nil
  then show ?case by (simp add: cleanup_task_def split: option.split)
next
  case (Cons now nows)
  obtain calls' sent' where s: "cleanup_expired B now (calls, sent) = (calls', sent')" "hm_wf calls'"
    "hm_get calls' k = still_pending now (hm_get calls k)"
    using sweep [OF Cons.prems] by metis
  show ?case
    using Cons.IH [OF s(2), of sent'] s(1,3) by (simp add: cleanup_task_def still_pending_def split: option.splits)
qed

text \<open>
  C36: the sweep of \<open>cleanup_expired\<close>. The calls whose deadline has passed are removed, and
  no other; each of them, in the order of the sweep, is sent at most one message, on its
  own channel, and a call that receives it ends with \<open>RpcTimeout\<close>. A second sweep at the
  same instant does nothing.
\<close>

theorem cleanup_expired_exact:
  assumes wf: "hm_wf calls" and B: "rpc_wire_message B M"
  shows "\<exists>calls'. cleanup_expired B now (calls, sent) = (calls', sent @ concat (map (timeout_notice B) (expired_calls now calls)))
    \<and> hm_wf calls'
    \<and> (\<forall>k. hm_get calls' k = (case hm_get calls k of
           Some c \<Rightarrow> if deadline c \<le> now then None else Some c | None \<Rightarrow> None))
    \<and> (\<forall>e \<in> set (expired_calls now calls). \<forall>(t, bs) \<in> set (timeout_notice B e).
           t = tx (snd e) \<and> (\<forall>c. fst (call_finish B M (fst e) (RxBytes bs) c) = Inl RpcTimeout))
    \<and> (\<forall>sent'. cleanup_expired B now (calls', sent') = (calls', sent'))"
proof -
  obtain calls' where s: "cleanup_expired B now (calls, sent) = (calls', sent @ concat (map (timeout_notice B) (expired_calls now calls)))"
    "hm_wf calls'" "\<forall>k. hm_get calls' k = still_pending now (hm_get calls k)"
    using sweep [OF wf] by blast
  have "\<forall>k. still_pending now (hm_get calls' k) = hm_get calls' k"
    using s(3) by (simp add: still_pending_def split: option.split)
  then have again: "cleanup_expired B now (calls', sent') = (calls', sent')" for sent' by (rule sweep_nothing [OF s(2)])
  have notice: "t = tx (snd e) \<and> (\<forall>c. fst (call_finish B M (fst e) (RxBytes bs) c) = Inl RpcTimeout)"
    if m: "(t, bs) \<in> set (timeout_notice B e)" for t bs e
    using timeout_notice_decodes [OF B m] m by (auto simp: timeout_notice_def split: sum.splits)
  show ?thesis
    using s again notice by (intro exI [of _ calls']) (auto simp: still_pending_def)
qed

definition demo_pending :: pending_calls where
  "demo_pending = pending_insert 0 78 1 5000 (pending_insert 0 77 0 1000 [])"

theorem cleanup_expired_exact_witness:
  "\<exists>calls'. cleanup_expired demo_wire 1000 (demo_pending, []) = (calls', [(0, [1])])
     \<and> hm_get calls' 77 = None \<and> hm_get calls' 78 = Some \<lparr>tx = 1, deadline = 5000\<rparr>"
proof -
  have d: "demo_pending = [(77, \<lparr>tx = 0, deadline = 1000\<rparr>), (78, \<lparr>tx = 1, deadline = 5000\<rparr>)]"
    by (simp add: demo_pending_def pending_insert_def hm_insert_def)
  have wf: "hm_wf demo_pending" by (simp add: d hm_wf_def)
  have n: "timeout_notice demo_wire (77, \<lparr>tx = 0, deadline = 1000\<rparr>) = [(0, [1])]"
    by (simp add: timeout_notice_def demo_rpc_defs)
  have "hm_get demo_pending 77 = Some \<lparr>tx = 0, deadline = 1000\<rparr>" "hm_get demo_pending 78 = Some \<lparr>tx = 1, deadline = 5000\<rparr>"
    "filter (\<lambda>(_, c). deadline c \<le> 1000) demo_pending = [(77, \<lparr>tx = 0, deadline = 1000\<rparr>)]"
    by (simp_all add: d hm_get_def)
  then show ?thesis
    using cleanup_expired_exact [OF wf demo_question.rpc_wire_message_axioms, of 1000 "[]"] n
    by (auto simp: expired_calls_def)
qed

end
