(* ===== verification/Sim_Base.thy ===== *)
theory Sim_Base
  imports Worker
begin

unbundle bit_operations_syntax

text \<open>
  The parts that the deterministic simulator of \<open>src/sim\<close> is built from: the virtual
  clock (\<open>clock.rs\<close>), the seeded stream of random draws and the fault schedule
  (\<open>faults.rs\<close>), the executor that observes and injects crashes (\<open>executor.rs\<close>), and the
  set of ready tasks with its three selection policies (\<open>scheduler.rs\<close>). The generator
  \<open>Xoshiro256PlusPlus\<close> is external: a seeding function and a step function, about which
  nothing is assumed. An operation that can panic returns an option, \<open>None\<close> for a panic.
\<close>

section \<open>The virtual clock\<close>

text \<open>A \<open>Duration\<close> is a count of nanoseconds; the clock counts microseconds in a \<open>u64\<close>.\<close>

definition micros_of :: "duration \<Rightarrow> u64" where
  "micros_of d = (if d div 1000 < 2 ^ 64 then of_nat (d div 1000) else - 1)"

definition from_micros :: "u64 \<Rightarrow> duration" where
  "from_micros m = unat m * 1000"

record sim_instant =
  inst_micros :: u64

definition EPOCH :: sim_instant where
  "EPOCH = \<lparr>inst_micros = 0\<rparr>"

definition as_micros :: "sim_instant \<Rightarrow> u64" where
  "as_micros t = inst_micros t"

definition sim_duration_since :: "sim_instant \<Rightarrow> sim_instant \<Rightarrow> duration" where
  "sim_duration_since t earlier = from_micros (saturating_sub (inst_micros t) (inst_micros earlier))"

definition sim_instant_add :: "sim_instant \<Rightarrow> duration \<Rightarrow> sim_instant" where
  "sim_instant_add t d = \<lparr>inst_micros = saturating_add (inst_micros t) (micros_of d)\<rparr>"

definition sim_instant_sub :: "sim_instant \<Rightarrow> sim_instant \<Rightarrow> duration" where
  "sim_instant_sub t u = sim_duration_since t u"

record sim_clock =
  clock_micros :: u64

definition clock_with_start :: "u64 \<Rightarrow> sim_clock" where
  "clock_with_start m = \<lparr>clock_micros = m\<rparr>"

definition SimClock_new :: sim_clock where
  "SimClock_new = clock_with_start 0"

definition clock_now :: "sim_clock \<Rightarrow> sim_instant" where
  "clock_now c = \<lparr>inst_micros = clock_micros c\<rparr>"

text \<open>\<open>fetch_add\<close> wraps; the instant that is returned saturates.\<close>

definition clock_advance :: "duration \<Rightarrow> sim_clock \<Rightarrow> sim_instant \<times> sim_clock" where
  "clock_advance d c =
     (let micros = micros_of d; prev = clock_micros c
      in (\<lparr>inst_micros = saturating_add prev micros\<rparr>, c\<lparr>clock_micros := prev + micros\<rparr>))"

definition clock_elapsed :: "sim_clock \<Rightarrow> duration" where
  "clock_elapsed c = from_micros (clock_micros c)"

section \<open>Faults and random draws\<close>

record fault_config =
  send_reject_prob :: float
  delay_prob :: float
  delay_ticks_min :: u64
  delay_ticks_max :: u64
  duplicate_prob :: float
  crash_prob :: float

abbreviation float_zero :: float where
  "float_zero \<equiv> Fin 0 0"

definition FaultConfig_default :: fault_config where
  "FaultConfig_default =
     \<lparr>send_reject_prob = float_zero, delay_prob = float_zero, delay_ticks_min = 1, delay_ticks_max = 8,
      duplicate_prob = float_zero, crash_prob = float_zero\<rparr>"

text \<open>A decimal literal is the nearest \<open>f64\<close>, which the correctly rounded quotient is.\<close>

definition f64_ratio :: "nat \<Rightarrow> nat \<Rightarrow> float" where
  "f64_ratio a b = float_div f64 (float_of_nat f64 a) (float_of_nat f64 b)"

definition chaos :: "float \<Rightarrow> fault_config" where
  "chaos p =
     \<lparr>send_reject_prob = f64_ratio 1 100, delay_prob = f64_ratio 5 100, delay_ticks_min = 1, delay_ticks_max = 8,
      duplicate_prob = f64_ratio 2 100, crash_prob = p\<rparr>"

definition float_is_zero :: "float \<Rightarrow> bool" where
  "float_is_zero x = (case x of Fin m _ \<Rightarrow> m = 0 | _ \<Rightarrow> False)"

definition float_le_zero :: "float \<Rightarrow> bool" where
  "float_le_zero x = (case x of NaN \<Rightarrow> False | Infinite neg \<Rightarrow> neg | Fin m _ \<Rightarrow> m \<le> 0)"

definition is_fault_free :: "fault_config \<Rightarrow> bool" where
  "is_fault_free f =
     (float_is_zero (send_reject_prob f) \<and> float_is_zero (delay_prob f)
      \<and> float_is_zero (duplicate_prob f) \<and> float_is_zero (crash_prob f))"

text \<open>\<open>f64::max\<close> with zero, which replaces \<open>NaN\<close>, and subtraction.\<close>

definition float_max_zero :: "float \<Rightarrow> float" where
  "float_max_zero x =
     (case x of NaN \<Rightarrow> float_zero | Infinite neg \<Rightarrow> if neg then float_zero else x
      | Fin m _ \<Rightarrow> if m \<le> 0 then float_zero else x)"

fun float_sub :: "float_format \<Rightarrow> float \<Rightarrow> float \<Rightarrow> float" where
  "float_sub F (Fin m e) (Fin n f) =
     (let k = min e f in float_round F (m * 2 ^ nat (e - k) - n * 2 ^ nat (f - k)) k)"
| "float_sub F (Infinite s) (Infinite t) = (if s = t then NaN else Infinite s)"
| "float_sub F (Infinite s) (Fin _ _) = Infinite s"
| "float_sub F (Fin _ _) (Infinite t) = Infinite (\<not> t)"
| "float_sub F _ _ = NaN"

text \<open>\<open>Xoshiro256PlusPlus\<close>.\<close>

record 'r xoshiro =
  seed_from_u64 :: "u64 \<Rightarrow> 'r"
  rng_next_u64 :: "'r \<Rightarrow> u64 \<times> 'r"

definition SimRng_new :: "'r xoshiro \<Rightarrow> u64 \<Rightarrow> 'r" where
  "SimRng_new R seed = seed_from_u64 R seed"

definition next_u64 :: "'r xoshiro \<Rightarrow> 'r \<Rightarrow> u64 \<times> 'r" where
  "next_u64 R r = rng_next_u64 R r"

definition next_f64 :: "'r xoshiro \<Rightarrow> 'r \<Rightarrow> float \<times> 'r" where
  "next_f64 R r =
     (case next_u64 R r of
        (x, r) \<Rightarrow> (float_mul f64 (float_of_nat f64 (unat (drop_bit 11 x)))
                     (float_div f64 (float_of_nat f64 1) (float_of_nat f64 (unat (push_bit 53 1 :: u64)))), r))"

text \<open>The multiplication is done in 128 bits; a bound of zero fails the debug assertion.\<close>

definition below :: "'r xoshiro \<Rightarrow> u64 \<Rightarrow> 'r \<Rightarrow> (u64 \<times> 'r) option" where
  "below R n r =
     (if n = 0 then None
      else case next_u64 R r of
             (x, r) \<Rightarrow> Some (ucast (drop_bit 64 ((ucast x :: u128) * ucast n)), r))"

definition range_incl :: "'r xoshiro \<Rightarrow> u64 \<Rightarrow> u64 \<Rightarrow> 'r \<Rightarrow> (u64 \<times> 'r) option" where
  "range_incl R lo hi r =
     (if hi \<le> lo then Some (lo, r)
      else case below R (hi - lo + 1) r of
             None \<Rightarrow> None
           | Some (v, r) \<Rightarrow> Some (lo + v, r))"

definition roll :: "'r xoshiro \<Rightarrow> float \<Rightarrow> 'r \<Rightarrow> bool \<times> 'r" where
  "roll R p r =
     (if float_le_zero p then (False, r)
      else case next_f64 R r of (x, r) \<Rightarrow> (float_less x p, r))"

section \<open>The executor\<close>

definition to_le_bytes :: "u64 \<Rightarrow> u8 list" where
  "to_le_bytes x = map (\<lambda>i. ucast (drop_bit (8 * i) x)) [0..<8]"

definition from_le_bytes :: "u8 list \<Rightarrow> u64" where
  "from_le_bytes bs = foldr (\<lambda>b acc. ucast b OR push_bit 8 acc) bs 0"

datatype exec_tag = TagCustom u64 | TagSystem

record exec_record =
  rec_actor :: actor_id
  rec_tag :: exec_tag

record sim_executor =
  crash_next :: bool
  records :: "exec_record list"

definition SimExecutor_new :: sim_executor where
  "SimExecutor_new = \<lparr>crash_next = False, records = []\<rparr>"

definition SIM_CRASH_MESSAGE :: rust_string where
  "SIM_CRASH_MESSAGE = [Str ''actor-kit-sim: injected actor crash'']"

definition arm_crash :: "bool \<Rightarrow> sim_executor \<Rightarrow> sim_executor" where
  "arm_crash b x = x\<lparr>crash_next := b\<rparr>"

definition drain_records :: "sim_executor \<Rightarrow> exec_record list \<times> sim_executor" where
  "drain_records x = (records x, x\<lparr>records := []\<rparr>)"

definition record_count :: "sim_executor \<Rightarrow> nat" where
  "record_count x = length (records x)"

definition exec_tag_of :: "message \<Rightarrow> exec_tag" where
  "exec_tag_of msg =
     (case payload msg of
        Custom bs \<Rightarrow> if length bs = 8 then TagCustom (from_le_bytes bs) else TagSystem
      | _ \<Rightarrow> TagSystem)"

definition SimExecutor_execute ::
  "sim_executor \<Rightarrow> actor_id \<Rightarrow> message \<Rightarrow> exec_outcome \<times> sim_executor" where
  "SimExecutor_execute x i msg =
     (if crash_next x then (Panicked, x\<lparr>crash_next := False\<rparr>)
      else (Returned (Success 0 None),
            x\<lparr>records := records x @ [\<lparr>rec_actor = i, rec_tag = exec_tag_of msg\<rparr>]\<rparr>))"

definition SimExecutor :: "sim_executor executor" where
  "SimExecutor =
     \<lparr>execute = SimExecutor_execute,
      is_ready = (\<lambda>_ _. True),
      get_fuel = (\<lambda>_ _. Some (- 1)),
      reset = (\<lambda>x _. (Ok (), x))\<rparr>"

section \<open>Ready tasks\<close>

fun actor_key :: "actor_id \<Rightarrow> u128" where
  "actor_key (ActorId k) = k"

datatype scheduling_policy = Fifo | Random | RoundRobin

record sim_task =
  st_ord :: u64
  st_task :: task
  st_mids :: "u64 list"

definition app_len :: "sim_task \<Rightarrow> nat" where
  "app_len t = length (st_mids t)"

text \<open>The two \<open>BTreeMap\<close>s are only looked up by key and summed.\<close>

record ready_set =
  rdy_priority :: "sim_task list"
  rdy_ready :: "sim_task list"
  last_served :: "(u128, u64) hashmap"
  queued_msgs :: "(u128, u64) hashmap"

definition ReadySet_new :: ready_set where
  "ReadySet_new = \<lparr>rdy_priority = [], rdy_ready = [], last_served = [], queued_msgs = []\<rparr>"

definition ready_push :: "sim_task \<Rightarrow> ready_set \<Rightarrow> ready_set" where
  "ready_push t rs =
     (let k = actor_key (task_actor (st_task t));
          old = (case hm_get (queued_msgs rs) k of None \<Rightarrow> 0 | Some q \<Rightarrow> q);
          rs = rs\<lparr>queued_msgs := hm_insert (queued_msgs rs) k (old + of_nat (app_len t))\<rparr>
      in if High \<le> task_priority (st_task t)
         then rs\<lparr>rdy_priority := rdy_priority rs @ [t]\<rparr>
         else rs\<lparr>rdy_ready := rdy_ready rs @ [t]\<rparr>)"

definition remove_at :: "nat \<Rightarrow> 'a list \<Rightarrow> 'a list" where
  "remove_at i xs = take i xs @ drop (Suc i) xs"

definition served_at :: "ready_set \<Rightarrow> sim_task \<Rightarrow> u64" where
  "served_at rs t =
     (case hm_get (last_served rs) (actor_key (task_actor (st_task t))) of None \<Rightarrow> 0 | Some v \<Rightarrow> v)"

text \<open>The scan for the oldest task of the least recently served actor.\<close>

fun round_robin_scan ::
  "ready_set \<Rightarrow> nat \<Rightarrow> sim_task list \<Rightarrow> (u64 \<times> nat) option \<Rightarrow> (u64 \<times> nat) option" where
  "round_robin_scan rs i [] best = best"
| "round_robin_scan rs i (t # ts) best =
     (let served = served_at rs t
      in round_robin_scan rs (Suc i) ts
           (case best of
              None \<Rightarrow> Some (served, i)
            | Some (bs, _) \<Rightarrow> if served < bs then Some (served, i) else best))"

text \<open>
  The index in the ordinary pool that a policy selects: \<open>None\<close> for a panic, \<open>Some None\<close>
  for an empty pool.
\<close>

definition select_index ::
  "'r xoshiro \<Rightarrow> scheduling_policy \<Rightarrow> ready_set \<Rightarrow> 'r \<Rightarrow> (nat option \<times> 'r) option" where
  "select_index R pol rs r =
     (case pol of
        Fifo \<Rightarrow> Some (if rdy_ready rs = [] then None else Some 0, r)
      | Random \<Rightarrow>
          if rdy_ready rs = [] then Some (None, r)
          else (case below R (of_nat (length (rdy_ready rs))) r of
                  None \<Rightarrow> None
                | Some (i, r) \<Rightarrow> Some (if unat i < length (rdy_ready rs) then Some (unat i) else None, r))
      | RoundRobin \<Rightarrow> Some (map_option snd (round_robin_scan rs 0 (rdy_ready rs) None), r))"

definition served_and_counted :: "sim_task \<Rightarrow> u64 \<Rightarrow> ready_set \<Rightarrow> ready_set" where
  "served_and_counted t tick rs =
     (let k = actor_key (task_actor (st_task t))
      in rs\<lparr>last_served := hm_insert (last_served rs) k tick,
            queued_msgs := hm_modify (queued_msgs rs) k (\<lambda>q. saturating_sub q (of_nat (app_len t)))\<rparr>)"

definition pick ::
  "'r xoshiro \<Rightarrow> scheduling_policy \<Rightarrow> u64 \<Rightarrow> ready_set \<times> 'r
   \<Rightarrow> (sim_task option \<times> ready_set \<times> 'r) option" where
  "pick R pol tick cfg =
     (case cfg of (rs, r) \<Rightarrow>
        case rdy_priority rs of
          t # ts \<Rightarrow> Some (Some t, served_and_counted t tick (rs\<lparr>rdy_priority := ts\<rparr>), r)
        | [] \<Rightarrow>
            (case select_index R pol rs r of
               None \<Rightarrow> None
             | Some (None, r) \<Rightarrow> Some (None, rs, r)
             | Some (Some i, r) \<Rightarrow>
                 let t = rdy_ready rs ! i
                 in Some (Some t, served_and_counted t tick (rs\<lparr>rdy_ready := remove_at i (rdy_ready rs)\<rparr>), r)))"

definition total_queued_msgs :: "ready_set \<Rightarrow> u64" where
  "total_queued_msgs rs = sum_list (hm_values (queued_msgs rs))"

definition ready_is_empty :: "ready_set \<Rightarrow> bool" where
  "ready_is_empty rs = (rdy_priority rs = [] \<and> rdy_ready rs = [])"

section \<open>Draws\<close>

lemma below_value:
  assumes "n \<noteq> 0" and "next_u64 R r = (x, r')"
  shows "\<exists>v. below R n r = Some (v, r') \<and> unat v = unat x * unat n div 2 ^ 64 \<and> v < n"
proof -
  let ?p = "(ucast x :: u128) * ucast n"
  have le: "unat x * unat n < 2 ^ 64 * 2 ^ 64"
    by (rule mult_strict_mono) (use unat_u64_bound [of x] unat_u64_bound [of n] in simp_all)
  have w: "unat (ucast y :: u128) = unat y" for y :: u64
    using unat_u64_bound [of y] by (simp add: unsigned_ucast_eq take_bit_nat_eq_self)
  have p: "unat ?p = unat x * unat n"
    using le by (simp add: unat_word_ariths w)
  have q: "unat (drop_bit 64 ?p) = unat x * unat n div 2 ^ 64"
    unfolding unat_drop_bit_eq p by (simp add: drop_bit_eq_div)
  have "unat x * unat n div 2 ^ 64 < unat n"
  proof (rule less_mult_imp_div_less)
    have "0 < unat n" using assms(1) by (simp add: unat_gt_0)
    then show "unat x * unat n < unat n * 2 ^ 64" using unat_u64_bound [of x] by simp
  qed
  then have "unat x * unat n div 2 ^ 64 < 2 ^ 64" using unat_u64_bound [of n] by simp
  then have "unat (ucast (drop_bit 64 ?p) :: u64) = unat x * unat n div 2 ^ 64"
    unfolding unsigned_ucast_eq q by (simp add: take_bit_nat_eq_self)
  then show ?thesis
    using assms \<open>unat x * unat n div 2 ^ 64 < unat n\<close> by (simp add: below_def word_less_nat_alt)
qed

lemma below_less: "n \<noteq> 0 \<Longrightarrow> \<exists>v r'. below R n r = Some (v, r') \<and> v < n"
  using below_value [of n R r] by (cases "next_u64 R r") auto

lemma range_bounds:
  assumes "lo \<le> hi" and "\<not> (lo = 0 \<and> hi = - 1)"
  shows "\<exists>v r'. range_incl R lo hi r = Some (v, r') \<and> lo \<le> v \<and> v \<le> hi"
proof (cases "hi \<le> lo")
  case True
  then show ?thesis using assms by (simp add: range_incl_def)
next
  case False
  then have lt: "unat lo < unat hi" by (simp add: word_le_nat_alt)
  have d: "unat (hi - lo) = unat hi - unat lo" using assms(1) by (simp add: unat_sub)
  have hi: "unat hi < 2 ^ 64" using unat_u64_bound [of hi] by simp
  have nz: "hi - lo + 1 \<noteq> 0"
  proof
    assume "hi - lo + 1 = 0"
    then have "hi - lo = - 1" by (simp add: eq_neg_iff_add_eq_0)
    then have "unat hi - unat lo = 2 ^ 64 - 1" using d unat_max_word [where 'a = 64] by simp
    then have "unat lo = 0" "unat hi = unat (- 1 :: u64)" using hi unat_max_word [where 'a = 64] by simp_all
    then have "lo = 0" "hi = - 1" unfolding word_unat_eq_iff by simp_all
    then show False using assms(2) by blast
  qed
  have s: "unat (hi - lo + 1) = unat hi - unat lo + 1"
    using nz d by (metis Suc_eq_plus1 add.commute unatSuc)
  obtain v r' where v: "below R (hi - lo + 1) r = Some (v, r')" "v < hi - lo + 1"
    using below_less [OF nz, of R r] by blast
  then have "unat v \<le> unat hi - unat lo" using s by (simp add: word_less_nat_alt)
  then have "unat (lo + v) = unat lo + unat v" using hi lt by (intro unat_add_no_wrap) simp
  then show ?thesis
    using False v(1) \<open>unat v \<le> unat hi - unat lo\<close> lt by (simp add: range_incl_def word_le_nat_alt)
qed

text \<open>The factor \<open>1.0 / 2 ^ 53\<close> is exact, and so is the product with a 53 bit integer.\<close>

lemma bit_len_pow2: "bit_len (2 ^ k) = Suc k"
proof -
  have "bit_len (2 ^ k) \<le> Suc k" by (rule bit_len_le) simp
  moreover have "2 ^ (k) < (2 :: nat) ^ bit_len (2 ^ k)" using bit_len_bounds [of "2 ^ k"] by simp
  then have "k < bit_len (2 ^ k)" by (rule power_less_imp_less_exp [rotated]) simp
  ultimately show ?thesis by simp
qed

lemma bit_len_eq: "2 ^ (k - 1) \<le> n \<Longrightarrow> n < 2 ^ k \<Longrightarrow> 0 < k \<Longrightarrow> bit_len n = k"
proof -
  assume n: "2 ^ (k - 1) \<le> n" "n < 2 ^ k" "0 < k"
  then have "0 < n" by (meson less_le_trans zero_less_numeral zero_less_power)
  then have "2 ^ (k - 1) < (2 :: nat) ^ bit_len n" using n(1) bit_len_bounds by (meson le_less_trans)
  then have "k - 1 < bit_len n" by (rule power_less_imp_less_exp [rotated]) simp
  then show ?thesis using bit_len_le [OF n(2)] n(3) by simp
qed

lemma round_shift_exact: "round_shift (n * 2 ^ k) k = n"
  by (simp add: round_shift_def)

lemma unit_in_last_place:
  "float_div f64 (float_of_nat f64 1) (float_of_nat f64 (unat (push_bit 53 1 :: u64))) = Fin (2 ^ 52) (- 105)"
proof -
  have p: "unat (push_bit 53 1 :: u64) = 2 ^ 53" by simp
  have b: "bit_len 9007199254740992 = 54" "bit_len 1 = 1" "bit_len 4503599627370496 = 53"
    "bit_len 144115188075855872 = 58"
    by (rule bit_len_eq; simp)+
  have r: "round_shift 9007199254740992 (Suc 0) = 4503599627370496" "round_shift 144115188075855872 5 = 4503599627370496"
    using round_shift_exact [of 4503599627370496 1] round_shift_exact [of 4503599627370496 5] by simp_all
  have one: "float_of_nat f64 1 = Fin 1 0"
    using float_of_nat_exact [of 1 f64] by (simp add: f64_def)
  have big: "float_of_nat f64 (unat (push_bit 53 1 :: u64)) = Fin 4503599627370496 1"
    unfolding p by (simp add: float_of_nat_def float_round_def b f64_def r)
  show ?thesis
    unfolding one big by (simp add: float_round_def b f64_def r Let_def)
qed

lemma next_f64_unit_interval:
  "\<exists>m j r'. next_f64 R r = (Fin m (- int j), r') \<and> 0 \<le> m \<and> m < 2 ^ j"
proof -
  obtain x r' where x: "next_u64 R r = (x, r')" by (rule prod.exhaust)
  define n where "n = unat (drop_bit 11 x)"
  have "n = unat x div 2 ^ 11" unfolding n_def unat_drop_bit_eq by (simp add: drop_bit_eq_div)
  then have n: "n < 2 ^ 53" using unat_u64_bound [of x] by (simp add: less_mult_imp_div_less)
  have f: "float_of_nat f64 n = Fin (int n) 0"
    by (rule float_of_nat_exact) (use n in \<open>simp_all add: f64_def\<close>)
  let ?s = "int (bit_len (nat \<bar>int n * 2 ^ 52\<bar>)) - 53"
  have "n * 2 ^ 52 < 2 ^ 105" using n by simp
  then have le: "?s \<le> 52" using bit_len_le [of "n * 2 ^ 52" 105] by (simp add: nat_mult_distrib)
  have nx: "next_f64 R r = (float_round f64 (int n * 2 ^ 52) (- 105), r')"
    unfolding next_f64_def x prod.case unit_in_last_place n_def [symmetric] f by simp
  show ?thesis
  proof (cases "?s \<le> 0")
    case True
    then have "float_round f64 (int n * 2 ^ 52) (- 105) = Fin (int n * 2 ^ 52) (- int 105)"
      by (simp add: float_round_def f64_def Let_def)
    then show ?thesis
      using nx n by (intro exI [of _ "int n * 2 ^ 52"] exI [of _ 105] exI [of _ r']) simp
  next
    case False
    define k where "k = nat ?s"
    have k: "?s = int k" "k \<le> 52" "0 < k" using False le by (simp_all add: k_def)
    have r: "round_shift (int n * 2 ^ 52) k = int n * 2 ^ (52 - k)"
      using round_shift_exact [of "int n * 2 ^ (52 - k)" k] k(2)
      by (simp add: mult.assoc flip: power_add)
    have small: "int n * 2 ^ (52 - k) < 2 ^ (105 - k)"
    proof -
      have "int n * 2 ^ (52 - k) < 2 ^ 53 * 2 ^ (52 - k)" using n by simp
      also have "\<dots> = 2 ^ (53 + (52 - k))" by (simp only: power_add)
      also have "53 + (52 - k) = 105 - k" using k(2) by simp
      finally show ?thesis .
    qed
    then have "nat (int n * 2 ^ (52 - k)) < 2 ^ (105 - k)" by (simp add: nat_less_iff)
    then have "bit_len (nat (int n * 2 ^ (52 - k))) \<le> 105 - k" by (rule bit_len_le)
    then have "\<not> 1129 < int (bit_len (nat (int n * 2 ^ (52 - k)))) + int k" using k(2) by linarith
    then have "float_round f64 (int n * 2 ^ 52) (- 105) = Fin (int n * 2 ^ (52 - k)) (- int (105 - k))"
      using k r by (simp add: float_round_def f64_def Let_def max_def of_nat_diff)
    then show ?thesis using nx small
      by (intro exI [of _ "int n * 2 ^ (52 - k)"] exI [of _ "105 - k"] exI [of _ r']) simp
  qed
qed

section \<open>Message identities as bytes\<close>

lemma byte_split: "ucast (ucast y :: u8) OR push_bit 8 (drop_bit 8 y) = (y :: u64)"
proof (rule bit_word_eqI)
  fix n
  assume "n < LENGTH(64)"
  then show "bit (ucast (ucast y :: u8) OR push_bit 8 (drop_bit 8 y)) n = bit y n"
    by (cases "n < 8") (auto simp: bit_simps)
qed

lemma from_le_suffix:
  "j \<le> 8 \<Longrightarrow> foldr (\<lambda>b acc. ucast b OR push_bit 8 acc) (map (\<lambda>i. ucast (drop_bit (8 * i) x) :: u8) [j..<8]) 0
     = (drop_bit (8 * j) x :: u64)"
proof (induction j rule: inc_induct)
  case base
  have "drop_bit 64 x = 0" by (rule bit_word_eqI) (simp add: bit_simps)
  then show ?case by simp
next
  case (step j)
  then show ?case
    using byte_split [of "drop_bit (8 * j) x"] by (simp add: upt_conv_Cons drop_bit_drop_bit add.commute)
qed

lemma length_to_le_bytes [simp]: "length (to_le_bytes x) = 8"
  by (simp add: to_le_bytes_def)

lemma from_to_le_bytes [simp]: "from_le_bytes (to_le_bytes x) = x"
  using from_le_suffix [of 0 x] by (simp add: from_le_bytes_def to_le_bytes_def)

lemma to_le_bytes_append_eq [simp]: "to_le_bytes x @ bs = to_le_bytes y @ cs \<longleftrightarrow> x = y \<and> bs = cs"
  by (metis append_eq_append_conv from_to_le_bytes length_to_le_bytes)

section \<open>Selection\<close>

lemma mset_remove_at: "i < length xs \<Longrightarrow> mset xs = add_mset (xs ! i) (mset (remove_at i xs))"
  using id_take_nth_drop [of i xs] by (metis mset_append mset.simps(2) remove_at_def union_mset_add_mset_right)

text \<open>The scan returns the first index with the least service time.\<close>

lemma round_robin_scan_best:
  assumes "case best of None \<Rightarrow> i = 0
     | Some (v, k) \<Rightarrow> k < i \<and> v = served_at rs (xs ! k)
         \<and> (\<forall>j < k. v < served_at rs (xs ! j)) \<and> (\<forall>j < i. v \<le> served_at rs (xs ! j))"
    and "i \<le> length xs"
  shows "case round_robin_scan rs i (drop i xs) best of None \<Rightarrow> xs = []
     | Some (v, k) \<Rightarrow> k < length xs \<and> v = served_at rs (xs ! k)
         \<and> (\<forall>j < k. v < served_at rs (xs ! j)) \<and> (\<forall>j < length xs. v \<le> served_at rs (xs ! j))"
  using assms
proof (induction "length xs - i" arbitrary: i best)
  case 0
  then show ?case by (auto split: option.splits)
next
  case (Suc n)
  then have i: "i < length xs" by simp
  let ?v = "served_at rs (xs ! i)"
  let ?best = "case best of None \<Rightarrow> Some (?v, i) | Some (bs, _) \<Rightarrow> if ?v < bs then Some (?v, i) else best"
  have "case ?best of None \<Rightarrow> Suc i = 0
     | Some (v, k) \<Rightarrow> k < Suc i \<and> v = served_at rs (xs ! k)
         \<and> (\<forall>j < k. v < served_at rs (xs ! j)) \<and> (\<forall>j < Suc i. v \<le> served_at rs (xs ! j))"
    using Suc.prems(1) by (auto simp: less_Suc_eq not_less split: option.splits)
  from Suc.hyps(1) [OF _ this] Suc.hyps(2) i show ?case
    by (simp add: Cons_nth_drop_Suc [symmetric] Let_def)
qed

lemma select_index_cases:
  assumes "length (rdy_ready rs) < 2 ^ 64"
  shows "\<exists>res r'. select_index R pol rs r = Some (res, r') \<and>
    (case res of None \<Rightarrow> rdy_ready rs = []
     | Some i \<Rightarrow> i < length (rdy_ready rs) \<and> (pol = Fifo \<longrightarrow> i = 0)
         \<and> (pol = RoundRobin \<longrightarrow> (\<forall>j < i. served_at rs (rdy_ready rs ! i) < served_at rs (rdy_ready rs ! j))
              \<and> (\<forall>u \<in> set (rdy_ready rs). served_at rs (rdy_ready rs ! i) \<le> served_at rs u)))"
proof (cases pol)
  case Fifo
  then show ?thesis by (simp add: select_index_def)
next
  case Random
  show ?thesis
  proof (cases "rdy_ready rs = []")
    case False
    have len: "unat (of_nat (length (rdy_ready rs)) :: u64) = length (rdy_ready rs)"
      by (rule unat_of_nat_small) (use assms in simp)
    then have "(of_nat (length (rdy_ready rs)) :: u64) \<noteq> 0" using False by (metis length_0_conv unat_0)
    from below_less [OF this, of R r] obtain v r' where
      "below R (of_nat (length (rdy_ready rs))) r = Some (v, r')" "unat v < length (rdy_ready rs)"
      using len by (auto simp: word_less_nat_alt)
    then show ?thesis using Random False by (simp add: select_index_def)
  qed (simp add: select_index_def Random)
next
  case RoundRobin
  have "case round_robin_scan rs 0 (rdy_ready rs) None of None \<Rightarrow> rdy_ready rs = []
     | Some (v, k) \<Rightarrow> k < length (rdy_ready rs) \<and> v = served_at rs (rdy_ready rs ! k)
         \<and> (\<forall>j < k. v < served_at rs (rdy_ready rs ! j))
         \<and> (\<forall>j < length (rdy_ready rs). v \<le> served_at rs (rdy_ready rs ! j))"
    using round_robin_scan_best [where best = None and i = 0 and rs = rs and xs = "rdy_ready rs"] by simp
  then show ?thesis
    using RoundRobin by (auto simp: select_index_def in_set_conv_nth split: option.splits)
qed

definition ready_tasks :: "ready_set \<Rightarrow> sim_task multiset" where
  "ready_tasks rs = mset (rdy_priority rs @ rdy_ready rs)"

lemma ready_tasks_push [simp]: "ready_tasks (ready_push t rs) = add_mset t (ready_tasks rs)"
  by (simp add: ready_tasks_def ready_push_def Let_def)

lemma ready_tasks_served [simp]: "ready_tasks (served_and_counted t k rs) = ready_tasks rs"
  by (simp add: ready_tasks_def served_and_counted_def Let_def)

lemma ready_tasks_new [simp]: "ready_tasks ReadySet_new = {#}"
  by (simp add: ready_tasks_def ReadySet_new_def)

lemma pick_cases:
  assumes "size (ready_tasks rs) < 2 ^ 64"
  shows "\<exists>res rs' r'. pick R pol k (rs, r) = Some (res, rs', r') \<and>
    (case res of None \<Rightarrow> ready_tasks rs = {#} \<and> rs' = rs
     | Some t \<Rightarrow> ready_tasks rs = add_mset t (ready_tasks rs'))"
proof (cases "rdy_priority rs")
  case (Cons t ts)
  then have "ready_tasks rs = add_mset t (ready_tasks (rs\<lparr>rdy_priority := ts\<rparr>))" by (simp add: ready_tasks_def)
  then show ?thesis using Cons by (simp add: pick_def)
next
  case Nil
  have "length (rdy_ready rs) < 2 ^ 64" using assms Nil by (simp add: ready_tasks_def)
  from select_index_cases [OF this, of R pol r] obtain res r' where
    "select_index R pol rs r = Some (res, r')"
    "case res of None \<Rightarrow> rdy_ready rs = [] | Some i \<Rightarrow> i < length (rdy_ready rs)"
    by (auto split: option.splits)
  moreover have "ready_tasks rs = add_mset (rdy_ready rs ! i) (ready_tasks (rs\<lparr>rdy_ready := remove_at i (rdy_ready rs)\<rparr>))"
    if "i < length (rdy_ready rs)" for i
    using that Nil by (simp add: ready_tasks_def mset_remove_at)
  ultimately show ?thesis
    using Nil by (cases res) (auto simp: pick_def Let_def ready_tasks_def [of rs])
qed

section \<open>Properties\<close>

text \<open>
  The draws stay in their ranges, for every generator and every state of it: \<open>below\<close>
  is less than its bound, \<open>range\<close> lies between its two bounds (except over all of \<open>u64\<close>,
  where the width of the range wraps to zero), and \<open>next_f64\<close> is a number of \<open>[0, 1)\<close>.
\<close>

lemma sim_rng_in_range:
  "(n \<noteq> 0 \<longrightarrow> (\<exists>v r'. below R n r = Some (v, r') \<and> v < n))
   \<and> (lo \<le> hi \<longrightarrow> \<not> (lo = 0 \<and> hi = - 1) \<longrightarrow> (\<exists>v r'. range_incl R lo hi r = Some (v, r') \<and> lo \<le> v \<and> v \<le> hi))
   \<and> range_incl R 0 (- 1) r = None
   \<and> (\<exists>m j r'. next_f64 R r = (Fin m (- int j), r') \<and> 0 \<le> m \<and> m < 2 ^ j)"
  using below_less [of n R r] range_bounds [of lo hi R r] next_f64_unit_interval [of R r]
  by (simp add: range_incl_def below_def)

definition counter_rng :: "u64 xoshiro" where
  "counter_rng = \<lparr>seed_from_u64 = (\<lambda>s. s), rng_next_u64 = (\<lambda>r. (push_bit 60 r, r + 1))\<rparr>"

lemma sim_rng_in_range_example:
  "\<exists>v. below counter_rng 10 8 = Some (v, 9) \<and> v < 10"
  using sim_rng_in_range [of 10 counter_rng 8 0 0] by (auto simp: below_def next_u64_def counter_rng_def)

text \<open>
  C38: selection. A pick never panics and returns nothing only from an empty set.
  Otherwise it removes exactly the task it returns; a task of the priority set goes
  first, in order of arrival; of the ordinary pool \<open>Fifo\<close> takes the oldest, \<open>RoundRobin\<close>
  the oldest of an actor that no other queued actor was served before.
\<close>

theorem ready_pick_by_policy:
  assumes "length (rdy_ready rs) < 2 ^ 64"
  shows "\<exists>res rs' r'. pick R pol k (rs, r) = Some (res, rs', r') \<and>
    (case res of
       None \<Rightarrow> ready_is_empty rs \<and> rs' = rs
     | Some t \<Rightarrow>
         (case rdy_priority rs of
            u # us \<Rightarrow> t = u \<and> rdy_priority rs' = us \<and> rdy_ready rs' = rdy_ready rs
          | [] \<Rightarrow> rdy_priority rs' = [] \<and>
              (\<exists>i < length (rdy_ready rs). t = rdy_ready rs ! i \<and> rdy_ready rs' = remove_at i (rdy_ready rs)
                 \<and> (pol = Fifo \<longrightarrow> i = 0)
                 \<and> (pol = RoundRobin \<longrightarrow> (\<forall>j < i. served_at rs t < served_at rs (rdy_ready rs ! j))
                      \<and> (\<forall>u \<in> set (rdy_ready rs). served_at rs t \<le> served_at rs u)))))"
proof (cases "rdy_priority rs")
  case (Cons t ts)
  then show ?thesis by (simp add: pick_def served_and_counted_def Let_def)
next
  case Nil
  from select_index_cases [OF assms, of R pol r] obtain res r' where s: "select_index R pol rs r = Some (res, r')"
    "case res of None \<Rightarrow> rdy_ready rs = []
     | Some i \<Rightarrow> i < length (rdy_ready rs) \<and> (pol = Fifo \<longrightarrow> i = 0)
         \<and> (pol = RoundRobin \<longrightarrow> (\<forall>j < i. served_at rs (rdy_ready rs ! i) < served_at rs (rdy_ready rs ! j))
              \<and> (\<forall>u \<in> set (rdy_ready rs). served_at rs (rdy_ready rs ! i) \<le> served_at rs u))"
    by blast
  then show ?thesis
    using Nil by (cases res) (auto simp: pick_def served_and_counted_def ready_is_empty_def Let_def)
qed

definition demo_sim_task :: "u128 \<Rightarrow> priority \<Rightarrow> sim_task" where
  "demo_sim_task i p =
     \<lparr>st_ord = 0, st_task = \<lparr>task_actor = ActorId i, task_message = Message_default, task_priority = p,
       additional_messages = []\<rparr>, st_mids = [1]\<rparr>"

definition demo_ready :: ready_set where
  "demo_ready = fold ready_push [demo_sim_task 1 Normal, demo_sim_task 2 Normal]
     (ReadySet_new\<lparr>last_served := [(1, 7), (2, 5)]\<rparr>)"

theorem ready_pick_by_policy_witness:
  "\<exists>rs' r'. pick counter_rng RoundRobin 9 (demo_ready, 0) = Some (Some (demo_sim_task 2 Normal), rs', r')"
proof -
  have r: "rdy_priority demo_ready = []" "rdy_ready demo_ready = [demo_sim_task 1 Normal, demo_sim_task 2 Normal]"
    "served_at demo_ready (demo_sim_task 1 Normal) = 7" "served_at demo_ready (demo_sim_task 2 Normal) = 5"
    by (simp_all add: demo_ready_def ready_push_def demo_sim_task_def ReadySet_new_def Let_def High_le_iff
        served_at_def hm_get_def)
  then have len: "length (rdy_ready demo_ready) < 2 ^ 64" by simp
  show ?thesis
    using ready_pick_by_policy [OF len, of counter_rng RoundRobin 9 0] r
    by (auto simp: ready_is_empty_def less_Suc_eq split: option.splits)
qed

end
