(* ===== verification/Sim.thy ===== *)
theory Sim
  imports Sim_Base Supervisor_Tree
begin

text \<open>
  The deterministic simulator of \<open>src/sim/mod.rs\<close>: a world of supervised actors that is
  driven by one stream of random draws, with the registry, the mailboxes, the message
  processing and the supervisor tree of the runtime itself. Every operation that can
  panic, by an index, an \<open>expect\<close> or a failed audit, returns an option and \<open>None\<close> stands
  for the panic. Counters wrap as in a release build; debug assertions are checked.
\<close>

section \<open>Configuration, trace and state\<close>

definition DEFAULT_STEP_BUDGET :: u64 where
  "DEFAULT_STEP_BUDGET = 4000000"

definition TICK :: duration where
  "TICK = 1000000"

definition DUPLICATE_GAP_TICKS :: u64 where
  "DUPLICATE_GAP_TICKS = 2"

definition SIM_ID_BASE :: u128 where
  "SIM_ID_BASE = 0xA77C70B151600000"

definition sim_actor_id :: "u64 \<Rightarrow> u64 \<Rightarrow> actor_id" where
  "sim_actor_id ordinal incarnation =
     ActorId (or (or SIM_ID_BASE (push_bit 64 (ucast ordinal))) (ucast incarnation))"

text \<open>\<open>format!\<close> prints unsigned integers in decimal.\<close>

fun dec :: "nat \<Rightarrow> string" where
  "dec n = (if n < 10 then [char_of (48 + n)] else dec (n div 10) @ [char_of (48 + n mod 10)])"

declare dec.simps [simp del]

definition actor_name :: "u64 \<Rightarrow> u64 \<Rightarrow> string" where
  "actor_name ord inc = ''sim-'' @ dec (unat ord) @ ''-v'' @ dec (unat inc)"

definition supervisor_name :: "u64 \<Rightarrow> string" where
  "supervisor_name ord = ''sim-'' @ dec (unat ord)"

record sim_config =
  cfg_actors :: u64
  cfg_messages :: u64
  cfg_mailbox :: mailbox_config
  cfg_policy :: scheduling_policy
  cfg_faults :: fault_config
  cfg_max_restarts :: u32
  injection_rate :: float
  processing_per_tick :: u64
  blocked_retries_per_tick :: u64

definition SimConfig_default :: sim_config where
  "SimConfig_default =
     \<lparr>cfg_actors = 4, cfg_messages = 256,
      cfg_mailbox = \<lparr>capacity = 64, priority_queue = True, backpressure_threshold = Fin 13421773 (- 24)\<rparr>,
      cfg_policy = Random, cfg_faults = FaultConfig_default, cfg_max_restarts = 3,
      injection_rate = Fin 4 0, processing_per_tick = 4, blocked_retries_per_tick = 64\<rparr>"

datatype reject_reason = Fault | DeadTarget

datatype trace_op =
    OpSpawn u64
  | OpSend u64 u64
  | OpBatchSend u64 u64 u64
  | OpReject u64 u64 reject_reason
  | OpDeliver u64 u64 u64
  | OpBlocked u64 u64 u64
  | OpProcess u64 u64
  | OpProcessSystem u64
  | OpCrash u64 u64
  | OpDiscard u64 u64 u64
  | OpRestart u64 bool
  | OpKill u64 u64

definition encode_fields :: "u8 \<Rightarrow> u64 list \<Rightarrow> u8 list" where
  "encode_fields tag fs = tag # concat (map to_le_bytes fs)"

primrec reject_code :: "reject_reason \<Rightarrow> u64" where
  "reject_code Fault = 0"
| "reject_code DeadTarget = 1"

primrec trace_encode :: "trace_op \<Rightarrow> u8 list" where
  "trace_encode (OpSpawn ord) = encode_fields 0 [ord]"
| "trace_encode (OpSend mid dst) = encode_fields 1 [mid, dst]"
| "trace_encode (OpBatchSend first len dst) = encode_fields 2 [first, len, dst]"
| "trace_encode (OpReject mid dst reason) = encode_fields 3 [mid, dst, reject_code reason]"
| "trace_encode (OpDeliver first len dst) = encode_fields 4 [first, len, dst]"
| "trace_encode (OpBlocked first len dst) = encode_fields 5 [first, len, dst]"
| "trace_encode (OpProcess mid dst) = encode_fields 6 [mid, dst]"
| "trace_encode (OpProcessSystem dst) = encode_fields 7 [dst]"
| "trace_encode (OpCrash dst dropped) = encode_fields 8 [dst, dropped]"
| "trace_encode (OpDiscard first len dst) = encode_fields 9 [first, len, dst]"
| "trace_encode (OpRestart dst allowed) = encode_fields 10 [dst, of_bool allowed]"
| "trace_encode (OpKill dst dropped) = encode_fields 11 [dst, dropped]"

definition fnv1a :: "u8 list \<Rightarrow> u64" where
  "fnv1a bs = fold (\<lambda>b h. xor h (ucast b) * 0x100000001b3) bs 0xcbf29ce484222325"

record sim_stats =
  ss_injected :: u64
  ss_rejected :: u64
  ss_delivered :: u64
  ss_processed :: u64
  ss_crashed :: u64
  ss_restarted :: u64
  ss_escalated :: u64
  ss_dropped :: u64
  ss_blocked :: u64
  ss_unblocked :: u64
  ss_delayed :: u64
  ss_duplicates :: u64
  ss_system_processed :: u64

definition SimStats_default :: sim_stats where
  "SimStats_default =
     \<lparr>ss_injected = 0, ss_rejected = 0, ss_delivered = 0, ss_processed = 0, ss_crashed = 0,
      ss_restarted = 0, ss_escalated = 0, ss_dropped = 0, ss_blocked = 0, ss_unblocked = 0,
      ss_delayed = 0, ss_duplicates = 0, ss_system_processed = 0\<rparr>"

record sim_outcome =
  out_seed :: u64
  quiesced :: bool
  out_steps :: u64
  out_trace_hash :: u64
  trace_ops :: nat
  out_stats :: sim_stats

record actor_ledger =
  led_delivered :: u64
  led_consumed :: u64
  led_dropped :: u64
  led_queued :: u64
  led_incarnation :: u64
  led_alive :: bool

definition ActorLedger_default :: actor_ledger where
  "ActorLedger_default =
     \<lparr>led_delivered = 0, led_consumed = 0, led_dropped = 0, led_queued = 0, led_incarnation = 0,
      led_alive = False\<rparr>"

record deliver_payload =
  dp_ord :: u64
  dp_msgs :: "message list"
  dp_mids :: "u64 list"
  was_blocked :: bool

record deliver_later =
  dl_at :: u64
  dl_seq :: u64
  dl_payload :: deliver_payload

text \<open>
  \<open>BinaryHeap\<close> with the reversed order of \<open>DeliverLater\<close>: the entries sorted by
  \<open>(at, seq)\<close>, the first one being the one that \<open>peek\<close> and \<open>pop\<close> see.
\<close>

definition later_less :: "deliver_later \<Rightarrow> deliver_later \<Rightarrow> bool" where
  "later_less a b = (dl_at a < dl_at b \<or> dl_at a = dl_at b \<and> dl_seq a < dl_seq b)"

fun heap_push :: "deliver_later \<Rightarrow> deliver_later list \<Rightarrow> deliver_later list" where
  "heap_push a [] = [a]"
| "heap_push a (b # bs) = (if later_less a b then a # b # bs else b # heap_push a bs)"

text \<open>
  What the world outside supplies: readings of the wall clock for the registry, of the
  monotonic clock for the supervisor, and minted identities for its children. \<open>readings\<close>
  counts how many were used up.
\<close>

record sim_env =
  unix_clock :: "nat \<Rightarrow> int"
  exit_envs :: "nat \<Rightarrow> exit_env"
  fresh_ids :: "nat \<Rightarrow> actor_id"

record ('d, 'r) sim =
  sim_seed :: u64
  sim_cfg :: sim_config
  rng :: 'r
  clock :: sim_clock
  sim_registry :: "'d registry"
  sim_exec :: sim_executor
  tree :: supervisor_tree
  sim_root :: actor_id
  actors :: "actor_id list"
  ordinals :: "(u128, u64) hashmap"
  ledger :: "actor_ledger list"
  ready :: ready_set
  delayed :: "deliver_later list"
  blocked :: "deliver_payload list"
  next_seq :: u64
  next_mid :: u64
  mid_times :: "u32 list"
  mid_lost :: "bool list"
  tick :: u64
  trace :: "trace_op list"
  stats :: sim_stats
  readings :: nat

section \<open>Small steps\<close>

definition index :: "'a list \<Rightarrow> u64 \<Rightarrow> 'a option" where
  "index xs i = (if unat i < length xs then Some (xs ! unat i) else None)"

definition push_trace :: "trace_op \<Rightarrow> ('d, 'r) sim \<Rightarrow> ('d, 'r) sim" where
  "push_trace x s = s\<lparr>trace := trace s @ [x]\<rparr>"

definition mark_lost :: "u64 \<Rightarrow> ('d, 'r) sim \<Rightarrow> ('d, 'r) sim" where
  "mark_lost mid s = s\<lparr>mid_lost := (mid_lost s)[unat mid := True]\<rparr>"

definition sim_roll :: "'r xoshiro \<Rightarrow> float \<Rightarrow> ('d, 'r) sim \<Rightarrow> bool \<times> ('d, 'r) sim" where
  "sim_roll R p s = (case roll R p (rng s) of (b, r) \<Rightarrow> (b, s\<lparr>rng := r\<rparr>))"

definition sim_below :: "'r xoshiro \<Rightarrow> u64 \<Rightarrow> ('d, 'r) sim \<Rightarrow> (u64 \<times> ('d, 'r) sim) option" where
  "sim_below R n s = map_option (\<lambda>(v, r). (v, s\<lparr>rng := r\<rparr>)) (below R n (rng s))"

definition sim_range :: "'r xoshiro \<Rightarrow> u64 \<Rightarrow> u64 \<Rightarrow> ('d, 'r) sim \<Rightarrow> (u64 \<times> ('d, 'r) sim) option" where
  "sim_range R lo hi s = map_option (\<lambda>(v, r). (v, s\<lparr>rng := r\<rparr>)) (range_incl R lo hi (rng s))"

definition reject_one :: "reject_reason \<Rightarrow> u64 \<Rightarrow> u64 \<Rightarrow> ('d, 'r) sim \<Rightarrow> ('d, 'r) sim" where
  "reject_one reason ord mid s =
     (let s = mark_lost mid s;
          s = s\<lparr>stats := (stats s)\<lparr>ss_rejected := ss_rejected (stats s) + 1\<rparr>\<rparr>
      in push_trace (OpReject mid ord reason) s)"

section \<open>Delivery\<close>

fun try_send_all ::
  "('q, 's, 'n, 'z) mb_ext_scheme \<Rightarrow> message list \<Rightarrow> ('q, 's, 'n) mailbox \<Rightarrow> ('q, 's, 'n) mailbox option" where
  "try_send_all X [] mb = Some mb"
| "try_send_all X (m # ms) mb =
     (case Mailbox_try_send X m mb of
        (Inl _, _) \<Rightarrow> None
      | (Inr _, mb) \<Rightarrow> try_send_all X ms mb)"

definition park ::
  "u64 \<Rightarrow> message list \<Rightarrow> u64 list \<Rightarrow> bool \<Rightarrow> ('d, 'r) sim \<Rightarrow> ('d, 'r) sim" where
  "park ord msgs mids was s =
     (let s = s\<lparr>stats := (stats s)\<lparr>ss_blocked := ss_blocked (stats s) + 1\<rparr>\<rparr>;
          s = (case mids of
                 [] \<Rightarrow> s
               | first # _ \<Rightarrow>
                   if was then s else push_trace (OpBlocked first (of_nat (length mids)) ord) s)
      in s\<lparr>blocked := blocked s @ [\<lparr>dp_ord = ord, dp_msgs = msgs, dp_mids = mids, was_blocked = True\<rparr>]\<rparr>)"

definition book_delivery ::
  "u64 \<Rightarrow> actor_id \<Rightarrow> message list \<Rightarrow> u64 list \<Rightarrow> bool \<Rightarrow> ('d, 'r) sim \<Rightarrow> ('d, 'r) sim option" where
  "book_delivery ord i msgs mids was s =
     (case msgs of
        [] \<Rightarrow> None
      | m # ms \<Rightarrow>
          do {
            led \<leftarrow> index (ledger s) ord;
            let led = led\<lparr>led_delivered := led_delivered led + of_nat (length msgs),
                          led_queued := led_queued led + of_nat (length mids)\<rparr>;
            let s = s\<lparr>ledger := (ledger s)[unat ord := led],
                      stats := (stats s)\<lparr>ss_delivered := ss_delivered (stats s) + of_nat (length msgs),
                                         ss_unblocked := ss_unblocked (stats s) + of_bool was\<rparr>\<rparr>;
            let s = (case mids of
                       [] \<Rightarrow> s
                     | first # _ \<Rightarrow> push_trace (OpDeliver first (of_nat (length mids)) ord) s);
            let task = \<lparr>task_actor = i, task_message = m, task_priority = max_priority msgs,
                        additional_messages = ms\<rparr>;
            Some (s\<lparr>ready := ready_push \<lparr>st_ord = ord, st_task = task, st_mids = mids\<rparr> (ready s)\<rparr>)
          })"

definition attempt_delivery ::
  "('q, 's, 'n, 'd, 'z) rg_ext_scheme \<Rightarrow> u64 \<Rightarrow> message list \<Rightarrow> u64 list \<Rightarrow> bool
   \<Rightarrow> ('d, 'r) sim \<Rightarrow> ('d, 'r) sim option" where
  "attempt_delivery X ord msgs mids was s =
     do {
       i \<leftarrow> index (actors s) ord;
       if get_state X (sim_registry s) i \<in> {None, Some Stopped, Some Failed}
       then Some (fold (reject_one DeadTarget ord) mids s)
       else do {
         mb \<leftarrow> get_mailbox X (sim_registry s) i;
         if remaining_capacity mb < of_nat (length msgs)
         then Some (park ord msgs mids was s)
         else do {
           mb \<leftarrow> try_send_all X msgs mb;
           book_delivery ord i msgs mids was (s\<lparr>sim_registry := put_mailbox X i mb (sim_registry s)\<rparr>)
         }
       }
     }"

definition deliver_or_block ::
  "('q, 's, 'n, 'd, 'z) rg_ext_scheme \<Rightarrow> u64 \<Rightarrow> message list \<Rightarrow> u64 list \<Rightarrow> u64
   \<Rightarrow> ('d, 'r) sim \<Rightarrow> ('d, 'r) sim option" where
  "deliver_or_block X ord msgs mids delay s =
     (if 0 < delay
      then let s = s\<lparr>next_seq := next_seq s + 1\<rparr>
           in Some (s\<lparr>delayed := heap_push \<lparr>dl_at = tick s + delay, dl_seq = next_seq s,
                        dl_payload = \<lparr>dp_ord = ord, dp_msgs = msgs, dp_mids = mids, was_blocked = False\<rparr>\<rparr>
                      (delayed s)\<rparr>)
      else attempt_delivery X ord msgs mids False s)"

definition start_message :: message where
  "start_message = \<lparr>sender = None, payload = Start, priority = Normal\<rparr>"

text \<open>Registering the actor under a fresh identity, and its \<open>Start\<close>.\<close>

definition spawn_actor ::
  "('q, 's, 'n, 'd, 'z) rg_ext_scheme \<Rightarrow> sim_env \<Rightarrow> u64 \<Rightarrow> ('d, 'r) sim \<Rightarrow> ('d, 'r) sim option" where
  "spawn_actor X E ord s =
     (let i = sim_actor_id ord 0
      in case register_named X (unix_clock E (readings s)) i (Some (actor_name ord 0)) (sim_registry s) of
           (Inl _, _) \<Rightarrow> None
         | (Inr _, r) \<Rightarrow>
             (case start_child_under (fresh_ids E (readings s)) (sim_root s)
                     (ChildSpec_restart_policy Permanent (ChildSpec_new (supervisor_name ord))) (tree s) of
                (Inl _, _) \<Rightarrow> None
              | (Inr _, t) \<Rightarrow>
                  let s = s\<lparr>sim_registry := r, tree := t, readings := readings s + 1,
                            actors := actors s @ [i], ordinals := hm_insert (ordinals s) (actor_key i) ord,
                            ledger := ledger s @ [ActorLedger_default\<lparr>led_alive := True\<rparr>]\<rparr>;
                      s = push_trace (OpSpawn ord) s
                  in deliver_or_block X ord [start_message] [] 0 s))"

section \<open>The workload\<close>

definition sim_message :: "priority \<Rightarrow> u64 \<Rightarrow> message" where
  "sim_message p mid = \<lparr>sender = None, payload = Custom (to_le_bytes mid), priority = p\<rparr>"

definition mid_budget :: "('d, 'r) sim \<Rightarrow> u64" where
  "mid_budget s = of_nat (length (mid_times s))"

text \<open>The size of the next send, drawn once the target is.\<close>

definition draw_len :: "'r xoshiro \<Rightarrow> u64 \<Rightarrow> ('d, 'r) sim \<Rightarrow> (u64 \<times> ('d, 'r) sim) option" where
  "draw_len R remaining s =
     (if 1 < remaining
      then case sim_roll R (f64_ratio 1 8) s of
             (True, s) \<Rightarrow> sim_range R 2 (min remaining 3) s
           | (False, s) \<Rightarrow> Some (1, s)
      else Some (1, s))"

definition mids_from :: "u64 \<Rightarrow> u64 \<Rightarrow> u64 list" where
  "mids_from first len = map (\<lambda>k. first + of_nat k) [0..<unat len]"

definition announce_send :: "u64 \<Rightarrow> u64 \<Rightarrow> ('d, 'r) sim \<Rightarrow> ('d, 'r) sim" where
  "announce_send len dst s =
     (let first = next_mid s;
          s = s\<lparr>next_mid := first + len,
                stats := (stats s)\<lparr>ss_injected := ss_injected (stats s) + len\<rparr>\<rparr>
      in push_trace (if 1 < len then OpBatchSend first len dst else OpSend first dst) s)"

definition draw_delay :: "'r xoshiro \<Rightarrow> ('d, 'r) sim \<Rightarrow> (u64 \<times> ('d, 'r) sim) option" where
  "draw_delay R s =
     (let f = cfg_faults (sim_cfg s)
      in case sim_roll R (delay_prob f) s of
           (True, s) \<Rightarrow> sim_range R (delay_ticks_min f) (delay_ticks_max f) s
         | (False, s) \<Rightarrow> Some (0, s))"

definition inject_one ::
  "('q, 's, 'n, 'd, 'z) rg_ext_scheme \<Rightarrow> 'r xoshiro \<Rightarrow> ('d, 'r) sim \<Rightarrow> ('d, 'r) sim option" where
  "inject_one X R s =
     do {
       (dst, s) \<leftarrow> sim_below R (cfg_actors (sim_cfg s)) s;
       (len, s) \<leftarrow> draw_len R (mid_budget s - next_mid s) s;
       let (high, s) = sim_roll R (f64_ratio 1 10) s;
       let prio = (if high then High else Normal);
       let mids = mids_from (next_mid s) len;
       let s = announce_send len dst s;
       let (rejected, s) = sim_roll R (send_reject_prob (cfg_faults (sim_cfg s))) s;
       if rejected then Some (fold (reject_one Fault dst) mids s)
       else do {
         (delay, s) \<leftarrow> draw_delay R s;
         let (duplicate, s) = sim_roll R (duplicate_prob (cfg_faults (sim_cfg s))) s;
         let msgs = map (sim_message prio) mids;
         s \<leftarrow> deliver_or_block X dst msgs mids delay s;
         if duplicate
         then deliver_or_block X dst msgs mids (delay + DUPLICATE_GAP_TICKS)
                (s\<lparr>stats := (stats s)\<lparr>ss_duplicates := ss_duplicates (stats s) + 1\<rparr>\<rparr>)
         else Some s
       }
     }"

fun inject_loop ::
  "('q, 's, 'n, 'd, 'z) rg_ext_scheme \<Rightarrow> 'r xoshiro \<Rightarrow> nat \<Rightarrow> ('d, 'r) sim \<Rightarrow> ('d, 'r) sim option" where
  "inject_loop X R 0 s = Some s"
| "inject_loop X R (Suc n) s =
     (if mid_budget s \<le> next_mid s then Some s
      else case inject_one X R s of None \<Rightarrow> None | Some s \<Rightarrow> inject_loop X R n s)"

definition inject_workload ::
  "('q, 's, 'n, 'd, 'z) rg_ext_scheme \<Rightarrow> 'r xoshiro \<Rightarrow> ('d, 'r) sim \<Rightarrow> ('d, 'r) sim option" where
  "inject_workload X R s =
     (if mid_budget s \<le> next_mid s then Some s
      else
        let rate = float_max_zero (injection_rate (sim_cfg s));
            base = float_as_usize rate;
            frac = float_sub f64 rate (float_of_nat f64 (unat base));
            (extra, s) = (if float_less float_zero frac then sim_roll R frac s else (False, s));
            attempts = max (base + of_bool extra) 1
        in inject_loop X R (unat attempts) s)"

section \<open>Due and parked deliveries\<close>

fun deliver_due_loop ::
  "('q, 's, 'n, 'd, 'z) rg_ext_scheme \<Rightarrow> nat \<Rightarrow> ('d, 'r) sim \<Rightarrow> ('d, 'r) sim option" where
  "deliver_due_loop X 0 s = Some s"
| "deliver_due_loop X (Suc n) s =
     (case delayed s of
        [] \<Rightarrow> Some s
      | l # ls \<Rightarrow>
          if tick s < dl_at l then Some s
          else
            let p = dl_payload l;
                s = s\<lparr>delayed := ls, stats := (stats s)\<lparr>ss_delayed := ss_delayed (stats s) + 1\<rparr>\<rparr>
            in case attempt_delivery X (dp_ord p) (dp_msgs p) (dp_mids p) (was_blocked p) s of
                 None \<Rightarrow> None
               | Some s \<Rightarrow> deliver_due_loop X n s)"

text \<open>A delivery never adds to the heap, so its size bounds the loop.\<close>

definition deliver_due ::
  "('q, 's, 'n, 'd, 'z) rg_ext_scheme \<Rightarrow> ('d, 'r) sim \<Rightarrow> ('d, 'r) sim option" where
  "deliver_due X s = deliver_due_loop X (length (delayed s)) s"

fun retry_loop ::
  "('q, 's, 'n, 'd, 'z) rg_ext_scheme \<Rightarrow> nat \<Rightarrow> ('d, 'r) sim \<Rightarrow> ('d, 'r) sim option" where
  "retry_loop X 0 s = Some s"
| "retry_loop X (Suc n) s =
     (case blocked s of
        [] \<Rightarrow> None
      | p # ps \<Rightarrow>
          (case attempt_delivery X (dp_ord p) (dp_msgs p) (dp_mids p) (was_blocked p) (s\<lparr>blocked := ps\<rparr>) of
             None \<Rightarrow> None
           | Some s \<Rightarrow> retry_loop X n s))"

definition retry_blocked ::
  "('q, 's, 'n, 'd, 'z) rg_ext_scheme \<Rightarrow> ('d, 'r) sim \<Rightarrow> ('d, 'r) sim option" where
  "retry_blocked X s =
     retry_loop X (unat (min (blocked_retries_per_tick (sim_cfg s)) (of_nat (length (blocked s))))) s"

section \<open>Crashes and restarts\<close>

fun lose_unprocessed :: "u64 list \<Rightarrow> ('d, 'r) sim \<Rightarrow> ('d, 'r) sim option" where
  "lose_unprocessed [] s = Some s"
| "lose_unprocessed (mid # mids) s =
     (case index (mid_times s) mid of
        None \<Rightarrow> None
      | Some n \<Rightarrow> lose_unprocessed mids (if n = 0 then mark_lost mid s else s))"

definition settle_crash ::
  "('q, 's, 'n, 'd, 'z) rg_ext_scheme \<Rightarrow> u64 \<Rightarrow> u64 list \<Rightarrow> ('d, 'r) sim \<Rightarrow> ('d, 'r) sim option" where
  "settle_crash X ord task_mids s =
     do {
       i \<leftarrow> index (actors s) ord;
       let mailbox_len = (case get_mailbox X (sim_registry s) i of None \<Rightarrow> 0 | Some mb \<Rightarrow> Mailbox_len mb);
       led \<leftarrow> index (ledger s) ord;
       let residual = saturating_sub (saturating_sub (led_delivered led) (led_consumed led)) (led_dropped led);
       let destroyed = saturating_sub residual mailbox_len;
       let s = s\<lparr>ledger := (ledger s)[unat ord := led\<lparr>led_dropped := led_dropped led + destroyed\<rparr>],
                 stats := (stats s)\<lparr>ss_dropped := ss_dropped (stats s) + destroyed\<rparr>\<rparr>;
       s \<leftarrow> lose_unprocessed task_mids s;
       Some (push_trace (OpCrash ord destroyed) s)
     }"

definition respawn ::
  "('q, 's, 'n, 'd, 'z) rg_ext_scheme \<Rightarrow> sim_env \<Rightarrow> u64 \<Rightarrow> ('d, 'r) sim \<Rightarrow> ('d, 'r) sim option" where
  "respawn X E ord s =
     do {
       led \<leftarrow> index (ledger s) ord;
       let inc = led_incarnation led + 1;
       let s = s\<lparr>ledger := (ledger s)[unat ord := led\<lparr>led_incarnation := inc\<rparr>]\<rparr>;
       old \<leftarrow> index (actors s) ord;
       let s = s\<lparr>sim_registry := snd (unregister X old (sim_registry s)),
                 ordinals := hm_remove (ordinals s) (actor_key old),
                 tree := snd (on_supervisor (sim_root s) (mark_child_running (supervisor_name ord)) (tree s))\<rparr>;
       let i = sim_actor_id ord inc;
       (case register_named X (unix_clock E (readings s)) i (Some (actor_name ord inc)) (sim_registry s) of
          (Inl _, _) \<Rightarrow> None
        | (Inr _, r) \<Rightarrow>
            let s = s\<lparr>sim_registry := r, readings := readings s + 1, actors := (actors s)[unat ord := i],
                      ordinals := hm_insert (ordinals s) (actor_key i) ord\<rparr>;
                s = push_trace (OpSpawn ord) s
            in deliver_or_block X ord [start_message] [] 0 s)
     }"

definition sim_kill ::
  "('q, 's, 'n, 'd, 'z) rg_ext_scheme \<Rightarrow> u64 \<Rightarrow> ('d, 'r) sim \<Rightarrow> ('d, 'r) sim option" where
  "sim_kill X ord s =
     do {
       i \<leftarrow> index (actors s) ord;
       let dropped = (case get_mailbox X (sim_registry s) i of None \<Rightarrow> 0 | Some mb \<Rightarrow> Mailbox_len mb);
       r \<leftarrow> clear_mailbox X i (sim_registry s);
       led \<leftarrow> index (ledger s) ord;
       let s = s\<lparr>ledger := (ledger s)[unat ord := led\<lparr>led_dropped := led_dropped led + dropped, led_alive := False\<rparr>],
                 stats := (stats s)\<lparr>ss_dropped := ss_dropped (stats s) + dropped,
                                    ss_escalated := ss_escalated (stats s) + 1\<rparr>,
                 sim_registry := snd (unregister X i r),
                 ordinals := hm_remove (ordinals s) (actor_key i)\<rparr>;
       Some (push_trace (OpKill ord dropped) s)
     }"

definition sim_handle_restart ::
  "('q, 's, 'n, 'd, 'z) rg_ext_scheme \<Rightarrow> sim_env \<Rightarrow> u64 \<Rightarrow> ('d, 'r) sim \<Rightarrow> ('d, 'r) sim option" where
  "sim_handle_restart X E ord s =
     (case tree_handle_child_exit (exit_envs E (readings s)) (sim_root s) (supervisor_name ord)
             (ExitError SIM_CRASH_MESSAGE) (tree s) of
        (Inr _, t) \<Rightarrow>
          let s = s\<lparr>tree := t, readings := readings s + 1,
                    stats := (stats s)\<lparr>ss_restarted := ss_restarted (stats s) + 1\<rparr>\<rparr>
          in respawn X E ord (push_trace (OpRestart ord True) s)
      | (Inl _, t) \<Rightarrow>
          sim_kill X ord (push_trace (OpRestart ord False) (s\<lparr>tree := t, readings := readings s + 1\<rparr>)))"

section \<open>Processing a chosen task\<close>

definition discard_task :: "sim_task \<Rightarrow> ('d, 'r) sim \<Rightarrow> ('d, 'r) sim" where
  "discard_task t s =
     (let s = fold mark_lost (st_mids t) s;
          s = (case st_mids t of
                 [] \<Rightarrow> s
               | first # _ \<Rightarrow> push_trace (OpDiscard first (of_nat (app_len t)) (st_ord t)) s)
      in s\<lparr>sim_exec := arm_crash False (sim_exec s)\<rparr>)"

definition observe_one :: "exec_record \<Rightarrow> ('d, 'r) sim \<Rightarrow> ('d, 'r) sim option" where
  "observe_one x s =
     do {
       ord \<leftarrow> hm_get (ordinals s) (actor_key (rec_actor x));
       led \<leftarrow> index (ledger s) ord;
       let s = s\<lparr>ledger := (ledger s)[unat ord := led\<lparr>led_consumed := led_consumed led + 1\<rparr>]\<rparr>;
       (case rec_tag x of
          TagCustom mid \<Rightarrow>
            do {
              n \<leftarrow> index (mid_times s) mid;
              let s = s\<lparr>mid_times := (mid_times s)[unat mid := saturating_add n 1],
                        stats := (stats s)\<lparr>ss_processed := ss_processed (stats s) + 1\<rparr>\<rparr>;
              Some (push_trace (OpProcess mid ord) s)
            }
        | TagSystem \<Rightarrow>
            Some (push_trace (OpProcessSystem ord)
                    (s\<lparr>stats := (stats s)\<lparr>ss_system_processed := ss_system_processed (stats s) + 1\<rparr>\<rparr>)))
     }"

fun observe :: "exec_record list \<Rightarrow> ('d, 'r) sim \<Rightarrow> ('d, 'r) sim option" where
  "observe [] s = Some s"
| "observe (x # xs) s = (case observe_one x s of None \<Rightarrow> None | Some s \<Rightarrow> observe xs s)"

text \<open>
  The chosen task runs through the production pipeline. The messages of the simulator
  never suspend an actor, so one unit of fuel is enough for each of them.
\<close>

definition run_pipeline ::
  "('q, 's, 'n, 'd, 'z) rg_ext_scheme \<Rightarrow> sim_env \<Rightarrow> bool \<Rightarrow> sim_task \<Rightarrow> ('d, 'r) sim
   \<Rightarrow> (exec_record list \<times> ('d, 'r) sim) option" where
  "run_pipeline X E crash t s =
     do {
       (n, r, x) \<leftarrow> sim_process_task X (Some SimExecutor) (unix_clock E (readings s)) 1 (st_task t)
                       (sim_registry s) (arm_crash crash (sim_exec s));
       let (recs, x) = drain_records x;
       let s = s\<lparr>sim_registry := r, readings := readings s + 1, sim_exec := arm_crash False x\<rparr>;
       if crash \<or> unat n = length recs then Some (recs, s) else None
     }"

definition process_chosen ::
  "('q, 's, 'n, 'd, 'z) rg_ext_scheme \<Rightarrow> 'r xoshiro \<Rightarrow> sim_env \<Rightarrow> sim_task
   \<Rightarrow> ('d, 'r) sim \<Rightarrow> ('d, 'r) sim option" where
  "process_chosen X R E t s =
     do {
       let ord = st_ord t;
       led \<leftarrow> index (ledger s) ord;
       let s = s\<lparr>ledger := (ledger s)[unat ord := led\<lparr>led_queued := led_queued led - of_nat (app_len t)\<rparr>]\<rparr>;
       if get_state X (sim_registry s) (task_actor (st_task t)) \<notin> {Some Creating, Some Running}
       then Some (discard_task t s)
       else do {
         let (crash, s) = (if 0 < app_len t then sim_roll R (crash_prob (cfg_faults (sim_cfg s))) s else (False, s));
         (recs, s) \<leftarrow> run_pipeline X E crash t s;
         s \<leftarrow> observe recs s;
         if crash
         then do {
           s \<leftarrow> settle_crash X ord (st_mids t)
                  (s\<lparr>stats := (stats s)\<lparr>ss_crashed := ss_crashed (stats s) + 1\<rparr>\<rparr>);
           sim_handle_restart X E ord s
         }
         else Some s
       }
     }"

section \<open>Audits\<close>

definition is_quiescent :: "('q, 's, 'n, 'd, 'z) rg_ext_scheme \<Rightarrow> ('d, 'r) sim \<Rightarrow> bool" where
  "is_quiescent X s =
     (mid_budget s \<le> next_mid s \<and> delayed s = [] \<and> blocked s = [] \<and> ready_is_empty (ready s)
      \<and> total_queued_msgs (ready s) = 0
      \<and> list_all (\<lambda>(led, i). \<not> led_alive led
            \<or> (case get_mailbox X (sim_registry s) i of None \<Rightarrow> True | Some mb \<Rightarrow> Mailbox_is_empty mb))
          (zip (ledger s) (actors s)))"

definition audit_slots :: "('q, 's, 'n, 'd, 'z) rg_ext_scheme \<Rightarrow> ('d, 'r) sim \<Rightarrow> bool" where
  "audit_slots X s =
     list_all (\<lambda>k. let led = ledger s ! k
          in \<not> led_alive led \<or>
             (case index (actors s) (of_nat k) of
                None \<Rightarrow> False
              | Some i \<Rightarrow>
                  (case get_mailbox X (sim_registry s) i of
                     None \<Rightarrow> True
                   | Some mb \<Rightarrow>
                       Mailbox_len mb =
                         saturating_sub (saturating_sub (led_delivered led) (led_consumed led)) (led_dropped led))))
       [0..<length (ledger s)]"

fun audit_restart_ops :: "u32 \<Rightarrow> trace_op list \<Rightarrow> (u64, u32) hashmap \<Rightarrow> (u64, u32) hashmap option" where
  "audit_restart_ops m [] acc = Some acc"
| "audit_restart_ops m (x # xs) acc =
     (case x of
        OpRestart dst allowed \<Rightarrow>
          let old = (case hm_get acc dst of None \<Rightarrow> 0 | Some n \<Rightarrow> n);
              new = (if allowed then old + 1 else old)
          in if allowed \<and> m < new then None else audit_restart_ops m xs (hm_insert acc dst new)
      | _ \<Rightarrow> audit_restart_ops m xs acc)"

definition audit_restarts :: "('d, 'r) sim \<Rightarrow> bool" where
  "audit_restarts s =
     (cfg_max_restarts (sim_cfg s) = 0 \<or>
      (case get_supervisor (tree s) (sim_root s) of
         None \<Rightarrow> False
       | Some sv \<Rightarrow>
           stat_total_restarts (count_children sv) \<le> ucast (cfg_max_restarts (sim_cfg s)) * cfg_actors (sim_cfg s)
           \<and> (case audit_restart_ops (cfg_max_restarts (sim_cfg s)) (trace s) [] of
                None \<Rightarrow> False
              | Some acc \<Rightarrow> length acc \<le> unat (cfg_actors (sim_cfg s)))))"

definition audit_counts :: "('q, 's, 'n, 'd, 'z) rg_ext_scheme \<Rightarrow> ('d, 'r) sim \<Rightarrow> bool" where
  "audit_counts X s = (audit_slots X s \<and> audit_restarts s)"

definition audit_identities :: "('d, 'r) sim \<Rightarrow> bool" where
  "audit_identities s =
     list_all (\<lambda>(mid, times).
          mid < length (mid_lost s) \<and> (1 \<le> times \<or> mid_lost s ! mid)
          \<and> (\<not> float_is_zero (duplicate_prob (cfg_faults (sim_cfg s))) \<or> times \<le> 1))
       (enumerate 0 (take (unat (next_mid s)) (mid_times s)))"

section \<open>Rounds and runs\<close>

fun process_loop ::
  "('q, 's, 'n, 'd, 'z) rg_ext_scheme \<Rightarrow> 'r xoshiro \<Rightarrow> sim_env \<Rightarrow> nat \<Rightarrow> ('d, 'r) sim \<Rightarrow> ('d, 'r) sim option" where
  "process_loop X R E 0 s = Some s"
| "process_loop X R E (Suc n) s =
     (case pick R (cfg_policy (sim_cfg s)) (tick s) (ready s, rng s) of
        None \<Rightarrow> None
      | Some (None, rs, r) \<Rightarrow> Some (s\<lparr>ready := rs, rng := r\<rparr>)
      | Some (Some t, rs, r) \<Rightarrow>
          (case process_chosen X R E t (s\<lparr>ready := rs, rng := r\<rparr>) of
             None \<Rightarrow> None
           | Some s \<Rightarrow> process_loop X R E n s))"

definition sim_round ::
  "('q, 's, 'n, 'd, 'z) rg_ext_scheme \<Rightarrow> 'r xoshiro \<Rightarrow> sim_env \<Rightarrow> ('d, 'r) sim \<Rightarrow> ('d, 'r) sim option" where
  "sim_round X R E s =
     do {
       let s = s\<lparr>tick := tick s + 1, clock := snd (clock_advance TICK (clock s))\<rparr>;
       s \<leftarrow> inject_workload X R s;
       s \<leftarrow> deliver_due X s;
       s \<leftarrow> retry_blocked X s;
       s \<leftarrow> process_loop X R E (unat (processing_per_tick (sim_cfg s))) s;
       if audit_counts X s then Some s else None
     }"

fun run_rounds ::
  "('q, 's, 'n, 'd, 'z) rg_ext_scheme \<Rightarrow> 'r xoshiro \<Rightarrow> sim_env \<Rightarrow> nat \<Rightarrow> u64 \<Rightarrow> ('d, 'r) sim
   \<Rightarrow> (u64 \<times> ('d, 'r) sim) option" where
  "run_rounds X R E 0 executed s = Some (executed, s)"
| "run_rounds X R E (Suc n) executed s =
     (if is_quiescent X s then Some (executed, s)
      else case sim_round X R E s of
             None \<Rightarrow> None
           | Some s \<Rightarrow> run_rounds X R E n (executed + 1) s)"

definition trace_hash :: "('d, 'r) sim \<Rightarrow> u64" where
  "trace_hash s = fnv1a (concat (map trace_encode (trace s)))"

definition sim_run ::
  "('q, 's, 'n, 'd, 'z) rg_ext_scheme \<Rightarrow> 'r xoshiro \<Rightarrow> sim_env \<Rightarrow> u64 \<Rightarrow> ('d, 'r) sim
   \<Rightarrow> (sim_outcome \<times> ('d, 'r) sim) option" where
  "sim_run X R E steps s =
     do {
       (executed, s) \<leftarrow> run_rounds X R E (unat steps) 0 s;
       let q = is_quiescent X s;
       if q \<and> \<not> audit_identities s then None
       else Some (\<lparr>out_seed = sim_seed s, quiesced = q, out_steps = executed, out_trace_hash = trace_hash s,
                   trace_ops = length (trace s), out_stats = stats s\<rparr>, s)
     }"

definition run_to_quiescence ::
  "('q, 's, 'n, 'd, 'z) rg_ext_scheme \<Rightarrow> 'r xoshiro \<Rightarrow> sim_env \<Rightarrow> ('d, 'r) sim
   \<Rightarrow> (sim_outcome \<times> ('d, 'r) sim) option" where
  "run_to_quiescence X R E s = sim_run X R E DEFAULT_STEP_BUDGET s"

section \<open>Construction\<close>

definition empty_world ::
  "('q, 's, 'n, 'd, 'z) rg_ext_scheme \<Rightarrow> 'r xoshiro \<Rightarrow> sim_env \<Rightarrow> u64 \<Rightarrow> sim_config \<Rightarrow> ('d, 'r) sim" where
  "empty_world X R E seed cfg =
     (let t = SupervisorTree_new (fresh_ids E 0) (OneForOne (cfg_max_restarts cfg) (from_secs 3600))
      in \<lparr>sim_seed = seed, sim_cfg = cfg, rng = SimRng_new R seed, clock = SimClock_new,
          sim_registry = with_mailbox_config X (cfg_mailbox cfg), sim_exec = SimExecutor_new,
          tree = t, sim_root = root t, actors = [], ordinals = [], ledger = [], ready = ReadySet_new,
          delayed = [], blocked = [], next_seq = 0, next_mid = 0,
          mid_times = replicate (unat (cfg_messages cfg)) 0,
          mid_lost = replicate (unat (cfg_messages cfg)) False,
          tick = 0, trace = [], stats = SimStats_default, readings = 1\<rparr>)"

fun spawn_all ::
  "('q, 's, 'n, 'd, 'z) rg_ext_scheme \<Rightarrow> sim_env \<Rightarrow> nat \<Rightarrow> ('d, 'r) sim \<Rightarrow> ('d, 'r) sim option" where
  "spawn_all X E 0 s = Some s"
| "spawn_all X E (Suc n) s =
     (case spawn_all X E n s of None \<Rightarrow> None | Some s \<Rightarrow> spawn_actor X E (of_nat n) s)"

definition with_config ::
  "('q, 's, 'n, 'd, 'z) rg_ext_scheme \<Rightarrow> 'r xoshiro \<Rightarrow> sim_env \<Rightarrow> u64 \<Rightarrow> sim_config \<Rightarrow> ('d, 'r) sim option" where
  "with_config X R E seed cfg = spawn_all X E (unat (cfg_actors cfg)) (empty_world X R E seed cfg)"

definition Sim_new ::
  "('q, 's, 'n, 'd, 'z) rg_ext_scheme \<Rightarrow> 'r xoshiro \<Rightarrow> sim_env \<Rightarrow> u64 \<Rightarrow> ('d, 'r) sim option" where
  "Sim_new X R E seed = with_config X R E seed SimConfig_default"

text \<open>\<open>config_mut\<close> lends the configuration out: a change through it.\<close>

definition config_mut :: "(sim_config \<Rightarrow> sim_config) \<Rightarrow> ('d, 'r) sim \<Rightarrow> ('d, 'r) sim" where
  "config_mut f s = s\<lparr>sim_cfg := f (sim_cfg s)\<rparr>"

end
