(* ===== verification/Sim_Identity.thy ===== *)
theory Sim_Identity
  imports Sim
begin

unbundle bit_operations_syntax

text \<open>
  Identities in the simulator: that derived actor ids and names do not collide, up to
  the number of incarnations the layout of an id leaves room for, and that the bytes the
  trace hash is computed from determine the trace.
\<close>

section \<open>Actor ids\<close>

lemma sim_id_bit_high: "bit (actor_key (sim_actor_id ord inc)) (n + 64) = (n < 64 \<and> bit ord n)"
proof -
  have "\<not> bit SIM_ID_BASE (n + 64)"
  proof -
    have "SIM_ID_BASE = take_bit 64 SIM_ID_BASE" by (simp add: SIM_ID_BASE_def take_bit_eq_mod)
    then have "bit SIM_ID_BASE (n + 64) = bit (take_bit 64 SIM_ID_BASE) (n + 64)" by simp
    then show ?thesis by (simp add: bit_take_bit_iff)
  qed
  moreover have "\<not> bit inc (n + 64)" by (auto dest: bit_imp_le_length)
  ultimately show ?thesis by (auto simp: sim_actor_id_def bit_simps)
qed

lemma sim_id_bit_low:
  assumes "n < 21"
  shows "bit (actor_key (sim_actor_id ord inc)) n = bit inc n"
proof -
  have "drop_bit 21 SIM_ID_BASE * 2 ^ 21 = SIM_ID_BASE" by (simp add: SIM_ID_BASE_def drop_bit_eq_div)
  then have "push_bit 21 (drop_bit 21 SIM_ID_BASE) = SIM_ID_BASE" by (simp add: push_bit_eq_mult)
  then have "\<not> bit SIM_ID_BASE n" using assms by (metis bit_push_bit_iff not_less)
  then show ?thesis using assms by (auto simp: sim_actor_id_def bit_simps)
qed

lemma bit_small_word: "unat (x :: u64) < 2 ^ k \<Longrightarrow> bit x n \<Longrightarrow> n < k"
proof (rule ccontr)
  assume x: "unat x < 2 ^ k" and b: "bit x n" and "\<not> n < k"
  then have "(2 :: nat) ^ k \<le> 2 ^ n" by simp
  with x have "unat x < 2 ^ n" by linarith
  then have "\<not> bit (unat x) n" by (simp add: bit_iff_odd)
  then show False using b by (simp add: bit_unsigned_iff)
qed

lemma sim_actor_id_ord:
  assumes "sim_actor_id ord inc = sim_actor_id ord' inc'"
  shows "ord = ord'"
proof (rule bit_word_eqI)
  fix n
  assume "n < LENGTH(64)"
  then show "bit ord n = bit ord' n"
    using sim_id_bit_high [of ord inc n] sim_id_bit_high [of ord' inc' n] assms by simp
qed

lemma sim_actor_id_eq:
  assumes "unat inc < 2 ^ 21" and "unat inc' < 2 ^ 21"
  shows "sim_actor_id ord inc = sim_actor_id ord' inc' \<longleftrightarrow> ord = ord' \<and> inc = inc'"
proof
  assume eq: "sim_actor_id ord inc = sim_actor_id ord' inc'"
  have "ord = ord'"
    by (rule sim_actor_id_ord [OF eq])
  moreover have "bit inc n = bit inc' n" for n
    using eq sim_id_bit_low [of n] bit_small_word [OF assms(1)] bit_small_word [OF assms(2)] by metis
  then have "inc = inc'" by (simp add: bit_eq_iff)
  ultimately show "ord = ord' \<and> inc = inc'" by blast
qed simp

lemma actor_key_eq [simp]: "actor_key i = actor_key j \<longleftrightarrow> i = j"
  by (cases i; cases j) simp

section \<open>Names\<close>

lemma dec_digits: "c \<in> set (dec n) \<Longrightarrow> c \<in> set ''0123456789''"
proof (induction n rule: dec.induct)
  case (1 n)
  have digit: "char_of (48 + k) \<in> set ''0123456789''" if "k < 10" for k :: nat
  proof -
    have "k = 0 \<or> k = 1 \<or> k = 2 \<or> k = 3 \<or> k = 4 \<or> k = 5 \<or> k = 6 \<or> k = 7 \<or> k = 8 \<or> k = 9" using that by presburger
    then show ?thesis by (elim disjE) (simp_all add: char_of_def bit_0)
  qed
  show ?case using 1 digit [of n] digit [of "n mod 10"] by (cases "n < 10") (auto simp: dec.simps [of n])
qed

lemma dec_nonempty: "dec n \<noteq> []"
  by (simp add: dec.simps [of n])

lemma dec_eq [simp]: "dec m = dec n \<longleftrightarrow> m = n"
proof
  have inj: "k = l" if "char_of (48 + k) = (char_of (48 + l) :: char)" "k < 10" "l < 10" for k l :: nat
  proof -
    have "of_char (char_of (48 + k) :: char) = (of_char (char_of (48 + l) :: char) :: nat)" using that(1) by simp
    then show ?thesis using that(2,3) by (simp add: of_char_of)
  qed
  show "dec m = dec n \<Longrightarrow> m = n"
  proof (induction m arbitrary: n rule: dec.induct)
    case (1 m)
    show ?case
    proof (cases "m < 10"; cases "n < 10")
      assume "m < 10" "n < 10"
      then show ?thesis using 1(2) inj by (simp add: dec.simps [of m] dec.simps [of n])
    next
      assume "m < 10" "\<not> n < 10"
      then show ?thesis using 1(2) dec_nonempty by (simp add: dec.simps [of m] dec.simps [of n] Cons_eq_append_conv)
    next
      assume "\<not> m < 10" "n < 10"
      then show ?thesis using 1(2) dec_nonempty by (simp add: dec.simps [of m] dec.simps [of n] append_eq_Cons_conv)
    next
      assume mn: "\<not> m < 10" "\<not> n < 10"
      then have "dec (m div 10) = dec (n div 10)" "m mod 10 = n mod 10"
        using 1(2) inj by (simp_all add: dec.simps [of m] dec.simps [of n])
      then show ?thesis using 1(1) [OF mn(1), of "n div 10"] by (metis div_mult_mod_eq)
    qed
  qed
qed simp

lemma supervisor_name_eq [simp]: "supervisor_name ord = supervisor_name ord' \<longleftrightarrow> ord = ord'"
  by (simp add: supervisor_name_def word_unat_eq_iff)

lemma append_sep_eq:
  assumes "c \<notin> set xs" "c \<notin> set xs'"
  shows "xs @ c # ys = xs' @ c # ys' \<longleftrightarrow> xs = xs' \<and> ys = ys'"
  using assms
proof (induction xs arbitrary: xs')
  case Nil
  then show ?case by (cases xs') auto
next
  case (Cons x xs)
  then show ?case by (cases xs') auto
qed

lemma actor_name_eq [simp]: "actor_name ord inc = actor_name ord' inc' \<longleftrightarrow> ord = ord' \<and> inc = inc'"
proof -
  have "CHR ''-'' \<notin> set (dec n)" for n using dec_digits [of "CHR ''-''" n] by auto
  then show ?thesis
    using append_sep_eq [of "CHR ''-''" "dec (unat ord)" "dec (unat ord')"] by (simp add: actor_name_def word_unat_eq_iff)
qed

section \<open>The encoding of the trace\<close>

lemma reject_code_eq [simp]: "reject_code a = reject_code b \<longleftrightarrow> a = b"
  by (cases a; cases b) simp_all

lemma trace_encode_append_eq [simp]:
  "trace_encode x @ bs = trace_encode y @ cs \<longleftrightarrow> x = y \<and> bs = cs"
  by (cases x; cases y; simp add: encode_fields_def; blast?)

lemma trace_encode_nonempty [simp]: "trace_encode x \<noteq> []"
  by (cases x) (simp_all add: encode_fields_def)

lemma concat_encode_eq: "concat (map trace_encode xs) = concat (map trace_encode ys) \<Longrightarrow> xs = ys"
proof (induction xs arbitrary: ys)
  case Nil
  then show ?case by (cases ys) auto
next
  case (Cons x xs)
  then show ?case by (cases ys) auto
qed

section \<open>Properties\<close>

text \<open>
  The encoding that the trace hash is computed from loses nothing: two runs whose
  encodings agree took the same steps in the same order, so two traces can share their
  hash only by a collision of the hash function itself.
\<close>

lemma trace_encoding_injective:
  "concat (map trace_encode xs) = concat (map trace_encode ys) \<longleftrightarrow> xs = ys"
  using concat_encode_eq by blast

text \<open>
  C39: derived identities. The ids of two actors never agree; the ids of two incarnations
  of one actor do not agree either as long as there are at most \<open>2 ^ 21\<close> of them, which
  is what the base leaves free: incarnation \<open>2 ^ 21\<close> has the id of the first one. Names
  never collide.
\<close>

theorem sim_ids_distinct:
  "(sim_actor_id ord inc = sim_actor_id ord' inc' \<longrightarrow> ord = ord')
   \<and> (unat inc < 2 ^ 21 \<longrightarrow> unat inc' < 2 ^ 21 \<longrightarrow>
        sim_actor_id ord inc = sim_actor_id ord' inc' \<longrightarrow> ord = ord' \<and> inc = inc')
   \<and> sim_actor_id ord (2 ^ 21) = sim_actor_id ord 0
   \<and> (actor_name ord inc = actor_name ord' inc' \<longrightarrow> ord = ord' \<and> inc = inc')"
proof -
  have b: "SIM_ID_BASE OR 2097152 = SIM_ID_BASE" by (simp add: SIM_ID_BASE_def)
  have "(SIM_ID_BASE OR p) OR 2097152 = (SIM_ID_BASE OR 2097152) OR p" for p
    by (simp only: or.assoc or.commute [of p])
  then have "(SIM_ID_BASE OR push_bit 64 (ucast ord)) OR 2097152 = SIM_ID_BASE OR push_bit 64 (ucast ord)"
    unfolding b .
  then have "sim_actor_id ord (2 ^ 21) = sim_actor_id ord 0" by (simp add: sim_actor_id_def)
  then show ?thesis using sim_actor_id_ord sim_actor_id_eq by auto
qed

theorem sim_ids_distinct_witness: "sim_actor_id 3 5 \<noteq> sim_actor_id 3 6 \<and> sim_actor_id 1 0 \<noteq> sim_actor_id 2 0"
  using sim_ids_distinct [of 3 5 3 6] sim_ids_distinct [of 1 0 2 0] by auto

end
