(* ===== verification/Sim_Pipeline.thy ===== *)
theory Sim_Pipeline
  imports Sim_Identity Worker_Correct
begin

text \<open>
  What the production code does for the simulator, in the terms of its ledger: how many
  mailbox slots a delivery fills, how many a processed task gives back, which records
  the executor leaves behind, and what a crash, a registration and a removal do to the
  registry.
\<close>

declare process_single_message.simps [simp del] drain_resumed.simps [simp del]

section \<open>Messages of the simulator\<close>

text \<open>The simulator sends nothing that stops or suspends an actor.\<close>

definition plain_message :: "message \<Rightarrow> bool" where
  "plain_message m = (payload m = Start \<or> (\<exists>bs. payload m = Custom bs))"

definition task_messages :: "task \<Rightarrow> message list" where
  "task_messages t = task_message t # additional_messages t"

definition exec_record_of :: "actor_id \<Rightarrow> message \<Rightarrow> exec_record" where
  "exec_record_of i m = \<lparr>rec_actor = i, rec_tag = exec_tag_of m\<rparr>"

lemma plain_start [simp]: "plain_message start_message"
  by (simp add: plain_message_def start_message_def)

lemma plain_sim_message [simp]: "plain_message (sim_message p mid)"
  by (simp add: plain_message_def sim_message_def)

lemma tag_start [simp]: "exec_tag_of start_message = TagSystem"
  by (simp add: exec_tag_of_def start_message_def)

lemma tag_sim_message [simp]: "exec_tag_of (sim_message p mid) = TagCustom mid"
  by (simp add: exec_tag_of_def sim_message_def)

abbreviation active :: "('q, 's, 'n) actor_entry \<Rightarrow> bool" where
  "active e \<equiv> from_u8 (entry_state e) \<in> {Running, Creating}"

abbreviation slots :: "('q \<Rightarrow> message list) \<Rightarrow> ('q, 's, 'n) actor_entry \<Rightarrow> nat" where
  "slots items e \<equiv> lanes_len (lanes_of items (mailbox e))"

lemma executed_state_plain:
  "plain_message m \<Longrightarrow> st \<in> {Running, Creating} \<Longrightarrow> executed_state (payload m) st \<in> {Running, Creating}"
  by (auto simp: plain_message_def)

lemma SimExecutor_outcome:
  "\<not> crash_next x \<Longrightarrow> outcome_of (Some SimExecutor) x i m st = Counted (executed_state (payload m) st)"
  "\<not> crash_next x \<Longrightarrow> exec_after (Some SimExecutor) x i m = x\<lparr>records := records x @ [exec_record_of i m]\<rparr>"
  "crash_next x \<Longrightarrow> outcome_of (Some SimExecutor) x i m st = Unwound"
  "crash_next x \<Longrightarrow> exec_after (Some SimExecutor) x i m = x\<lparr>crash_next := False\<rparr>"
  by (simp_all add: outcome_of_def exec_after_def SimExecutor_def SimExecutor_execute_def exec_record_of_def)

lemma slots_recv: "0 < lanes_len l \<Longrightarrow> Suc (lanes_len (snd (spec_recv l))) = lanes_len l"
  by (auto simp: lanes_len_def spec_recv_def split: list.splits)

context registry_env
begin

section \<open>Running a task\<close>

lemma sim_message_step:
  assumes "reg_inv (ps_registry st)" and "dm_get X (by_id (ps_registry st)) i = Some e" and "active e"
    and "\<not> crash_next (ps_exec st)" and "plain_message m" and "0 < slots items e"
  shows "\<exists>st' e'. process_single_message X (Some SimExecutor) t 1 i m st = Some (False, st')
    \<and> reg_inv (ps_registry st') \<and> upd i (\<lambda>_. e') (ps_registry st) (ps_registry st')
    \<and> active e' \<and> entry_name e' = entry_name e \<and> Suc (slots items e') = slots items e
    \<and> ps_exec st' = (ps_exec st)\<lparr>records := records (ps_exec st) @ [exec_record_of i m]\<rparr>
    \<and> ws_processed (ps_stats st') = ws_processed (ps_stats st) + 1"
proof -
  have "process_single_message X (Some SimExecutor) t 1 i m st = process_active X (Some SimExecutor) t i m st"
    using assms(2,3) by (auto simp: process_single_message.simps get_state_def Let_def)
  moreover obtain p st' e' where st': "process_active X (Some SimExecutor) t i m st = Some (p, st')"
    "reg_inv (ps_registry st')" "upd i (\<lambda>_. e') (ps_registry st) (ps_registry st')"
    "ps_exec st' = (ps_exec st)\<lparr>records := records (ps_exec st) @ [exec_record_of i m]\<rparr>"
    "active_effect items t (Counted (executed_state (payload m) (from_u8 (entry_state e)))) p e e'
       (ps_stats st) (ps_stats st')"
    using process_active_effect [OF assms(1,2), of "Some SimExecutor" t m] assms(4)
    by (auto simp: SimExecutor_outcome)
  ultimately show ?thesis
    using executed_state_plain [OF assms(5,3)] slots_recv [OF assms(6)]
    by (intro exI [of _ st'] exI [of _ e']) (auto simp: active_effect_def)
qed

lemma sim_batch:
  assumes "reg_inv (ps_registry st)" and "dm_get X (by_id (ps_registry st)) i = Some e" and "active e"
    and "\<not> crash_next (ps_exec st)" and "\<forall>m \<in> set ms. plain_message m" and "length ms \<le> slots items e"
  shows "\<exists>st' e'. process_batch X (Some SimExecutor) t 1 i ms st = Some (False, st')
    \<and> reg_inv (ps_registry st') \<and> upd i (\<lambda>_. e') (ps_registry st) (ps_registry st')
    \<and> active e' \<and> entry_name e' = entry_name e \<and> slots items e' + length ms = slots items e
    \<and> ps_exec st' = (ps_exec st)\<lparr>records := records (ps_exec st) @ map (exec_record_of i) ms\<rparr>
    \<and> ws_processed (ps_stats st') = ws_processed (ps_stats st) + of_nat (length ms)"
  using assms
proof (induction ms arbitrary: st e)
  case Nil
  then have "upd i (\<lambda>_. e) (ps_registry st) (ps_registry st)"
    using upd_const [OF upd_refl] by (auto simp: rg_inv_def)
  with Nil show ?case by (intro exI [of _ st] exI [of _ e]) simp
next
  case (Cons m ms)
  have "0 < slots items e" "plain_message m" using Cons.prems by auto
  from sim_message_step [OF Cons.prems(1-4) this(2,1), of t] obtain st1 e1 where
    s1: "process_single_message X (Some SimExecutor) t 1 i m st = Some (False, st1)"
      "reg_inv (ps_registry st1)" "upd i (\<lambda>_. e1) (ps_registry st) (ps_registry st1)"
      "active e1" "entry_name e1 = entry_name e" "Suc (slots items e1) = slots items e"
      "ps_exec st1 = (ps_exec st)\<lparr>records := records (ps_exec st) @ [exec_record_of i m]\<rparr>"
      "ws_processed (ps_stats st1) = ws_processed (ps_stats st) + 1"
    by blast
  have e1: "dm_get X (by_id (ps_registry st1)) i = Some e1" using upd_same [OF s1(3) Cons.prems(2)] .
  have "length ms \<le> slots items e1" using s1(6) Cons.prems(6) by simp
  with Cons.IH [OF s1(2) e1 s1(4)] s1(7) Cons.prems(4,5) obtain st2 e2 where
    s2: "process_batch X (Some SimExecutor) t 1 i ms st1 = Some (False, st2)"
      "reg_inv (ps_registry st2)" "upd i (\<lambda>_. e2) (ps_registry st1) (ps_registry st2)"
      "active e2" "entry_name e2 = entry_name e1" "slots items e2 + length ms = slots items e1"
      "ps_exec st2 = (ps_exec st1)\<lparr>records := records (ps_exec st1) @ map (exec_record_of i) ms\<rparr>"
      "ws_processed (ps_stats st2) = ws_processed (ps_stats st1) + of_nat (length ms)"
    by auto
  have "get_state X (ps_registry st1) i \<notin> {Some Failed, Some Stopped}"
    using e1 s1(4) by (auto simp: get_state_def)
  moreover have "upd i (\<lambda>_. e2) (ps_registry st) (ps_registry st2)"
    using upd_fun_cong [OF upd_trans [OF s1(3) s2(3)] Cons.prems(2)] by simp
  ultimately show ?case
    using s1 s2 by (intro exI [of _ st2] exI [of _ e2]) simp
qed

text \<open>A task whose executor does not crash.\<close>

lemma sim_process_task_counted:
  assumes inv: "reg_inv r" and e: "dm_get X (by_id r) (task_actor k) = Some e" "active e"
    and x: "\<not> crash_next x" and ms: "\<forall>m \<in> set (task_messages k). plain_message m"
    and len: "length (task_messages k) \<le> slots items e"
  shows "\<exists>r' e'. sim_process_task X (Some SimExecutor) t 1 k r x
      = Some (of_nat (length (task_messages k)), r',
          x\<lparr>records := records x @ map (exec_record_of (task_actor k)) (task_messages k)\<rparr>)
    \<and> reg_inv r' \<and> upd (task_actor k) (\<lambda>_. e') r r' \<and> active e' \<and> entry_name e' = entry_name e
    \<and> slots items e' + length (task_messages k) = slots items e"
proof (cases "additional_messages k = []")
  case True
  then have "0 < slots items e" "plain_message (task_message k)" using ms len by (simp_all add: task_messages_def)
  from sim_message_step [where t = t and i = "task_actor k"
      and st = "\<lparr>ps_registry = r, ps_stats = WorkerStats_default, ps_exec = x\<rparr>",
      OF _ _ e(2) _ this(2,1)] inv e x True
  show ?thesis
    by (auto simp: sim_process_task_def process_task_safe_def process_task_def task_messages_def
        WorkerStats_default_def)
next
  case False
  let ?st = "\<lparr>ps_registry = r, ps_stats = WorkerStats_default\<lparr>ws_batches_processed := 1\<rparr>, ps_exec = x\<rparr>"
  from sim_batch [where t = t and i = "task_actor k" and st = ?st, OF _ _ e(2) _ ms len] inv e x False
  show ?thesis
    by (auto simp: sim_process_task_def process_task_safe_def process_task_def task_messages_def Let_def
        WorkerStats_default_def simp del: process_batch.simps)
qed

text \<open>A task whose first message crashes the executor.\<close>

lemma sim_process_task_crashed:
  assumes inv: "reg_inv r" and e: "dm_get X (by_id r) (task_actor k) = Some e" "active e" and x: "crash_next x"
  shows "\<exists>r' e'. sim_process_task X (Some SimExecutor) t 1 k r x = Some (0, r', x\<lparr>crash_next := False\<rparr>)
    \<and> reg_inv r' \<and> upd (task_actor k) (\<lambda>_. e') r r' \<and> entry_name e' = entry_name e
    \<and> from_u8 (entry_state e') = Failed \<and> slots items e' = 0"
proof -
  let ?i = "task_actor k"
  have single: "process_single_message X (Some SimExecutor) t 1 ?i m st
      = Some (True, st\<lparr>ps_exec := x\<lparr>crash_next := False\<rparr>\<rparr>)"
    if "ps_registry st = r" "ps_exec st = x" for m and st :: "('d, sim_executor) pstate"
    using e x that by (auto simp: process_single_message.simps get_state_def process_active_def SimExecutor_def SimExecutor_execute_def Let_def)
  obtain r' mb where f: "fail_actor X ?i r = Some r'" "reg_inv r'"
    "upd ?i (\<lambda>e. e\<lparr>entry_state := to_u8 Failed, mailbox := mb\<rparr>) r r'" "lanes_of items mb = lanes_empty"
    using fail_actor_ok [OF inv e(1)] by blast
  have "sim_process_task X (Some SimExecutor) t 1 k r x = Some (0, r', x\<lparr>crash_next := False\<rparr>)"
    using single f(1)
    by (cases "additional_messages k = []")
       (simp_all add: sim_process_task_def process_task_safe_def process_task_def Let_def WorkerStats_default_def)
  then show ?thesis
    using f(2,4) upd_const [OF f(3) e(1)]
    by (intro exI [of _ r'] exI [of _ "e\<lparr>entry_state := to_u8 Failed, mailbox := mb\<rparr>"])
       (simp add: lanes_len_def lanes_empty_def del: to_u8.simps)
qed

section \<open>Delivering\<close>

lemma try_send_all_room:
  assumes "mb_inv items cap permits idle cfg i mb"
    and "length ms + lanes_len (lanes_of items mb) \<le> unat (capacity cfg)"
  shows "\<exists>mb'. try_send_all X ms mb = Some mb' \<and> mb_inv items cap permits idle cfg i mb'
    \<and> lanes_len (lanes_of items mb') = lanes_len (lanes_of items mb) + length ms"
  using assms
proof (induction ms arbitrary: mb)
  case (Cons m ms)
  have "lanes_len (lanes_of items mb) < unat (capacity cfg)" using Cons.prems(2) by simp
  from try_send_room [OF Cons.prems(1) this, of m] obtain mb1 where
    m1: "Mailbox_try_send X m mb = (Inr (), mb1)" "mb_inv items cap permits idle cfg i mb1"
      "lanes_of items mb1 = lanes_add cfg m (lanes_of items mb)"
    by blast
  have l: "lanes_len (lanes_of items mb1) = Suc (lanes_len (lanes_of items mb))"
    by (simp add: m1(3) lanes_len_def lanes_add_def)
  from Cons.IH [OF m1(2)] Cons.prems(2) l obtain mb' where
    "try_send_all X ms mb1 = Some mb'" "mb_inv items cap permits idle cfg i mb'"
    "lanes_len (lanes_of items mb') = lanes_len (lanes_of items mb1) + length ms"
    by auto
  then show ?case using m1(1) l by simp
qed simp

lemma mailbox_len:
  assumes "reg_inv r" and "dm_get X (by_id r) i = Some e"
  shows "unat (Mailbox_len (mailbox e)) = slots items e"
    and "unat (remaining_capacity (mailbox e)) = unat (capacity (default_config r)) - slots items e"
  using reg_inv_entry(2) [OF assms]
  by (simp_all add: mb_inv_def Mailbox_len_def remaining_capacity_def unat_saturating_sub)

lemma deliver_into_mailbox:
  assumes inv: "reg_inv r" and e: "dm_get X (by_id r) i = Some e"
    and room: "length ms \<le> unat (remaining_capacity (mailbox e))"
  shows "\<exists>mb. try_send_all X ms (mailbox e) = Some mb \<and> reg_inv (put_mailbox X i mb r)
    \<and> upd i (\<lambda>e. e\<lparr>mailbox := mb\<rparr>) r (put_mailbox X i mb r)
    \<and> lanes_len (lanes_of items mb) = slots items e + length ms"
proof -
  note mi = reg_inv_entry(2) [OF inv e]
  have le: "slots items e \<le> unat (capacity (default_config r))" using mi by (simp add: mb_inv_def)
  have d: "dinv (by_id r)" using inv by (simp add: rg_inv_def)
  obtain mb where mb: "try_send_all X ms (mailbox e) = Some mb" "mb_inv items cap permits idle (default_config r) i mb"
    "lanes_len (lanes_of items mb) = slots items e + length ms"
    using try_send_all_room [OF mi, of ms] room mailbox_len(2) [OF inv e] le by fastforce
  show ?thesis
    using mb put_mailbox_ok [OF inv e mb(2)] put_mailbox_upd [OF d e] by blast
qed

section \<open>Registering and removing\<close>

lemma register_fresh:
  assumes inv: "reg_inv r" and new: "dm_get X (by_id r) i = None" and name: "hm_get (by_name r) n = None"
  shows "\<exists>mb r' e. register_named X t i (Some n) r = (Ok mb, r') \<and> reg_inv r'
    \<and> dm_get X (by_id r') = (dm_get X (by_id r))(i \<mapsto> e) \<and> default_config r' = default_config r
    \<and> entry_name e = Some n \<and> from_u8 (entry_state e) = Creating \<and> slots items e = 0"
proof -
  have d: "dinv (by_id r)" using inv by (simp add: rg_inv_def)
  let ?mb = "Mailbox_new X i (default_config r)"
  let ?e = "\<lparr>entry_name = Some n, entry_state = to_u8 Creating, mailbox = ?mb, processed = 0, last_active = t\<rparr>"
  obtain old d' where ins: "dm_insert X (by_id r) i ?e = (old, d')" by fastforce
  have g: "dm_get X d' = (dm_get X (by_id r))(i \<mapsto> ?e)" "old = None"
    using get_ins [OF d, of i ?e] insert_old [OF d, of i ?e] ins new by (auto simp: fun_eq_iff)
  have cfg: "0 < capacity (default_config r)" "unat (capacity (default_config r)) \<le> MAX_PERMITS"
    using inv by (auto simp: rg_inv_def config_ok_def word_zero_less_unat)
  have reg: "register_named X t i (Some n) r = (Ok ?mb, r\<lparr>by_id := d', by_name := hm_insert (by_name r) n i\<rparr>)"
    using new name ins g(2) by (simp add: register_named_def Let_def hm_contains_def)
  have "slots items ?e = 0"
    using aq.items_new [OF cfg(1)] by (simp add: lanes_len_def lanes_of_def Mailbox_new_def)
  then show ?thesis
    using reg g(1) register_inv [OF inv, of t i "Some n"]
    by (intro exI [of _ ?mb] exI [of _ "r\<lparr>by_id := d', by_name := hm_insert (by_name r) n i\<rparr>"] exI [of _ ?e])
       (simp del: to_u8.simps)
qed

lemma unregister_effect:
  assumes inv: "reg_inv r"
  shows "reg_inv (snd (unregister X i r))"
    and "dm_get X (by_id (snd (unregister X i r))) = (dm_get X (by_id r))(i := None)"
    and "default_config (snd (unregister X i r)) = default_config r"
proof -
  have d: "dinv (by_id r)" using inv by (simp add: rg_inv_def)
  obtain old d' where rm: "dm_remove X (by_id r) i = (old, d')" by fastforce
  show "dm_get X (by_id (snd (unregister X i r))) = (dm_get X (by_id r))(i := None)"
    using get_del [OF d, of i] rm by (auto simp: unregister_def Let_def fun_eq_iff split: option.splits)
  show "default_config (snd (unregister X i r)) = default_config r"
    using rm by (auto simp: unregister_def Let_def split: option.splits)
qed (rule unregister_inv [OF inv])

text \<open>A name nobody bears is free.\<close>

lemma name_free:
  assumes inv: "reg_inv r" and "\<And>i e. dm_get X (by_id r) i = Some e \<Longrightarrow> entry_name e \<noteq> Some n"
  shows "hm_get (by_name r) n = None"
proof (rule ccontr)
  assume "hm_get (by_name r) n \<noteq> None"
  then obtain i where "lookup r n = Some i" by (auto simp: lookup_def)
  then obtain e where "dm_get X (by_id r) i = Some e" "entry_name e = Some n"
    using inv unfolding rg_inv_def names_agree_def inverse_names_def by blast
  then show False using assms(2) by blast
qed

end

end
