(* ===== verification/Sim_Supervision.thy ===== *)
theory Sim_Supervision
  imports Sim_Identity
begin

text \<open>
  The supervisor behind the simulator: one child per actor under a one-for-one root. As
  long as the readings of the monotonic clock lie within the window of the strategy, the
  supervisor's own accounting of restarts is the number of granted restarts in the trace,
  and the restart audit of the simulator passes.
\<close>

section \<open>The root supervisor and the trace\<close>

text \<open>All readings of \<open>Instant::now\<close> are less than an hour apart.\<close>

definition hour_clock :: "sim_env \<Rightarrow> bool" where
  "hour_clock E =
     (\<forall>a b. duration_since (now_check (exit_envs E a)) (now_record (exit_envs E b)) < from_secs 3600
          \<and> duration_since (now_record (exit_envs E a)) (now_record (exit_envs E b)) < from_secs 3600)"

definition restart_times :: "supervisor \<Rightarrow> u64 \<Rightarrow> instant list" where
  "restart_times sv ord =
     (case hm_get (restart_counts sv) (supervisor_name ord) of None \<Rightarrow> [] | Some v \<Rightarrow> v)"

definition granted :: "trace_op list \<Rightarrow> u64 \<Rightarrow> nat" where
  "granted trc ord = length (filter (\<lambda>x. x = OpRestart ord True) trc)"

definition root_ok :: "sim_env \<Rightarrow> u32 \<Rightarrow> nat \<Rightarrow> trace_op list \<Rightarrow> supervisor \<Rightarrow> bool" where
  "root_ok E m n trc sv =
     (strategy sv = OneForOne m (from_secs 3600) \<and> escalation_action sv = Escalate
      \<and> (\<forall>ord. unat ord < n \<longrightarrow>
           (\<exists>c. hm_get (children sv) (supervisor_name ord) = Some c \<and> restart_policy (spec c) = Permanent))
      \<and> (\<forall>ord. n \<le> unat ord \<longrightarrow>
           hm_get (children sv) (supervisor_name ord) = None \<and> (\<forall>b. OpRestart ord b \<notin> set trc))
      \<and> (\<forall>ord. set (restart_times sv ord) \<subseteq> range (\<lambda>j. now_record (exit_envs E j)))
      \<and> (\<forall>ord. length (restart_times sv ord) = granted trc ord)
      \<and> (m \<noteq> 0 \<longrightarrow> (\<forall>ord. granted trc ord \<le> unat m))
      \<and> unat (total_restarts sv) \<le> (\<Sum>k<n. granted trc (of_nat k)))"

definition sup_ok :: "sim_env \<Rightarrow> u32 \<Rightarrow> nat \<Rightarrow> trace_op list \<Rightarrow> supervisor_tree \<Rightarrow> actor_id \<Rightarrow> bool" where
  "sup_ok E m n trc t i = (\<exists>sv. hm_get (supervisors t) i = Some sv \<and> root_ok E m n trc sv)"

lemma granted_append [simp]: "granted (xs @ ys) ord = granted xs ord + granted ys ord"
  by (simp add: granted_def)

lemma granted_Nil [simp]: "granted [] ord = 0"
  by (simp add: granted_def)

definition is_restart :: "trace_op \<Rightarrow> bool" where
  "is_restart x = (case x of OpRestart _ _ \<Rightarrow> True | _ \<Rightarrow> False)"

lemma granted_Cons [simp]: "granted (x # xs) ord = (if x = OpRestart ord True then 1 else 0) + granted xs ord"
  by (simp add: granted_def)

lemma granted_quiet: "\<forall>x \<in> set xs. \<not> is_restart x \<Longrightarrow> granted xs ord = 0"
  by (induction xs) (auto simp: is_restart_def)

lemma sup_ok_quiet:
  assumes "\<forall>x \<in> set xs. \<not> is_restart x"
  shows "sup_ok E m n (trc @ xs) t i = sup_ok E m n trc t i"
proof -
  have "OpRestart ord b \<notin> set xs" for ord b using assms by (auto simp: is_restart_def)
  then show ?thesis using granted_quiet [OF assms] by (simp add: sup_ok_def root_ok_def)
qed

section \<open>Handling a crash\<close>

lemma restart_allowed:
  assumes "root_ok E m n trc sv" and "hour_clock E"
  shows "check_restart_allowed (now_check (exit_envs E j)) (supervisor_name ord) m (from_secs 3600) sv
    \<longleftrightarrow> m = 0 \<or> granted trc ord < unat m"
proof (cases "m = 0 \<or> hm_get (restart_counts sv) (supervisor_name ord) = None")
  case True
  then show ?thesis
    using assms(1) unfolding root_ok_def
    by (auto simp: check_restart_allowed_def restart_times_def unat_gt_0 dest!: spec [of _ ord])
next
  case False
  then obtain ts where ts: "hm_get (restart_counts sv) (supervisor_name ord) = Some ts" and m: "m \<noteq> 0" by auto
  have rt: "restart_times sv ord = ts" by (simp add: restart_times_def ts)
  have sub: "set ts \<subseteq> range (\<lambda>j. now_record (exit_envs E j))" and len: "length ts = granted trc ord"
    and le: "length ts \<le> unat m"
    using assms(1) rt m unfolding root_ok_def by metis+
  have "filter (\<lambda>t. duration_since (now_check (exit_envs E j)) t < from_secs 3600) ts = ts"
    using sub assms(2) unfolding filter_id_conv hour_clock_def by blast
  moreover have "unat (u32_try_from_or MAX_RESTART_THRESHOLD (length ts)) = length ts"
    using le unat_u32_bound [of m] by (intro unat_u32_try_from_or) simp
  ultimately show ?thesis
    using ts m len by (simp add: check_restart_allowed_def Let_def word_less_nat_alt)
qed

lemma restart_times_record:
  assumes "root_ok E m n trc sv" and "hour_clock E"
  shows "restart_times (record_restart (now_record (exit_envs E j)) (supervisor_name ord) sv) ord' =
    (if ord' = ord then restart_times sv ord @ [now_record (exit_envs E j)] else restart_times sv ord')"
proof -
  let ?ts = "restart_times sv ord @ [now_record (exit_envs E j)]"
  have "set ?ts \<subseteq> range (\<lambda>j. now_record (exit_envs E j))" using assms(1) unfolding root_ok_def by auto
  then have "filter (\<lambda>t. duration_since (now_record (exit_envs E j)) t < from_secs 3600) ?ts = ?ts"
    using assms(2) unfolding filter_id_conv hour_clock_def by blast
  moreover have "within (strategy sv) = Some (from_secs 3600)"
    using assms(1) by (simp add: root_ok_def)
  ultimately show ?thesis
    by (auto simp: restart_times_def record_restart_def Let_def hm_simps split: option.splits)
qed

lemma sum_granted_snoc:
  fixes ord :: u64
  assumes "unat ord < n" and "n \<le> 2 ^ 64"
  shows "(\<Sum>k<n. granted (trc @ [OpRestart ord True]) (of_nat k)) = Suc (\<Sum>k<n. granted trc (of_nat k))"
proof -
  have "(OpRestart ord True = OpRestart (of_nat k) True) = (k = unat ord)" if "k < n" for k
    using that assms(2) unat_of_nat_small [where 'a = 64, of k] by auto
  then have "(\<Sum>k<n. granted (trc @ [OpRestart ord True]) (of_nat k)) =
      (\<Sum>k<n. granted trc (of_nat k) + (if k = unat ord then 1 else 0))"
    by (intro sum.cong) (auto simp del: of_nat_unat)
  then show ?thesis using assms(1) by (simp add: sum.distrib)
qed

lemma unat_total_restarts_bump: "unat (total_restarts (bump_total_restarts sv)) \<le> Suc (unat (total_restarts sv))"
  by (simp add: bump_total_restarts_def unat_saturating_add)

lemma root_ok_grant:
  assumes ok: "root_ok E m n trc sv" and hc: "hour_clock E" and ord: "unat ord < n" and n: "n \<le> 2 ^ 64"
    and allowed: "m = 0 \<or> granted trc ord < unat m"
    and sv': "sv' = bump_total_restarts (record_restart (now_record (exit_envs E j)) (supervisor_name ord) sv)"
  shows "root_ok E m n (trc @ [OpRestart ord True]) (sv'\<lparr>children := hm_modify (children sv') (supervisor_name ord)
     (\<lambda>c. c\<lparr>state := st, child_id := ci\<rparr>)\<rparr>)" (is "root_ok _ _ _ ?trc ?sv")
proof -
  have ch: "children sv' = children sv" "strategy sv' = strategy sv" "escalation_action sv' = escalation_action sv"
    by (simp_all add: sv' bump_total_restarts_def record_restart_def Let_def)
  have tr: "unat (total_restarts ?sv) \<le> Suc (unat (total_restarts sv))"
    using unat_total_restarts_bump [of "record_restart (now_record (exit_envs E j)) (supervisor_name ord) sv"]
    by (simp add: sv' record_restart_def Let_def)
  have rt: "restart_times ?sv ord' =
      (if ord' = ord then restart_times sv ord @ [now_record (exit_envs E j)] else restart_times sv ord')" for ord'
    using restart_times_record [OF ok hc, of j ord ord'] by (simp add: restart_times_def sv' bump_total_restarts_def)
  have g: "granted ?trc ord' = granted trc ord' + (if ord' = ord then 1 else 0)" for ord' by auto
  have "\<exists>c. hm_get (children ?sv) (supervisor_name ord') = Some c \<and> restart_policy (spec c) = Permanent"
    if o: "unat ord' < n" for ord'
  proof -
    obtain c where "hm_get (children sv) (supervisor_name ord') = Some c" "restart_policy (spec c) = Permanent"
      using ok o unfolding root_ok_def by blast
    then show ?thesis using ch(1) by (cases "ord' = ord") (auto simp: hm_simps)
  qed
  moreover have "\<forall>ord'. n \<le> unat ord' \<longrightarrow>
      hm_get (children ?sv) (supervisor_name ord') = None \<and> (\<forall>b. OpRestart ord' b \<notin> set ?trc)"
    using ok ch(1) ord unfolding root_ok_def by (auto simp: hm_simps)
  moreover have "set (restart_times ?sv ord') \<subseteq> range (\<lambda>j. now_record (exit_envs E j))"
    "length (restart_times ?sv ord') = granted ?trc ord'" for ord'
    using ok unfolding rt g root_ok_def by auto
  moreover have "m \<noteq> 0 \<longrightarrow> granted ?trc ord' \<le> unat m" for ord'
    using ok allowed unfolding g root_ok_def by (auto simp: Suc_le_eq)
  moreover have "unat (total_restarts ?sv) \<le> (\<Sum>k<n. granted ?trc (of_nat k))"
    using tr ok unfolding sum_granted_snoc [OF ord n] root_ok_def by linarith
  ultimately show ?thesis using ok ch ord unfolding root_ok_def by simp
qed

lemma root_ok_deny:
  assumes ok: "root_ok E m n trc sv" and ord: "unat ord < n"
  shows "root_ok E m n (trc @ [OpRestart ord False]) (set_child_state (supervisor_name ord) st sv)"
proof -
  have "\<forall>ord'. n \<le> unat ord' \<longrightarrow> (\<forall>b. OpRestart ord' b \<noteq> OpRestart ord False)" using ord by auto
  moreover have "restart_times (set_child_state (supervisor_name ord) st sv) = restart_times sv"
    by (rule ext) (simp add: restart_times_def set_child_state_def)
  ultimately show ?thesis
    using ok unfolding root_ok_def by (auto simp: set_child_state_def hm_simps)
qed

lemma sup_ok_exit:
  assumes ok: "sup_ok E m n trc t i" and hc: "hour_clock E" and ord: "unat ord < n" and n: "n \<le> 2 ^ 64"
  shows "\<exists>res t'. tree_handle_child_exit (exit_envs E j) i (supervisor_name ord) (ExitError msg) t = (res, t')
    \<and> sup_ok E m n (trc @ [OpRestart ord (is_ok res)]) t' i"
proof -
  obtain sv where sv: "hm_get (supervisors t) i = Some sv" "root_ok E m n trc sv" using ok by (auto simp: sup_ok_def)
  obtain c where c: "hm_get (children sv) (supervisor_name ord) = Some c" "restart_policy (spec c) = Permanent"
    using sv(2) ord unfolding root_ok_def by blast
  have st: "strategy sv = OneForOne m (from_secs 3600)" "escalation_action sv = Escalate"
    using sv(2) by (simp_all add: root_ok_def)
  let ?h = "handle_child_exit (exit_envs E j) (supervisor_name ord) (ExitError msg) sv"
  have h: "?h = restart_one_for_one (exit_envs E j) (supervisor_name ord) m (from_secs 3600) sv"
    using c st by (simp add: handle_child_exit_def should_restart_def)
  have "root_ok E m n (trc @ [OpRestart ord (is_ok (fst ?h))]) (snd ?h)"
  proof (cases "m = 0 \<or> granted trc ord < unat m")
    case True
    then show ?thesis
      using root_ok_grant [OF sv(2) hc ord n True refl] restart_allowed [OF sv(2) hc, of j ord]
      unfolding h by (simp add: restart_one_for_one_def Let_def)
  next
    case False
    then show ?thesis
      using root_ok_deny [OF sv(2) ord] restart_allowed [OF sv(2) hc, of j ord] st
      unfolding h by (simp add: restart_one_for_one_def handle_max_restarts_exceeded_def Let_def)
  qed
  then show ?thesis
    using sv(1) by (auto simp: tree_handle_child_exit_def on_supervisor_def sup_ok_def hm_simps)
qed

lemma sup_ok_mark_running:
  assumes "sup_ok E m n trc t i"
  shows "sup_ok E m n trc (snd (on_supervisor i (mark_child_running nm) t)) i"
proof -
  obtain sv where sv: "hm_get (supervisors t) i = Some sv" "root_ok E m n trc sv" using assms by (auto simp: sup_ok_def)
  have set: "root_ok E m n trc (set_child_state nm st sv)" for st
  proof -
    have "restart_times (set_child_state nm st sv) = restart_times sv"
      by (rule ext) (simp add: restart_times_def set_child_state_def)
    then show ?thesis
      using sv(2) unfolding root_ok_def by (fastforce simp: set_child_state_def hm_simps)
  qed
  then have "root_ok E m n trc (snd (mark_child_running nm sv))"
    using sv(2) by (auto simp: mark_child_running_def split: option.splits child_state.splits)
  then show ?thesis using sv(1) by (simp add: on_supervisor_def sup_ok_def hm_simps)
qed

lemma sup_ok_start_child:
  assumes ok: "sup_ok E m n trc t i" and n: "unat ord = n" and ops: "\<forall>x \<in> set trc. \<not> is_restart x"
  shows "\<exists>j t'. start_child_under new i (ChildSpec_restart_policy Permanent (ChildSpec_new (supervisor_name ord))) t
      = (Ok j, t') \<and> sup_ok E m (Suc n) trc t' i"
proof -
  obtain sv where sv: "hm_get (supervisors t) i = Some sv" "root_ok E m n trc sv" using ok by (auto simp: sup_ok_def)
  let ?spec = "ChildSpec_restart_policy Permanent (ChildSpec_new (supervisor_name ord))"
  have free: "hm_get (children sv) (supervisor_name ord) = None" using sv(2) n by (simp add: root_ok_def)
  have spec: "spec_name ?spec = supervisor_name ord" "restart_policy ?spec = Permanent"
    by (simp_all add: ChildSpec_restart_policy_def ChildSpec_new_def)
  define sv' where "sv' = snd (start_child new ?spec sv)"
  have st: "start_child new ?spec sv = (Ok new, sv')"
    using free spec by (simp add: sv'_def start_child_def hm_contains_def Let_def)
  have "unat ord' < Suc n \<longleftrightarrow> unat ord' < n \<or> ord' = ord" for ord'
    using n by (auto simp: less_Suc_eq word_unat_eq_iff)
  moreover have "Suc n \<le> unat ord' \<longleftrightarrow> n \<le> unat ord' \<and> ord' \<noteq> ord" for ord'
    using n by (auto simp: Suc_le_eq word_unat_eq_iff)
  moreover have "restart_times sv' = restart_times sv"
    using free spec by (auto simp: fun_eq_iff restart_times_def sv'_def start_child_def hm_contains_def Let_def)
  ultimately have "root_ok E m (Suc n) trc sv'"
    using sv(2) free spec granted_quiet [OF ops] unfolding root_ok_def
    by (auto simp: sv'_def start_child_def hm_contains_def Let_def hm_simps)
  then show ?thesis
    using sv(1) st by (simp add: start_child_under_def on_supervisor_def sup_ok_def hm_simps)
qed

lemma sup_ok_new:
  "sup_ok E m 0 [] (SupervisorTree_new j (OneForOne m (from_secs 3600))) (root (SupervisorTree_new j (OneForOne m (from_secs 3600))))"
  by (simp add: sup_ok_def root_ok_def SupervisorTree_new_def Supervisor_new_def hm_simps restart_times_def Let_def)

section \<open>The audit\<close>

lemma audit_ops_pass:
  assumes "\<forall>ord. granted (ys @ xs) ord \<le> unat m" and "hm_wf acc"
    and "\<forall>ord. hm_get acc ord = (if \<exists>b. OpRestart ord b \<in> set ys then Some (of_nat (granted ys ord)) else None)"
  shows "\<exists>acc'. audit_restart_ops m xs acc = Some acc' \<and> hm_wf acc'
    \<and> (\<forall>ord. hm_get acc' ord \<noteq> None \<longrightarrow> (\<exists>b. OpRestart ord b \<in> set (ys @ xs)))"
  using assms
proof (induction xs arbitrary: ys acc)
  case (Cons x xs)
  have len: "\<forall>ord. granted ((ys @ [x]) @ xs) ord \<le> unat m" using Cons.prems(1) by simp
  show ?case
  proof (cases "is_restart x")
    case False
    then have "\<forall>ord. hm_get acc ord = (if \<exists>b. OpRestart ord b \<in> set (ys @ [x]) then Some (of_nat (granted (ys @ [x]) ord)) else None)"
      using Cons.prems(3) by (auto simp: is_restart_def)
    from Cons.IH [OF len Cons.prems(2) this] False show ?thesis
      by (cases x) (auto simp: is_restart_def)
  next
    case True
    then obtain ord b where x: "x = OpRestart ord b" by (auto simp: is_restart_def split: trace_op.splits)
    let ?old = "case hm_get acc ord of None \<Rightarrow> 0 | Some k \<Rightarrow> k"
    let ?new = "if b then ?old + 1 else ?old"
    have "granted ys ord = 0" if "\<nexists>b. OpRestart ord b \<in> set ys"
      using that by (simp add: granted_def filter_empty_conv) blast
    then have old: "?old = of_nat (granted ys ord)" using Cons.prems(3) by auto
    have new: "?new = of_nat (granted (ys @ [x]) ord)" using old x by auto
    have "granted (ys @ [x]) ord \<le> unat m" using len [rule_format, of ord] by simp
    then have "unat ?new \<le> unat m"
      unfolding new using unat_u32_bound [of m] by (subst unat_of_nat_small) auto
    then have "\<not> (b \<and> m < ?new)" by (simp add: word_less_nat_alt)
    moreover have "\<forall>ord'. hm_get (hm_insert acc ord ?new) ord' =
        (if \<exists>b. OpRestart ord' b \<in> set (ys @ [x]) then Some (of_nat (granted (ys @ [x]) ord')) else None)"
      using Cons.prems(3) new x by (auto simp: hm_simps)
    moreover have "hm_wf (hm_insert acc ord ?new)" using Cons.prems(2) by (rule hm_intros)
    ultimately show ?thesis using Cons.IH [OF len, of "hm_insert acc ord ?new"] x by (auto simp: Let_def)
  qed
qed auto

lemma card_ords: "card {ord :: u64. unat ord < n} \<le> n"
proof -
  have "card (unat ` {ord :: u64. unat ord < n}) = card {ord :: u64. unat ord < n}"
    by (rule card_image) (auto intro!: inj_onI simp: word_unat_eq_iff)
  moreover have "unat ` {ord :: u64. unat ord < n} \<subseteq> {..<n}" by auto
  ultimately show ?thesis using card_mono [of "{..<n}"] by (metis card_lessThan finite_lessThan)
qed

lemma sup_ok_audit:
  assumes ok: "sup_ok E (cfg_max_restarts (sim_cfg s)) n (trace s) (tree s) (sim_root s)"
    and n: "n = unat (cfg_actors (sim_cfg s))" "n \<le> 2 ^ 32"
  shows "audit_restarts s"
proof (cases "cfg_max_restarts (sim_cfg s) = 0")
  case False
  let ?m = "cfg_max_restarts (sim_cfg s)"
  obtain sv where sv: "hm_get (supervisors (tree s)) (sim_root s) = Some sv" "root_ok E ?m n (trace s) sv"
    using ok by (auto simp: sup_ok_def)
  have g: "\<forall>ord. granted (trace s) ord \<le> unat ?m" using sv(2) False by (simp add: root_ok_def)
  have "(\<Sum>k<n. granted (trace s) (of_nat k)) \<le> n * unat ?m"
    using sum_bounded_above [of "{..<n}" "\<lambda>k. granted (trace s) (of_nat k)" "unat ?m"] g by simp
  then have tot: "unat (total_restarts sv) \<le> n * unat ?m" using sv(2) by (simp add: root_ok_def)
  have "n * unat ?m \<le> 2 ^ 32 * unat ?m" using n(2) by (intro mult_right_mono) simp_all
  also have "\<dots> < 2 ^ 64" using unat_u32_bound [of ?m] by simp
  finally have "unat ((ucast ?m :: u64) * cfg_actors (sim_cfg s)) = n * unat ?m"
    using n(1) unat_u32_bound [of ?m]
    by (simp add: unat_word_ariths unsigned_ucast_eq take_bit_nat_eq_self mult.commute)
  then have 1: "stat_total_restarts (count_children sv) \<le> ucast ?m * cfg_actors (sim_cfg s)"
    using tot by (simp add: count_children_def Let_def word_le_nat_alt)
  obtain acc where acc: "audit_restart_ops ?m (trace s) [] = Some acc" "hm_wf acc"
    "\<forall>ord. hm_get acc ord \<noteq> None \<longrightarrow> (\<exists>b. OpRestart ord b \<in> set (trace s))"
    using audit_ops_pass [of "[]" "trace s" ?m "[]"] g by auto
  have "set (map fst acc) \<subseteq> {ord. unat ord < n}"
  proof
    fix ord
    assume "ord \<in> set (map fst acc)"
    then have "hm_get acc ord \<noteq> None" by (simp add: hm_get_None_iff)
    then obtain b where "OpRestart ord b \<in> set (trace s)" using acc(3) by blast
    then show "ord \<in> {ord. unat ord < n}" using sv(2) unfolding root_ok_def by (metis mem_Collect_eq not_le)
  qed
  then have "card (set (map fst acc)) \<le> n" using card_ords [of n] by (meson card_mono finite le_trans)
  then have "length acc \<le> n" using acc(2) by (metis distinct_card hm_wf_def length_map)
  then show ?thesis using 1 sv(1) acc(1) n(1) by (simp add: audit_restarts_def get_supervisor_def)
qed (simp add: audit_restarts_def)

end
