(* ===== verification/Sim_Invariant.thy ===== *)
theory Sim_Invariant
  imports Sim_Pipeline Sim_Supervision
begin

text \<open>
  The invariant of the simulated world. It is stated over two multisets, the deliveries
  that are still pending and the tasks that are waiting to run, whatever container holds
  them, so that an operation that takes an item in hand and one that puts it somewhere
  are two small steps.
\<close>

section \<open>Pending deliveries and tasks\<close>

text \<open>A delivery in flight: the ordinal of its target, its messages and their identities.\<close>

type_synonym flight = "u64 \<times> message list \<times> u64 list"

definition flight_of :: "deliver_payload \<Rightarrow> flight" where
  "flight_of p = (dp_ord p, dp_msgs p, dp_mids p)"

definition pending_flights :: "('d, 'r) sim \<Rightarrow> flight multiset" where
  "pending_flights s = image_mset flight_of (mset (map dl_payload (delayed s)) + mset (blocked s))"

abbreviation tasks :: "('d, 'r) sim \<Rightarrow> sim_task multiset" where
  "tasks s \<equiv> ready_tasks (ready s)"

text \<open>A delivery is one \<open>Start\<close>, or up to three application messages with their identities.\<close>

definition shape_ok :: "message list \<Rightarrow> u64 list \<Rightarrow> bool" where
  "shape_ok msgs mids =
     (msgs = [start_message] \<and> mids = []
      \<or> mids \<noteq> [] \<and> length mids \<le> 3 \<and> (\<exists>p. msgs = map (sim_message p) mids))"

definition task_slots :: "sim_task multiset \<Rightarrow> actor_id \<Rightarrow> nat" where
  "task_slots T i =
     (\<Sum>t\<in>#T. if task_actor (st_task t) = i then length (task_messages (st_task t)) else 0)"

definition app_load :: "flight multiset \<Rightarrow> sim_task multiset \<Rightarrow> u64 \<Rightarrow> nat" where
  "app_load P T ord =
     (\<Sum>f\<in>#P. if fst f = ord then length (snd (snd f)) else 0)
     + (\<Sum>t\<in>#T. if st_ord t = ord then length (st_mids t) else 0)"

definition msg_load :: "flight multiset \<Rightarrow> u64 \<Rightarrow> nat" where
  "msg_load P ord = (\<Sum>f\<in>#P. if fst f = ord then length (fst (snd f)) else 0)"

definition backlog :: "sim_task multiset \<Rightarrow> u64 \<Rightarrow> nat" where
  "backlog T ord = (\<Sum>t\<in>#T. if st_ord t = ord then 1 else 0)"

definition copies :: "flight multiset \<Rightarrow> sim_task multiset \<Rightarrow> u64 \<Rightarrow> nat" where
  "copies P T mid = (\<Sum>f\<in>#P. count_list (snd (snd f)) mid) + (\<Sum>t\<in>#T. count_list (st_mids t) mid)"

lemma load_simps [simp]:
  "task_slots {#} i = 0"
  "task_slots (add_mset t T) i =
     (if task_actor (st_task t) = i then length (task_messages (st_task t)) else 0) + task_slots T i"
  "app_load (add_mset f P) T ord = (if fst f = ord then length (snd (snd f)) else 0) + app_load P T ord"
  "app_load P (add_mset t T) ord = (if st_ord t = ord then length (st_mids t) else 0) + app_load P T ord"
  "app_load {#} {#} ord = 0" "msg_load {#} ord = 0" "copies {#} {#} mid = 0" "backlog {#} ord = 0"
  "backlog (add_mset t T) ord = (if st_ord t = ord then 1 else 0) + backlog T ord"
  "msg_load (add_mset f P) ord = (if fst f = ord then length (fst (snd f)) else 0) + msg_load P ord"
  "copies (add_mset f P) T mid = count_list (snd (snd f)) mid + copies P T mid"
  "copies P (add_mset t T) mid = count_list (st_mids t) mid + copies P T mid"
  by (simp_all add: task_slots_def app_load_def msg_load_def copies_def backlog_def)

lemma shape_okD:
  assumes "shape_ok msgs mids"
  shows "msgs \<noteq> []" "length msgs \<le> 3" "\<forall>m \<in> set msgs. plain_message m" "length mids \<le> length msgs"
  using assms by (auto simp: shape_ok_def)

lemma shape_ok_records:
  assumes "shape_ok msgs mids"
  shows "map exec_tag_of msgs = (if mids = [] then [TagSystem] else map TagCustom mids)"
  using assms by (auto simp: shape_ok_def comp_def)

section \<open>The parts of the invariant\<close>

definition actor_ok ::
  "('q, 's, 'n, 'd, 'z) rg_ext_scheme \<Rightarrow> ('q \<Rightarrow> message list) \<Rightarrow> 'd registry \<Rightarrow> (u128, u64) hashmap
   \<Rightarrow> sim_task multiset \<Rightarrow> u64 \<Rightarrow> actor_ledger \<Rightarrow> actor_id \<Rightarrow> bool" where
  "actor_ok X items r ords T ord led i =
     (i = sim_actor_id ord (led_incarnation led) \<and>
      (case dm_get X (by_id r) i of
         None \<Rightarrow> \<not> led_alive led
       | Some e \<Rightarrow>
           led_alive led \<and> active e \<and> entry_name e = Some (actor_name ord (led_incarnation led))
           \<and> hm_get ords (actor_key i) = Some ord
           \<and> slots items e = task_slots T i
           \<and> unat (led_delivered led) = unat (led_consumed led) + unat (led_dropped led) + task_slots T i))"

definition actors_ok ::
  "('q, 's, 'n, 'd, 'z) rg_ext_scheme \<Rightarrow> ('q \<Rightarrow> message list) \<Rightarrow> 'd registry \<Rightarrow> (u128, u64) hashmap
   \<Rightarrow> sim_task multiset \<Rightarrow> actor_ledger list \<Rightarrow> actor_id list \<Rightarrow> bool" where
  "actors_ok X items r ords T leds acts =
     (length acts = length leds
      \<and> (\<forall>ord. unat ord < length leds \<longrightarrow> actor_ok X items r ords T ord (leds ! unat ord) (acts ! unat ord))
      \<and> (\<forall>i. dm_get X (by_id r) i \<noteq> None \<longrightarrow> i \<in> set acts))"

definition tasks_ok :: "actor_ledger list \<Rightarrow> u64 \<Rightarrow> sim_task multiset \<Rightarrow> bool" where
  "tasks_ok leds nm T =
     (\<forall>t\<in>#T. unat (st_ord t) < length leds
        \<and> (\<exists>inc \<le> led_incarnation (leds ! unat (st_ord t)). task_actor (st_task t) = sim_actor_id (st_ord t) inc)
        \<and> shape_ok (task_messages (st_task t)) (st_mids t) \<and> (\<forall>mid \<in> set (st_mids t). mid < nm))"

definition flights_ok :: "nat \<Rightarrow> u64 \<Rightarrow> flight multiset \<Rightarrow> bool" where
  "flights_ok n nm P =
     (\<forall>(ord, msgs, mids)\<in>#P. unat ord < n \<and> shape_ok msgs mids \<and> (\<forall>mid \<in> set mids. mid < nm))"

text \<open>
  What bounds the ledger and the tasks: no message is delivered more than twice, each
  crash costs one, and each task stems from a delivery.
\<close>

definition load_ok :: "actor_ledger list \<Rightarrow> u64 \<Rightarrow> flight multiset \<Rightarrow> sim_task multiset \<Rightarrow> bool" where
  "load_ok leds nm P T =
     (\<forall>ord. unat ord < length leds \<longrightarrow>
        (let led = leds ! unat ord
         in unat (led_incarnation led) + app_load P T ord \<le> 2 * unat nm
            \<and> unat (led_delivered led) + msg_load P ord \<le> 2 * unat nm + 1 + unat (led_incarnation led)
            \<and> backlog T ord \<le> unat (led_delivered led)))"

definition idents_ok ::
  "bool \<Rightarrow> u64 \<Rightarrow> u32 list \<Rightarrow> bool list \<Rightarrow> flight multiset \<Rightarrow> sim_task multiset \<Rightarrow> bool" where
  "idents_ok dupfree nm cnt lost P T =
     (length lost = length cnt \<and> length cnt < 2 ^ 20 \<and> unat nm \<le> length cnt
      \<and> (\<forall>mid. nm \<le> mid \<longrightarrow> unat mid < length cnt \<longrightarrow> cnt ! unat mid = 0)
      \<and> (\<forall>mid. mid < nm \<longrightarrow> cnt ! unat mid \<noteq> 0 \<or> lost ! unat mid \<or> 0 < copies P T mid)
      \<and> (dupfree \<longrightarrow> (\<forall>mid. mid < nm \<longrightarrow> unat (cnt ! unat mid) + copies P T mid \<le> 1)))"

text \<open>Without injected rejections and crashes no actor dies and no message is lost.\<close>

definition gentle :: "fault_config \<Rightarrow> bool" where
  "gentle f = (float_le_zero (send_reject_prob f) \<and> float_le_zero (crash_prob f))"

definition calm_ok :: "bool \<Rightarrow> actor_ledger list \<Rightarrow> bool list \<Rightarrow> bool" where
  "calm_ok g leds lost =
     (g \<longrightarrow> (\<forall>led \<in> set leds. led_alive led \<and> led_incarnation led = 0) \<and> True \<notin> set lost)"

definition sim_ok ::
  "('q, 's, 'n, 'd, 'z) rg_ext_scheme \<Rightarrow> ('q \<Rightarrow> message list) \<Rightarrow> ('q \<Rightarrow> nat) \<Rightarrow> ('s \<Rightarrow> nat) \<Rightarrow> ('s \<Rightarrow> bool)
   \<Rightarrow> ('d \<Rightarrow> bool) \<Rightarrow> sim_env \<Rightarrow> flight multiset \<Rightarrow> sim_task multiset \<Rightarrow> ('d, 'r) sim \<Rightarrow> bool" where
  "sim_ok X items cap permits idle dinv E P T s =
     (rg_inv X items cap permits idle dinv (sim_registry s)
      \<and> length (ledger s) \<le> 2 ^ 32
      \<and> actors_ok X items (sim_registry s) (ordinals s) T (ledger s) (actors s)
      \<and> tasks_ok (ledger s) (next_mid s) T
      \<and> flights_ok (length (ledger s)) (next_mid s) P
      \<and> load_ok (ledger s) (next_mid s) P T
      \<and> idents_ok (float_is_zero (duplicate_prob (cfg_faults (sim_cfg s)))) (next_mid s)
          (mid_times s) (mid_lost s) P T
      \<and> calm_ok (gentle (cfg_faults (sim_cfg s))) (ledger s) (mid_lost s)
      \<and> sup_ok E (cfg_max_restarts (sim_cfg s)) (length (ledger s)) (trace s) (tree s) (sim_root s)
      \<and> sim_exec s = SimExecutor_new)"

text \<open>The counters of queued messages agree with the tasks that are waiting.\<close>

definition queued_ok :: "ready_set \<Rightarrow> bool" where
  "queued_ok rs =
     (hm_wf (queued_msgs rs)
      \<and> (\<forall>k. (case hm_get (queued_msgs rs) k of None \<Rightarrow> 0 | Some q \<Rightarrow> q) =
            of_nat (\<Sum>t\<in>#ready_tasks rs. if actor_key (task_actor (st_task t)) = k then app_len t else 0)))"

text \<open>The world between two operations, with some deliveries in hand.\<close>

definition sim_inv ::
  "('q, 's, 'n, 'd, 'z) rg_ext_scheme \<Rightarrow> ('q \<Rightarrow> message list) \<Rightarrow> ('q \<Rightarrow> nat) \<Rightarrow> ('s \<Rightarrow> nat) \<Rightarrow> ('s \<Rightarrow> bool)
   \<Rightarrow> ('d \<Rightarrow> bool) \<Rightarrow> sim_env \<Rightarrow> flight multiset \<Rightarrow> ('d, 'r) sim \<Rightarrow> bool" where
  "sim_inv X items cap permits idle dinv E H s =
     (sim_ok X items cap permits idle dinv E (pending_flights s + H) (tasks s) s \<and> queued_ok (ready s))"

text \<open>What no operation of a round changes.\<close>

definition same_world :: "('d, 'r) sim \<Rightarrow> ('d, 'r) sim \<Rightarrow> bool" where
  "same_world s s' =
     (sim_cfg s' = sim_cfg s \<and> sim_seed s' = sim_seed s \<and> length (ledger s') = length (ledger s)
      \<and> length (mid_times s') = length (mid_times s) \<and> tick s' = tick s
      \<and> default_config (sim_registry s') = default_config (sim_registry s))"

lemma same_world_refl [simp]: "same_world s s"
  by (simp add: same_world_def)

lemma same_world_trans: "same_world s s' \<Longrightarrow> same_world s' s'' \<Longrightarrow> same_world s s''"
  by (simp add: same_world_def)

text \<open>
  The work that is left: a message that is still to be sent can become one delivery, and
  a delivery with messages can, by a crash, become the delivery of one \<open>Start\<close>.
\<close>

definition work :: "flight multiset \<Rightarrow> sim_task multiset \<Rightarrow> nat" where
  "work P T = (\<Sum>f\<in>#P. if snd (snd f) = [] then 1 else 2) + (\<Sum>t\<in>#T. if st_mids t = [] then 1 else 2)"

definition work_left :: "('d, 'r) sim \<Rightarrow> nat" where
  "work_left s = 3 * (length (mid_times s) - unat (next_mid s)) + work (pending_flights s) (tasks s)"

lemma work_simps [simp]:
  "work {#} {#} = 0"
  "work (add_mset f P) T = (if snd (snd f) = [] then 1 else 2) + work P T"
  "work P (add_mset t T) = (if st_mids t = [] then 1 else 2) + work P T"
  by (simp_all add: work_def)

text \<open>Incarnations stay in the range in which ids are distinct.\<close>

lemma inc_bound:
  assumes "load_ok leds nm P T" and "idents_ok d nm cnt lost P T" and "unat ord < length leds"
  shows "unat (led_incarnation (leds ! unat ord)) < 2 ^ 21 - 1"
    and "unat (led_delivered (leds ! unat ord)) + msg_load P ord < 2 ^ 24"
  using assms by (auto simp: load_ok_def idents_ok_def Let_def dest!: spec [of _ ord])

lemma calm_ok_update:
  assumes "calm_ok g leds lost" and "led_alive led = led_alive (leds ! k)" "led_incarnation led = led_incarnation (leds ! k)"
  shows "calm_ok g (leds[k := led]) lost"
proof (cases "k < length leds")
  case True
  then have "leds ! k \<in> set leds" by simp
  then show ?thesis
    using assms set_update_subset_insert [of leds k led] unfolding calm_ok_def by (metis (full_types) insert_iff subset_iff)
qed (use assms in \<open>simp add: list_update_beyond\<close>)

lemma queued_ok_push [simp]: "queued_ok rs \<Longrightarrow> queued_ok (ready_push t rs)"
proof -
  assume q: "queued_ok rs"
  let ?k = "actor_key (task_actor (st_task t))"
  have "queued_msgs (ready_push t rs) = hm_insert (queued_msgs rs) ?k
      ((case hm_get (queued_msgs rs) ?k of None \<Rightarrow> 0 | Some q \<Rightarrow> q) + of_nat (app_len t))"
    by (simp add: ready_push_def Let_def)
  then show ?thesis using q by (auto simp: queued_ok_def hm_simps hm_intros)
qed

lemma queued_ok_empty: "queued_ok rs \<Longrightarrow> ready_tasks rs = {#} \<Longrightarrow> total_queued_msgs rs = 0"
proof -
  assume q: "queued_ok rs" and e: "ready_tasks rs = {#}"
  have "v = 0" if v: "v \<in> set (hm_values (queued_msgs rs))" for v
  proof -
    obtain k where "(k, v) \<in> set (queued_msgs rs)" using v by (auto simp: hm_values_def)
    then have "hm_get (queued_msgs rs) k = Some v"
      using q by (simp add: queued_ok_def hm_wf_def hm_get_def map_of_eq_Some_iff)
    then show ?thesis using q e by (auto simp: queued_ok_def dest!: spec [of _ k])
  qed
  then have "sum_list xs = 0" if "set xs \<subseteq> set (hm_values (queued_msgs rs))" for xs
    using that by (induction xs) auto
  then show ?thesis unfolding total_queued_msgs_def by blast
qed

definition queued_of :: "sim_task multiset \<Rightarrow> u128 \<Rightarrow> nat" where
  "queued_of T k = (\<Sum>t\<in>#T. if actor_key (task_actor (st_task t)) = k then app_len t else 0)"

lemma queued_of_le: "\<forall>t\<in>#T. app_len t \<le> 3 \<Longrightarrow> queued_of T k \<le> 3 * size T"
  by (induction T) (auto simp: queued_of_def)

lemma pick_queued_msgs:
  "pick R pol k (rs, r) = Some (Some t, rs', r') \<Longrightarrow>
     queued_msgs rs' = hm_modify (queued_msgs rs) (actor_key (task_actor (st_task t))) (\<lambda>q. saturating_sub q (of_nat (app_len t)))"
  by (auto simp: pick_def served_and_counted_def Let_def split: list.splits option.splits)

lemma saturating_sub_of_nat:
  assumes "a + b < 2 ^ 64"
  shows "saturating_sub (of_nat (a + b)) (of_nat a :: u64) = of_nat b"
proof -
  have small: "unat (of_nat n :: u64) = n" if "n \<le> a + b" for n
    using that assms by (intro unat_of_nat_small) simp
  show ?thesis
    unfolding word_unat_eq_iff unat_saturating_sub small [OF order_refl] small [OF le_add1] small [OF le_add2] by simp
qed

lemma queued_ok_pick:
  assumes q: "queued_ok rs" and p: "pick R pol n (rs, r) = Some (Some t, rs', r')"
    and T: "ready_tasks rs = add_mset t (ready_tasks rs')" and few: "size (ready_tasks rs) \<le> 2 ^ 56"
    and len: "\<forall>t\<in>#ready_tasks rs. app_len t \<le> 3"
  shows "queued_ok rs'"
proof -
  let ?k = "actor_key (task_actor (st_task t))"
  note m = pick_queued_msgs [OF p]
  have old: "(case hm_get (queued_msgs rs) k of None \<Rightarrow> 0 | Some q \<Rightarrow> q) = of_nat (queued_of (ready_tasks rs) k)" for k
    using q by (simp add: queued_ok_def queued_of_def)
  have sum: "queued_of (ready_tasks rs) k = (if ?k = k then app_len t else 0) + queued_of (ready_tasks rs') k" for k
    by (simp add: T queued_of_def)
  have b: "queued_of (ready_tasks rs) k < 2 ^ 64" for k
    using queued_of_le [OF len, of k] few by simp
  have "(case hm_get (queued_msgs rs') k of None \<Rightarrow> 0 | Some q \<Rightarrow> q) = of_nat (queued_of (ready_tasks rs') k)" for k
  proof (cases "k = ?k")
    case True
    then have lt: "app_len t + queued_of (ready_tasks rs') k < 2 ^ 64" using sum [of k] b [of k] by simp
    show ?thesis
    proof (cases "hm_get (queued_msgs rs) k")
      case None
      then have "(of_nat (app_len t + queued_of (ready_tasks rs') k) :: u64) = 0" using old [of k] sum [of k] True by simp
      moreover have "unat (of_nat (app_len t + queued_of (ready_tasks rs') k) :: u64) = app_len t + queued_of (ready_tasks rs') k"
        using lt by (intro unat_of_nat_small) simp
      ultimately have "queued_of (ready_tasks rs') k = 0" by simp
      then show ?thesis using None True by (simp add: m hm_simps)
    next
      case (Some v)
      then have "v = of_nat (app_len t + queued_of (ready_tasks rs') k)" using old [of k] sum [of k] True by simp
      then show ?thesis using Some True saturating_sub_of_nat [OF lt] by (simp add: m hm_simps)
    qed
  next
    case False
    then show ?thesis using old [of k] sum [of k] by (simp add: m hm_simps)
  qed
  moreover have "hm_wf (queued_msgs rs')" using q by (simp add: m queued_ok_def hm_intros)
  ultimately show ?thesis by (simp add: queued_ok_def queued_of_def)
qed

lemma size_by_key:
  fixes key :: "'a \<Rightarrow> u64"
  assumes "n \<le> 2 ^ 64" and "\<forall>x\<in>#M. unat (key x) < n"
  shows "size M = (\<Sum>k<n. \<Sum>x\<in>#M. if key x = of_nat k then 1 else 0)"
  using assms(2)
proof (induction M)
  case (add x M)
  have "(key x = of_nat k) = (k = unat (key x))" if "k < n" for k
    using that assms(1) unat_of_nat_small [where 'a = 64, of k] by auto
  then have "(\<Sum>k<n. if key x = of_nat k then 1 else 0 :: nat) = (\<Sum>k<n. if k = unat (key x) then 1 else 0)"
    by (intro sum.cong) (auto simp del: of_nat_unat)
  then show ?case using add by (simp add: sum.distrib del: of_nat_unat)
qed simp

lemma size_bound:
  fixes key :: "'a \<Rightarrow> u64"
  assumes "n \<le> 2 ^ 32" and "\<forall>x\<in>#M. unat (key x) < n"
    and "\<And>ord. unat ord < n \<Longrightarrow> (\<Sum>x\<in>#M. if key x = ord then 1 else 0) \<le> (2 ^ 24 :: nat)"
  shows "size M \<le> 2 ^ 56"
proof -
  have "(\<Sum>x\<in>#M. if key x = of_nat k then 1 else 0) \<le> (2 ^ 24 :: nat)" if "k < n" for k
    using that assms(1) by (intro assms(3)) (subst unat_of_nat_small, simp_all)
  then have "(\<Sum>k<n. \<Sum>x\<in>#M. if key x = of_nat k then 1 else 0) \<le> n * (2 ^ 24 :: nat)"
    using sum_bounded_above [of "{..<n}" "\<lambda>k. \<Sum>x\<in>#M. if key x = of_nat k then 1 else 0" "2 ^ 24 :: nat"] by simp
  moreover have "size M = (\<Sum>k<n. \<Sum>x\<in>#M. if key x = of_nat k then 1 else 0)"
    by (rule size_by_key) (use assms(1,2) in simp_all)
  moreover have "n * 2 ^ 24 \<le> 2 ^ 32 * 2 ^ 24" using assms(1) by (intro mult_right_mono) simp_all
  ultimately show ?thesis by simp
qed

lemma few_tasks:
  assumes "load_ok leds nm P T" and "idents_ok d nm cnt lost P T" and "tasks_ok leds nm T" and "length leds \<le> 2 ^ 32"
  shows "size T \<le> 2 ^ 56"
proof (rule size_bound [OF assms(4)])
  show "\<forall>t\<in>#T. unat (st_ord t) < length leds" using assms(3) by (auto simp: tasks_ok_def)
  fix ord :: u64
  assume o: "unat ord < length leds"
  then have "backlog T ord \<le> unat (led_delivered (leds ! unat ord))"
    using assms(1) unfolding load_ok_def Let_def by blast
  then show "(\<Sum>t\<in>#T. if st_ord t = ord then 1 else 0) \<le> (2 ^ 24 :: nat)"
    using inc_bound(2) [OF assms(1,2) o] by (simp add: backlog_def)
qed

lemma few_flights:
  assumes "load_ok leds nm P T" and "idents_ok d nm cnt lost P T" and "flights_ok (length leds) nm P" and "length leds \<le> 2 ^ 32"
  shows "size P \<le> 2 ^ 56"
proof (rule size_bound [OF assms(4)])
  show "\<forall>f\<in>#P. unat (fst f) < length leds" using assms(3) by (auto simp: flights_ok_def)
  fix ord :: u64
  assume o: "unat ord < length leds"
  have "1 \<le> length (fst (snd f))" if "f \<in># P" for f
    using assms(3) that shape_okD(1) by (fastforce simp: flights_ok_def Suc_le_eq)
  then have "(\<Sum>f\<in>#P. if fst f = ord then 1 else 0) \<le> msg_load P ord"
    unfolding msg_load_def by (intro sum_mset_mono) auto
  then show "(\<Sum>f\<in>#P. if fst f = ord then 1 else 0) \<le> (2 ^ 24 :: nat)"
    using inc_bound(2) [OF assms(1,2) o] by simp
qed

section \<open>Losing messages\<close>

definition lose :: "u64 list \<Rightarrow> bool list \<Rightarrow> bool list" where
  "lose mids lost = fold (\<lambda>mid l. l[unat mid := True]) mids lost"

lemma length_lose [simp]: "length (lose mids lost) = length lost"
  by (induction mids arbitrary: lost) (auto simp: lose_def)

lemma lose_Cons: "lose (mid # mids) lost = lose mids (lost[unat mid := True])"
  by (simp add: lose_def)

lemma lose_mono: "lost ! k \<Longrightarrow> lose mids lost ! k"
proof (induction mids arbitrary: lost)
  case (Cons mid mids)
  have "lost[unat mid := True] ! k" using Cons.prems by (cases "k = unat mid"; cases "k < length lost") (auto simp: list_update_beyond)
  then show ?case using Cons.IH by (simp add: lose_Cons)
qed (simp add: lose_def)

lemma lose_in: "mid \<in> set mids \<Longrightarrow> unat mid < length lost \<Longrightarrow> lose mids lost ! unat mid"
proof (induction mids arbitrary: lost)
  case (Cons m mids)
  then show ?case using lose_mono [of "lost[unat m := True]" "unat m" mids] by (auto simp: lose_Cons)
qed simp

lemma fold_reject_one:
  "\<exists>st. fold (reject_one reason ord) mids s =
     s\<lparr>mid_lost := lose mids (mid_lost s), stats := st,
       trace := trace s @ map (\<lambda>mid. OpReject mid ord reason) mids\<rparr>"
proof (induction mids arbitrary: s)
  case (Cons mid mids)
  then show ?case
    using Cons [of "reject_one reason ord mid s"]
    by (auto simp: reject_one_def mark_lost_def push_trace_def lose_Cons Let_def)
next
  case Nil
  show ?case by (rule exI [of _ "stats s"]) (simp add: lose_def)
qed

lemma fold_mark_lost: "fold mark_lost mids s = s\<lparr>mid_lost := lose mids (mid_lost s)\<rparr>"
  by (induction mids arbitrary: s) (simp_all add: mark_lost_def lose_def)

lemma count_list_pos: "0 < count_list xs x \<longleftrightarrow> x \<in> set xs"
  using count_list_0_iff [of xs x] by auto

text \<open>Dropping a flight or a task after its messages were marked as lost.\<close>

lemma idents_ok_lose:
  assumes "idents_ok d nm cnt lost P' T'" and "\<forall>mid. copies P' T' mid = count_list mids mid + copies P T mid"
    and "\<forall>mid \<in> set mids. cnt ! unat mid \<noteq> 0 \<or> lost' ! unat mid"
    and "\<forall>k. lost ! k \<longrightarrow> lost' ! k" and "length lost' = length lost"
  shows "idents_ok d nm cnt lost' P T"
proof -
  have "cnt ! unat mid \<noteq> 0 \<or> lost' ! unat mid \<or> 0 < copies P T mid" if "mid < nm" for mid
  proof -
    have "cnt ! unat mid \<noteq> 0 \<or> lost ! unat mid \<or> 0 < copies P' T' mid"
      using assms(1) that by (simp add: idents_ok_def)
    then show ?thesis
      using assms(2) [rule_format, of mid] assms(3,4) by (cases "mid \<in> set mids") (auto simp: count_list_0_iff)
  qed
  moreover have "unat (cnt ! unat mid) + copies P T mid \<le> 1" if "mid < nm" d for mid
  proof -
    have "unat (cnt ! unat mid) + copies P' T' mid \<le> 1" using assms(1) that by (simp add: idents_ok_def)
    then show ?thesis using assms(2) [rule_format, of mid] by simp
  qed
  ultimately show ?thesis using assms(1,5) unfolding idents_ok_def by auto
qed

section \<open>Changing one actor\<close>

lemma actor_ok_cong:
  assumes "dm_get X (by_id r') i = dm_get X (by_id r) i" and "task_slots T' i = task_slots T i"
    and "hm_get ords' (actor_key i) = hm_get ords (actor_key i)"
  shows "actor_ok X items r' ords' T' ord led i = actor_ok X items r ords T ord led i"
  unfolding actor_ok_def assms ..

lemma actor_ok_id: "actor_ok X items r ords T ord led i \<Longrightarrow> i = sim_actor_id ord (led_incarnation led)"
  by (simp add: actor_ok_def)

text \<open>All actors but one, whose slot is being changed.\<close>

definition others_ok ::
  "('q, 's, 'n, 'd, 'z) rg_ext_scheme \<Rightarrow> ('q \<Rightarrow> message list) \<Rightarrow> 'd registry \<Rightarrow> (u128, u64) hashmap
   \<Rightarrow> sim_task multiset \<Rightarrow> actor_ledger list \<Rightarrow> actor_id list \<Rightarrow> u64 \<Rightarrow> bool" where
  "others_ok X items r ords T leds acts ord =
     (length acts = length leds
      \<and> (\<forall>ord'. unat ord' < length leds \<longrightarrow>
           acts ! unat ord' = sim_actor_id ord' (led_incarnation (leds ! unat ord'))
           \<and> (ord' \<noteq> ord \<longrightarrow> actor_ok X items r ords T ord' (leds ! unat ord') (acts ! unat ord')))
      \<and> (\<forall>i. dm_get X (by_id r) i \<noteq> None \<longrightarrow> i \<in> set acts))"

lemma others_ok_if_actors_ok: "actors_ok X items r ords T leds acts \<Longrightarrow> others_ok X items r ords T leds acts ord"
  unfolding actors_ok_def others_ok_def by (blast dest: actor_ok_id)

lemma others_ok_update:
  assumes ok: "others_ok X items r ords T leds acts ord" and ord: "unat ord < length leds"
    and same: "\<And>j. j \<noteq> acts ! unat ord \<Longrightarrow> j \<noteq> i \<Longrightarrow> dm_get X (by_id r') j = dm_get X (by_id r) j
        \<and> task_slots T' j = task_slots T j \<and> hm_get ords' (actor_key j) = hm_get ords (actor_key j)"
    and gone: "acts ! unat ord \<noteq> i \<Longrightarrow> dm_get X (by_id r') (acts ! unat ord) = None"
    and new: "i = sim_actor_id ord (led_incarnation led)"
  shows "others_ok X items r' ords' T' (leds[unat ord := led]) (acts[unat ord := i]) ord"
proof -
  let ?o = "unat ord"
  have len: "length acts = length leds" using ok by (simp add: others_ok_def)
  have id: "acts ! unat ord' = sim_actor_id ord' (led_incarnation (leds ! unat ord'))"
    if "unat ord' < length leds" for ord'
    using ok that by (simp add: others_ok_def)
  have "actor_ok X items r' ords' T' ord' (leds[?o := led] ! unat ord') (acts[?o := i] ! unat ord')"
    if o: "unat ord' < length leds" and n: "ord' \<noteq> ord" for ord'
  proof -
    have ne: "unat ord' \<noteq> ?o" using n by (simp add: word_unat_eq_iff)
    have "acts ! unat ord' \<noteq> i" "acts ! unat ord' \<noteq> acts ! ?o"
      using id [OF o] id [OF ord] n new sim_actor_id_ord by metis+
    from same [OF this(2,1)]
    have "actor_ok X items r' ords' T' ord' (leds ! unat ord') (acts ! unat ord')
        = actor_ok X items r ords T ord' (leds ! unat ord') (acts ! unat ord')"
      by (intro actor_ok_cong) simp_all
    moreover have "actor_ok X items r ords T ord' (leds ! unat ord') (acts ! unat ord')"
      using ok o n unfolding others_ok_def by blast
    ultimately show ?thesis using ne by simp
  qed
  moreover have "acts[?o := i] ! unat ord' = sim_actor_id ord' (led_incarnation (leds[?o := led] ! unat ord'))"
    if "unat ord' < length leds" for ord'
  proof (cases "ord' = ord")
    case True
    then show ?thesis using new ord len by simp
  next
    case False
    then show ?thesis using id [OF that] by (simp add: word_unat_eq_iff)
  qed
  moreover have "j \<in> set (acts[?o := i])" if "dm_get X (by_id r') j \<noteq> None" for j
  proof (cases "j = i \<or> j = acts ! ?o")
    case True
    then have "j = i" using gone that by metis
    then show ?thesis using ord len by (simp add: set_update_memI)
  next
    case False
    then have "j \<in> set acts" using same [of j] ok that by (auto simp: others_ok_def)
    then obtain k where "k < length acts" "acts ! k = j" by (auto simp: in_set_conv_nth)
    then show ?thesis using False
      by (metis in_set_conv_nth length_list_update nth_list_update_neq)
  qed
  ultimately show ?thesis using len by (simp add: others_ok_def)
qed

lemma actors_ok_rejoin:
  "others_ok X items r ords T leds acts ord \<Longrightarrow> actor_ok X items r ords T ord (leds ! unat ord) (acts ! unat ord)
   \<Longrightarrow> actors_ok X items r ords T leds acts"
  unfolding actors_ok_def others_ok_def by blast

lemma actors_ok_update:
  assumes ok: "actors_ok X items r ords T leds acts" and ord: "unat ord < length leds"
    and same: "\<And>j. j \<noteq> acts ! unat ord \<Longrightarrow> j \<noteq> i \<Longrightarrow> dm_get X (by_id r') j = dm_get X (by_id r) j
        \<and> task_slots T' j = task_slots T j \<and> hm_get ords' (actor_key j) = hm_get ords (actor_key j)"
    and gone: "acts ! unat ord \<noteq> i \<Longrightarrow> dm_get X (by_id r') (acts ! unat ord) = None"
    and new: "actor_ok X items r' ords' T' ord led i"
  shows "actors_ok X items r' ords' T' (leds[unat ord := led]) (acts[unat ord := i])"
proof (rule actors_ok_rejoin)
  have i: "i = sim_actor_id ord (led_incarnation led)" using new by (simp add: actor_ok_def)
  show "others_ok X items r' ords' T' (leds[unat ord := led]) (acts[unat ord := i]) ord"
    by (rule others_ok_update [OF others_ok_if_actors_ok [OF ok] ord same gone i])
  show "actor_ok X items r' ords' T' ord (leds[unat ord := led] ! unat ord) (acts[unat ord := i] ! unat ord)"
    using new ord ok by (simp add: actors_ok_def)
qed

lemma load_ok_update:
  assumes ok: "load_ok leds nm P T"
    and other: "\<And>ord'. unat ord' < length leds \<Longrightarrow> ord' \<noteq> ord \<Longrightarrow>
        app_load P' T' ord' + 2 * unat nm \<le> app_load P T ord' + 2 * unat nm'
        \<and> msg_load P' ord' + 2 * unat nm \<le> msg_load P ord' + 2 * unat nm' \<and> backlog T' ord' \<le> backlog T ord'"
    and own: "unat ord < length leds \<Longrightarrow>
        unat (led_incarnation led) + app_load P' T' ord \<le> 2 * unat nm'
        \<and> unat (led_delivered led) + msg_load P' ord \<le> 2 * unat nm' + 1 + unat (led_incarnation led)
        \<and> backlog T' ord \<le> unat (led_delivered led)"
  shows "load_ok (leds[unat ord := led]) nm' P' T'"
  unfolding load_ok_def Let_def
proof (intro allI impI)
  fix ord' :: u64
  assume "unat ord' < length (leds[unat ord := led])"
  then have o: "unat ord' < length leds" by simp
  let ?l = "leds[unat ord := led] ! unat ord'"
  show "unat (led_incarnation ?l) + app_load P' T' ord' \<le> 2 * unat nm'
    \<and> unat (led_delivered ?l) + msg_load P' ord' \<le> 2 * unat nm' + 1 + unat (led_incarnation ?l)
    \<and> backlog T' ord' \<le> unat (led_delivered ?l)"
  proof (cases "ord' = ord")
    case True
    then show ?thesis using own o by simp
  next
    case False
    then have "?l = leds ! unat ord'" by (simp add: word_unat_eq_iff)
    then show ?thesis
      using ok o other [OF o False] by (auto simp: load_ok_def Let_def dest!: spec [of _ ord'])
  qed
qed

lemma tasks_ok_incs:
  assumes "tasks_ok leds nm T" and "nm \<le> nm'" and "length leds' = length leds"
    and "\<And>k. k < length leds \<Longrightarrow> led_incarnation (leds ! k) \<le> led_incarnation (leds' ! k)"
  shows "tasks_ok leds' nm' T"
  unfolding tasks_ok_def
proof (intro ballI conjI)
  fix t
  assume "t \<in># T"
  note t = bspec [OF assms(1) [unfolded tasks_ok_def] this]
  then show "unat (st_ord t) < length leds'" "shape_ok (task_messages (st_task t)) (st_mids t)"
    using assms(3) by simp_all
  show "\<exists>inc \<le> led_incarnation (leds' ! unat (st_ord t)). task_actor (st_task t) = sim_actor_id (st_ord t) inc"
    using t assms(4) [of "unat (st_ord t)"] by (meson order_trans)
  show "mid < nm'" if "mid \<in> set (st_mids t)" for mid using t that assms(2) by (meson less_le_trans)
qed

lemma tasks_ok_led:
  assumes "tasks_ok leds nm T" and "led_incarnation (leds ! unat (ord :: u64)) \<le> led_incarnation led"
  shows "tasks_ok (leds[unat ord := led]) nm T"
proof (rule tasks_ok_incs [OF assms(1)])
  fix k
  assume "k < length leds"
  then show "led_incarnation (leds ! k) \<le> led_incarnation (leds[unat ord := led] ! k)"
    using assms(2) by (cases "k = unat ord") auto
qed simp_all

lemma flights_ok_mono: "flights_ok n nm P \<Longrightarrow> nm \<le> nm' \<Longrightarrow> flights_ok n nm' P"
  unfolding flights_ok_def by (fastforce dest: less_le_trans)

lemma flights_ok_add [simp]:
  "flights_ok n nm (add_mset (ord, msgs, mids) P) \<longleftrightarrow>
     unat ord < n \<and> shape_ok msgs mids \<and> (\<forall>mid \<in> set mids. mid < nm) \<and> flights_ok n nm P"
  by (simp add: flights_ok_def)

lemma tasks_ok_add [simp]:
  "tasks_ok leds nm (add_mset t T) \<longleftrightarrow>
     unat (st_ord t) < length leds
     \<and> (\<exists>inc \<le> led_incarnation (leds ! unat (st_ord t)). task_actor (st_task t) = sim_actor_id (st_ord t) inc)
     \<and> shape_ok (task_messages (st_task t)) (st_mids t) \<and> (\<forall>mid \<in> set (st_mids t). mid < nm)
     \<and> tasks_ok leds nm T"
  by (auto simp: tasks_ok_def)

end
