(* ===== verification/Sim_Delivery.thy ===== *)
theory Sim_Delivery
  imports Sim_Invariant
begin

text \<open>
  Deliveries keep the invariant and never panic: an attempt rejects, parks or books the
  delivery that was in hand; sends, due timers and retries are sequences of attempts.
\<close>

text \<open>What a delivery leaves alone.\<close>

definition settled :: "('d, 'r) sim \<Rightarrow> ('d, 'r) sim \<Rightarrow> bool" where
  "settled s s' =
     (same_world s s' \<and> next_mid s' = next_mid s \<and> delayed s' = delayed s
      \<and> length (blocked s) \<le> length (blocked s') \<and> tasks s \<subseteq># tasks s')"

context registry_env
begin

abbreviation ok :: "sim_env \<Rightarrow> flight multiset \<Rightarrow> sim_task multiset \<Rightarrow> ('d, 'r) sim \<Rightarrow> bool" where
  "ok \<equiv> sim_ok X items cap permits idle dinv"

abbreviation world_inv :: "sim_env \<Rightarrow> flight multiset \<Rightarrow> ('d, 'r) sim \<Rightarrow> bool" where
  "world_inv \<equiv> sim_inv X items cap permits idle dinv"

section \<open>One attempt\<close>

lemma ok_drop_flight:
  assumes ok: "ok E (add_mset (ord, msgs, mids) P) T s" and quiet: "\<forall>x \<in> set xs. \<not> is_restart x"
    and rough: "mids = [] \<or> \<not> gentle (cfg_faults (sim_cfg s))"
  shows "ok E P T (s\<lparr>mid_lost := lose mids (mid_lost s), stats := st, trace := trace s @ xs\<rparr>)"
proof -
  have id: "idents_ok (float_is_zero (duplicate_prob (cfg_faults (sim_cfg s)))) (next_mid s) (mid_times s) (mid_lost s)
      (add_mset (ord, msgs, mids) P) T" and fl: "\<forall>mid \<in> set mids. mid < next_mid s"
    using ok by (simp_all add: sim_ok_def)
  have "unat mid < length (mid_lost s)" if "mid \<in> set mids" for mid
    using id fl that by (auto simp: idents_ok_def word_less_nat_alt dest!: bspec)
  then have "idents_ok (float_is_zero (duplicate_prob (cfg_faults (sim_cfg s)))) (next_mid s) (mid_times s)
      (lose mids (mid_lost s)) P T"
    by (intro idents_ok_lose [OF id, of mids]) (auto simp: lose_in lose_mono)
  moreover have "load_ok (ledger s) (next_mid s) P T"
    using ok by (fastforce simp: sim_ok_def load_ok_def Let_def)
  moreover have "calm_ok (gentle (cfg_faults (sim_cfg s))) (ledger s) (lose mids (mid_lost s))"
    using rough ok by (auto simp: sim_ok_def calm_ok_def lose_def)
  ultimately show ?thesis using ok sup_ok_quiet [OF quiet] by (simp add: sim_ok_def)
qed

lemma park_parts:
  "\<exists>st xs. park ord msgs mids was s = s\<lparr>stats := st, trace := trace s @ xs,
       blocked := blocked s @ [\<lparr>dp_ord = ord, dp_msgs = msgs, dp_mids = mids, was_blocked = True\<rparr>]\<rparr>
     \<and> (\<forall>x \<in> set xs. \<not> is_restart x)"
proof -
  let ?xs = "case mids of [] \<Rightarrow> [] | first # _ \<Rightarrow> if was then [] else [OpBlocked first (of_nat (length mids)) ord]"
  have "\<forall>x \<in> set ?xs. \<not> is_restart x" by (auto simp: is_restart_def split: list.splits)
  then show ?thesis
    by (intro exI [of _ "(stats s)\<lparr>ss_blocked := ss_blocked (stats s) + 1\<rparr>"] exI [of _ ?xs])
       (simp add: park_def push_trace_def Let_def split: list.splits)
qed

lemma ok_park:
  assumes "ok E P T s" and "\<forall>x \<in> set xs. \<not> is_restart x"
  shows "ok E P T (s\<lparr>stats := st, trace := trace s @ xs, blocked := bl\<rparr>)"
  using assms sup_ok_quiet [OF assms(2)] by (simp add: sim_ok_def)

lemma actor_ok_deliver:
  assumes ok: "actor_ok X items r ords T ord led i" and e: "dm_get X (by_id r) i = Some e"
    and e': "dm_get X (by_id r') i = Some e'" "entry_state e' = entry_state e" "entry_name e' = entry_name e"
      "slots items e' = slots items e + length msgs"
    and t: "task_actor (st_task t) = i" "length (task_messages (st_task t)) = length msgs"
    and b: "unat (led_delivered led) + length msgs < 2 ^ 64"
  shows "actor_ok X items r' ords (add_mset t T) ord
    (led\<lparr>led_delivered := led_delivered led + of_nat (length msgs), led_queued := q\<rparr>) i"
proof -
  have "unat (of_nat (length msgs) :: u64) = length msgs" using b by (intro unat_of_nat_small) simp
  then have "unat (led_delivered led + of_nat (length msgs)) = unat (led_delivered led) + length msgs"
    using b by (subst unat_add_no_wrap) simp_all
  with ok [unfolded actor_ok_def e option.case] e'(2-4) t show ?thesis
    unfolding actor_ok_def e'(1) option.case by auto
qed

lemma ok_book_delivery:
  assumes ok: "ok E (add_mset (ord, msgs, mids) P) T s"
    and i: "i = actors s ! unat ord" and e: "dm_get X (by_id (sim_registry s)) i = Some e"
    and r: "reg_inv r'" "upd i (\<lambda>e. e\<lparr>mailbox := mb\<rparr>) (sim_registry s) r'"
      "lanes_len (lanes_of items mb) = slots items e + length msgs"
  shows "\<exists>t s'. book_delivery ord i msgs mids was (s\<lparr>sim_registry := r'\<rparr>) = Some s'
    \<and> ok E P (add_mset t T) s' \<and> ready s' = ready_push t (ready s) \<and> delayed s' = delayed s \<and> blocked s' = blocked s
    \<and> next_mid s' = next_mid s \<and> same_world s s' \<and> st_mids t = mids"
proof -
  let ?led = "ledger s ! unat ord"
  let ?led' = "?led\<lparr>led_delivered := led_delivered ?led + of_nat (length msgs),
      led_queued := led_queued ?led + of_nat (length mids)\<rparr>"
  note parts = ok [unfolded sim_ok_def]
  have ord: "unat ord < length (ledger s)" and sh: "shape_ok msgs mids" and fl: "\<forall>mid \<in> set mids. mid < next_mid s"
    using parts by simp_all
  obtain m ms where msgs: "msgs = m # ms" using shape_okD(1) [OF sh] by (cases msgs) auto
  define t where "t = \<lparr>st_ord = ord, st_task = \<lparr>task_actor = i, task_message = m, task_priority = max_priority msgs,
      additional_messages = ms\<rparr>, st_mids = mids\<rparr>"
  have t: "task_messages (st_task t) = msgs" "task_actor (st_task t) = i" "st_ord t = ord" "st_mids t = mids"
    by (simp_all add: t_def task_messages_def msgs)
  have k: "length (task_messages (st_task t)) = Suc (length ms)" by (simp add: t msgs)
  define xs where "xs = (case mids of [] \<Rightarrow> [] | first # _ \<Rightarrow> [OpDeliver first (of_nat (length mids)) ord])"
  define s' where "s' = s\<lparr>sim_registry := r', ledger := (ledger s)[unat ord := ?led'],
      stats := (stats s)\<lparr>ss_delivered := ss_delivered (stats s) + of_nat (length msgs),
                         ss_unblocked := ss_unblocked (stats s) + of_bool was\<rparr>,
      trace := trace s @ xs, ready := ready_push t (ready s)\<rparr>"
  have book: "book_delivery ord i msgs mids was (s\<lparr>sim_registry := r'\<rparr>) = Some s'"
    using ord by (simp add: book_delivery_def msgs index_def s'_def xs_def t_def push_trace_def split: list.split)
  have act: "actor_ok X items (sim_registry s) (ordinals s) T ord ?led i"
    using parts ord i by (simp add: actors_ok_def)
  have "unat (led_delivered ?led) + length msgs < 2 ^ 24"
    using inc_bound(2) [of "ledger s" "next_mid s" "add_mset (ord, msgs, mids) P" T] parts ord by fastforce
  then have b: "unat (led_delivered ?led) + length msgs < 2 ^ 64"
    by (rule less_trans) simp
  have dl: "unat (led_delivered ?led') = unat (led_delivered ?led) + length msgs"
    using b unat_of_nat_small [where 'a = 64, of "length msgs"] by (simp add: unat_add_no_wrap)
  have "actor_ok X items r' (ordinals s) (add_mset t T) ord ?led' i"
    by (rule actor_ok_deliver [OF act e upd_same [OF r(2) e]]) (use t b r(3) in simp_all)
  moreover have "dm_get X (by_id r') j = dm_get X (by_id (sim_registry s)) j \<and> task_slots (add_mset t T) j = task_slots T j"
    if "j \<noteq> i" for j
    using upd_other [OF r(2) that] that t by simp
  ultimately have "actors_ok X items r' (ordinals s) (add_mset t T) ((ledger s)[unat ord := ?led']) (actors s)"
    using actors_ok_update [of X items "sim_registry s" "ordinals s" T "ledger s" "actors s" ord i r'
        "add_mset t T" "ordinals s" ?led'] parts ord i by simp
  moreover have "tasks_ok ((ledger s)[unat ord := ?led']) (next_mid s) (add_mset t T)"
  proof -
    have "tasks_ok ((ledger s)[unat ord := ?led']) (next_mid s) T"
      by (rule tasks_ok_incs [of "ledger s" "next_mid s"])
         (use parts ord in \<open>auto simp: nth_list_update\<close>)
    then show ?thesis
      using act ord t sh fl by (auto simp: actor_ok_def intro: exI [of _ "led_incarnation ?led"])
  qed
  moreover have "load_ok ((ledger s)[unat ord := ?led']) (next_mid s) P (add_mset t T)"
    using parts ord dl t k
    by (intro load_ok_update [of "ledger s" "next_mid s" "add_mset (ord, msgs, mids) P" T])
       (auto simp: load_ok_def Let_def dest!: spec [of _ ord])
  moreover have "idents_ok (float_is_zero (duplicate_prob (cfg_faults (sim_cfg s)))) (next_mid s) (mid_times s)
      (mid_lost s) P (add_mset t T)"
    using parts t by (simp add: idents_ok_def)
  moreover have "calm_ok (gentle (cfg_faults (sim_cfg s))) ((ledger s)[unat ord := ?led']) (mid_lost s)"
    using parts by (intro calm_ok_update) simp_all
  moreover have "\<forall>x \<in> set xs. \<not> is_restart x" by (auto simp: xs_def is_restart_def split: list.splits)
  ultimately have "ok E P (add_mset t T) s'"
    using parts r(1) sup_ok_quiet [of xs] by (simp add: sim_ok_def s'_def)
  then show ?thesis
    using book upd_config [OF r(2)] t(4) by (intro exI [of _ t] exI [of _ s']) (simp add: s'_def same_world_def)
qed

lemma gentle_alive:
  assumes ok: "ok E P T s" and g: "gentle (cfg_faults (sim_cfg s))" and ord: "unat ord < length (ledger s)"
  shows "\<exists>e. dm_get X (by_id (sim_registry s)) (actors s ! unat ord) = Some e \<and> active e"
    and "actors s ! unat ord = sim_actor_id ord 0"
proof -
  note parts = ok [unfolded sim_ok_def]
  have a: "actor_ok X items (sim_registry s) (ordinals s) T ord (ledger s ! unat ord) (actors s ! unat ord)"
    using parts ord unfolding actors_ok_def by blast
  have led: "led_alive (ledger s ! unat ord)" "led_incarnation (ledger s ! unat ord) = 0"
    using parts g nth_mem [OF ord] unfolding calm_ok_def by blast+
  show "\<exists>e. dm_get X (by_id (sim_registry s)) (actors s ! unat ord) = Some e \<and> active e"
    using a led(1) unfolding actor_ok_def by (cases "dm_get X (by_id (sim_registry s)) (actors s ! unat ord)") auto
  show "actors s ! unat ord = sim_actor_id ord 0" using actor_ok_id [OF a] led(2) by simp
qed

lemma attempt_delivery_inv:
  assumes inv: "world_inv E (add_mset (ord, msgs, mids) H) s"
  shows "\<exists>s'. attempt_delivery X ord msgs mids was s = Some s' \<and> world_inv E H s' \<and> settled s s'
    \<and> work (pending_flights s') (tasks s') \<le> work (add_mset (ord, msgs, mids) (pending_flights s)) (tasks s)
    \<and> (3 \<le> unat (capacity (default_config (sim_registry s))) \<longrightarrow> tasks s' = {#} \<longrightarrow>
         work (pending_flights s') (tasks s') < work (add_mset (ord, msgs, mids) (pending_flights s)) (tasks s))"
proof -
  let ?P = "pending_flights s + H" and ?i = "actors s ! unat ord"
  have ok: "ok E (add_mset (ord, msgs, mids) ?P) (tasks s) s" and qd: "queued_ok (ready s)"
    using inv by (simp_all add: sim_inv_def)
  note parts = ok [unfolded sim_ok_def]
  have ord: "unat ord < length (ledger s)" and sh: "shape_ok msgs mids" using parts by simp_all
  have reg: "reg_inv (sim_registry s)" using parts by blast
  have ix: "index (actors s) ord = Some ?i" using parts ord by (simp add: index_def actors_ok_def)
  have len: "unat (of_nat (length msgs) :: u64) = length msgs"
    using shape_okD(2) [OF sh] by (intro unat_of_nat_small) simp
  consider (dead) "get_state X (sim_registry s) ?i \<in> {None, Some Stopped, Some Failed}"
    | (alive) e where "get_state X (sim_registry s) ?i \<notin> {None, Some Stopped, Some Failed}"
        "dm_get X (by_id (sim_registry s)) ?i = Some e"
    by (cases "dm_get X (by_id (sim_registry s)) ?i") (auto simp: get_state_def)
  then show ?thesis
  proof cases
    case dead
    obtain st where f: "fold (reject_one DeadTarget ord) mids s = s\<lparr>mid_lost := lose mids (mid_lost s), stats := st,
        trace := trace s @ map (\<lambda>mid. OpReject mid ord DeadTarget) mids\<rparr>" (is "_ = ?s'")
      using fold_reject_one by blast
    have "\<not> gentle (cfg_faults (sim_cfg s))" using gentle_alive(1) [OF ok _ ord] dead by (auto simp: get_state_def)
    then have "ok E ?P (tasks s) ?s'" by (intro ok_drop_flight [OF ok]) (simp_all add: is_restart_def)
    then have "world_inv E H ?s'" using qd by (simp add: sim_inv_def pending_flights_def)
    moreover have "pending_flights ?s' = pending_flights s" by (simp add: pending_flights_def)
    ultimately show ?thesis
      using ix dead f by (simp add: attempt_delivery_def settled_def same_world_def)
  next
    case (alive e)
    have live: "attempt_delivery X ord msgs mids was s =
        (if remaining_capacity (mailbox e) < of_nat (length msgs) then Some (park ord msgs mids was s)
         else Option.bind (try_send_all X msgs (mailbox e))
           (\<lambda>mb. book_delivery ord ?i msgs mids was (s\<lparr>sim_registry := put_mailbox X ?i mb (sim_registry s)\<rparr>)))"
      unfolding attempt_delivery_def ix Option.bind.simps using alive(1)
      by (simp only: if_False) (simp add: get_mailbox_def alive(2))
    show ?thesis
    proof (cases "remaining_capacity (mailbox e) < of_nat (length msgs)")
      case True
      obtain st xs where pk: "park ord msgs mids was s = s\<lparr>stats := st, trace := trace s @ xs,
          blocked := blocked s @ [\<lparr>dp_ord = ord, dp_msgs = msgs, dp_mids = mids, was_blocked = True\<rparr>]\<rparr>" (is "_ = ?s'")
        "\<forall>x \<in> set xs. \<not> is_restart x"
        using park_parts by blast
      have "ok E (add_mset (ord, msgs, mids) ?P) (tasks s) ?s'" by (rule ok_park [OF ok pk(2)])
      then have "world_inv E H ?s'" using qd by (simp add: sim_inv_def pending_flights_def flight_of_def)
      moreover have "pending_flights ?s' = add_mset (ord, msgs, mids) (pending_flights s)"
        by (simp add: pending_flights_def flight_of_def)
      moreover have "tasks s \<noteq> {#}" if "3 \<le> unat (capacity (default_config (sim_registry s)))"
      proof -
        have "0 < slots items e"
          using True len mailbox_len(2) [OF reg alive(2)] shape_okD(2) [OF sh] that by (simp add: word_less_nat_alt)
        moreover have "slots items e = task_slots (tasks s) ?i"
          using parts ord alive(2) by (auto simp: actors_ok_def actor_ok_def dest!: spec [of _ ord])
        ultimately show ?thesis by auto
      qed
      ultimately show ?thesis
        using True pk(1) by (simp add: live settled_def same_world_def)
    next
      case False
      then have "length msgs \<le> unat (remaining_capacity (mailbox e))" using len by (simp add: word_less_nat_alt)
      from deliver_into_mailbox [OF reg alive(2) this] obtain mb where
        mb: "try_send_all X msgs (mailbox e) = Some mb" "reg_inv (put_mailbox X ?i mb (sim_registry s))"
          "upd ?i (\<lambda>e. e\<lparr>mailbox := mb\<rparr>) (sim_registry s) (put_mailbox X ?i mb (sim_registry s))"
          "lanes_len (lanes_of items mb) = slots items e + length msgs"
        by blast
      from ok_book_delivery [OF ok refl alive(2) mb(2-4), of was] obtain t s' where
        s': "book_delivery ord ?i msgs mids was (s\<lparr>sim_registry := put_mailbox X ?i mb (sim_registry s)\<rparr>) = Some s'"
          "ok E ?P (add_mset t (tasks s)) s'" "ready s' = ready_push t (ready s)" "delayed s' = delayed s"
          "blocked s' = blocked s" "next_mid s' = next_mid s" "same_world s s'" "st_mids t = mids"
        by blast
      have pf: "pending_flights s' = pending_flights s" using s'(4,5) by (simp add: pending_flights_def)
      have "world_inv E H s'" using s'(2,3) pf qd by (simp add: sim_inv_def)
      moreover have "attempt_delivery X ord msgs mids was s = Some s'"
        using False mb(1) s'(1) by (simp add: live)
      ultimately show ?thesis using s' pf by (simp add: settled_def)
    qed
  qed
qed

end

end
