(* ===== verification/Sim_Workload.thy ===== *)
theory Sim_Workload
  imports Sim_Delivery
begin

text \<open>
  Sends, due timers and retries: each is a sequence of deliveries around changes that the
  invariant does not see, so none of them panics and all of them keep it.
\<close>

section \<open>Draws and timers\<close>

lemma mset_heap_push [simp]: "mset (heap_push a xs) = add_mset a (mset xs)"
  by (induction xs) auto

lemma set_heap_push [simp]: "set (heap_push a xs) = insert a (set xs)"
  by (induction xs) auto

lemma settled_refl [simp]: "settled s s"
  by (simp add: settled_def)

lemma rng_same [simp]: "\<exists>r. s = s\<lparr>rng := r\<rparr>"
  by (rule exI [of _ "rng s"]) simp

lemma sim_roll_rng:
  obtains b r where "sim_roll R p s = (b, s\<lparr>rng := r\<rparr>)" "b \<longrightarrow> \<not> float_le_zero p"
proof (cases "float_le_zero p")
  case True
  then show ?thesis by (intro that [of False "rng s"]) (simp_all add: sim_roll_def roll_def)
next
  case False
  then show ?thesis
    by (intro that [of "float_less (fst (next_f64 R (rng s))) p" "snd (next_f64 R (rng s))"])
       (simp_all add: sim_roll_def roll_def split: prod.splits)
qed

lemma sim_roll_if:
  obtains b r where "(if c then sim_roll R p s else (False, s)) = (b, s\<lparr>rng := r\<rparr>)" "b \<longrightarrow> c \<and> \<not> float_le_zero p"
proof (cases c)
  case True
  obtain b r where "sim_roll R p s = (b, s\<lparr>rng := r\<rparr>)" "b \<longrightarrow> \<not> float_le_zero p" by (rule sim_roll_rng)
  then show ?thesis using True by (intro that [of b r]) simp_all
next
  case False
  then show ?thesis by (intro that [of False "rng s"]) simp_all
qed

lemma sim_below_rng:
  assumes "n \<noteq> 0"
  obtains v r where "sim_below R n s = Some (v, s\<lparr>rng := r\<rparr>)" "v < n"
  using below_less [OF assms, of R "rng s"] that by (auto simp: sim_below_def)

lemma sim_range_rng:
  assumes "\<not> (lo = 0 \<and> hi = - 1)"
  obtains v r where "sim_range R lo hi s = Some (v, s\<lparr>rng := r\<rparr>)" "lo \<le> hi \<longrightarrow> lo \<le> v \<and> v \<le> hi" "v \<le> max lo hi"
proof (cases "lo \<le> hi")
  case True
  from range_bounds [OF True assms, of R "rng s"] show ?thesis using that True by (auto simp: sim_range_def max_def)
next
  case False
  then have "hi \<le> lo" by simp
  then show ?thesis using False by (intro that [of lo "rng s"]) (simp_all add: sim_range_def range_incl_def)
qed

lemma draw_len_rng:
  assumes "0 < remaining"
  shows "\<exists>len r. draw_len R remaining s = Some (len, s\<lparr>rng := r\<rparr>) \<and> 0 < len \<and> len \<le> 3 \<and> len \<le> remaining"
proof (cases "1 < remaining")
  case True
  obtain b r where b: "sim_roll R (f64_ratio 1 8) s = (b, s\<lparr>rng := r\<rparr>)" by (rule sim_roll_rng)
  have "2 \<le> remaining" using True by (metis inc_le one_add_one)
  then have "(2 :: u64) \<le> min remaining 3" by simp
  moreover obtain v r' where "sim_range R 2 (min remaining 3) (s\<lparr>rng := r\<rparr>) = Some (v, s\<lparr>rng := r, rng := r'\<rparr>)"
      "2 \<le> min remaining 3 \<longrightarrow> 2 \<le> v \<and> v \<le> min remaining 3"
    by (rule sim_range_rng [of 2 "min remaining 3"]) simp
  ultimately have v: "sim_range R 2 (min remaining 3) (s\<lparr>rng := r\<rparr>) = Some (v, s\<lparr>rng := r'\<rparr>)" "2 \<le> v"
      "v \<le> min remaining 3"
    by simp_all
  have "0 < v" using v(2) by (auto simp: word_le_nat_alt word_less_nat_alt)
  then show ?thesis
    using True b v assms by (cases b) (auto simp: draw_len_def inc_le)
next
  case False
  moreover have "1 \<le> remaining" using assms by (simp add: word_le_nat_alt word_less_nat_alt)
  ultimately show ?thesis
    by (intro exI [of _ 1] exI [of _ "rng s"]) (simp add: draw_len_def)
qed

text \<open>Without delays and duplicates nothing waits for a timer.\<close>

definition punctual :: "fault_config \<Rightarrow> bool" where
  "punctual f = (float_le_zero (delay_prob f) \<and> float_le_zero (duplicate_prob f))"

text \<open>What the draws of an injection need of the configuration.\<close>

definition config_ready :: "('d, 'r) sim \<Rightarrow> bool" where
  "config_ready s =
     (cfg_actors (sim_cfg s) \<noteq> 0 \<and> unat (cfg_actors (sim_cfg s)) = length (ledger s)
      \<and> \<not> (delay_ticks_min (cfg_faults (sim_cfg s)) = 0 \<and> delay_ticks_max (cfg_faults (sim_cfg s)) = - 1))"

lemma config_ready_same: "same_world s s' \<Longrightarrow> config_ready s' = config_ready s"
  by (simp add: same_world_def config_ready_def)

text \<open>The longest time that a delivery can wait for its timer, that of a duplicate included.\<close>

definition lag :: "fault_config \<Rightarrow> nat" where
  "lag f = (if float_le_zero (delay_prob f) then 0 else unat (max (delay_ticks_min f) (delay_ticks_max f))) + 2"

definition timely :: "nat \<Rightarrow> ('d, 'r) sim \<Rightarrow> bool" where
  "timely B s = (\<forall>l \<in> set (delayed s). unat (dl_at l) \<le> B)"

text \<open>The work that is left when deliveries can be duplicated.\<close>

definition toil :: "('d, 'r) sim \<Rightarrow> nat" where
  "toil s = 2 * (length (mid_times s) - unat (next_mid s)) + work_left s"

lemma timely_mono: "timely B s \<Longrightarrow> set (delayed s') \<subseteq> set (delayed s) \<Longrightarrow> timely B s'"
  by (auto simp: timely_def)

lemma timely_new:
  assumes "timely B s" and "set (delayed s') \<subseteq> set (delayed s) \<union> {l. dl_at l = tick s + d \<or> dl_at l = tick s + (d + DUPLICATE_GAP_TICKS)}"
    and "unat d + 2 \<le> n" and "unat (tick s) + n \<le> B"
  shows "timely B s'"
proof -
  have add: "unat (a + b :: u64) \<le> unat a + unat b" for a b by (simp add: unat_word_ariths)
  have "unat (d + DUPLICATE_GAP_TICKS) \<le> unat d + 2" using add [of d 2] by (simp add: DUPLICATE_GAP_TICKS_def)
  then have "unat (tick s + d) \<le> B" "unat (tick s + (d + DUPLICATE_GAP_TICKS)) \<le> B"
    using add [of "tick s" d] add [of "tick s" "d + DUPLICATE_GAP_TICKS"] assms(3,4) by linarith+
  then show ?thesis using assms(1,2) unfolding timely_def by fastforce
qed

lemma draw_delay_rng:
  assumes c: "config_ready s"
  obtains d r where "draw_delay R s = Some (d, s\<lparr>rng := r\<rparr>)" "float_le_zero (delay_prob (cfg_faults (sim_cfg s))) \<longrightarrow> d = 0"
    "unat d + 2 \<le> lag (cfg_faults (sim_cfg s))"
proof -
  obtain b r where b: "sim_roll R (delay_prob (cfg_faults (sim_cfg s))) s = (b, s\<lparr>rng := r\<rparr>)"
      "b \<longrightarrow> \<not> float_le_zero (delay_prob (cfg_faults (sim_cfg s)))"
    by (rule sim_roll_rng)
  let ?f = "cfg_faults (sim_cfg s)"
  obtain v r' where "sim_range R (delay_ticks_min ?f) (delay_ticks_max ?f) (s\<lparr>rng := r\<rparr>) = Some (v, s\<lparr>rng := r, rng := r'\<rparr>)"
      "v \<le> max (delay_ticks_min ?f) (delay_ticks_max ?f)"
    by (rule sim_range_rng [of "delay_ticks_min ?f" "delay_ticks_max ?f" R "s\<lparr>rng := r\<rparr>"])
       (use c in \<open>auto simp: config_ready_def\<close>)
  then show ?thesis using b that by (cases b) (auto simp: draw_delay_def Let_def lag_def word_le_nat_alt)
qed

lemma mids_from_facts:
  assumes "unat first + unat len < 2 ^ 64"
  shows "length (mids_from first len) = unat len" and "distinct (mids_from first len)"
    and "set (mids_from first len) = {mid. first \<le> mid \<and> mid < first + len}"
proof -
  have u: "unat (first + of_nat k) = unat first + k" if "k < unat len" for k
  proof -
    have "unat (of_nat k :: u64) = k" using that assms by (intro unat_of_nat_small) simp
    then show ?thesis using that assms by (subst unat_add_no_wrap) simp_all
  qed
  have l: "unat (first + len) = unat first + unat len" using assms by (simp add: unat_add_no_wrap)
  show "length (mids_from first len) = unat len" by (simp add: mids_from_def)
  show "distinct (mids_from first len)"
    unfolding mids_from_def distinct_map using u by (auto intro!: inj_onI) (metis add_left_cancel u)
  show "set (mids_from first len) = {mid. first \<le> mid \<and> mid < first + len}"
  proof (intro set_eqI iffI)
    fix mid
    assume "mid \<in> set (mids_from first len)"
    then show "mid \<in> {mid. first \<le> mid \<and> mid < first + len}"
      using u l by (auto simp: mids_from_def word_le_nat_alt word_less_nat_alt)
  next
    fix mid
    assume m: "mid \<in> {mid. first \<le> mid \<and> mid < first + len}"
    then have k: "unat mid - unat first < unat len" "unat first \<le> unat mid"
      using l by (auto simp: word_le_nat_alt word_less_nat_alt)
    then have "mid = first + of_nat (unat mid - unat first)" using u [OF k(1)] by (simp add: word_unat_eq_iff)
    then show "mid \<in> set (mids_from first len)" using k(1) by (auto simp: mids_from_def)
  qed
qed

lemma count_list_distinct: "distinct xs \<Longrightarrow> count_list xs x = (if x \<in> set xs then 1 else 0)"
  by (induction xs) auto

lemma copies_fresh:
  assumes "flights_ok n nm P" and "tasks_ok leds nm T" and "nm \<le> mid"
  shows "copies P T mid = 0"
proof -
  have "count_list (snd (snd f)) mid = 0" if "f \<in># P" for f
    using assms(1,3) that by (fastforce simp: flights_ok_def count_list_0_iff)
  moreover have "count_list (st_mids t) mid = 0" if "t \<in># T" for t
    using assms(2,3) that by (fastforce simp: tasks_ok_def count_list_0_iff)
  ultimately show ?thesis by (simp add: copies_def)
qed

lemma len_budget:
  "0 < len \<Longrightarrow> len \<le> 3 \<Longrightarrow> len \<le> b - nm \<Longrightarrow> nm < b \<Longrightarrow>
     0 < unat len \<and> unat len \<le> 3 \<and> unat (nm :: u64) + unat len \<le> unat b"
  by (auto simp: word_le_nat_alt word_less_nat_alt unat_sub_if_size split: if_splits)

lemma float_le_zero_if_zero: "float_is_zero p \<Longrightarrow> float_le_zero p"
  by (simp add: float_is_zero_def float_le_zero_def split: float.splits)

context registry_env
begin

section \<open>Sending\<close>

lemma world_inv_rng [simp]: "world_inv E H (s\<lparr>rng := r\<rparr>) = world_inv E H s"
  by (simp add: sim_inv_def sim_ok_def pending_flights_def)

lemma world_inv_stats [simp]: "world_inv E H (s\<lparr>stats := st\<rparr>) = world_inv E H s"
  by (simp add: sim_inv_def sim_ok_def pending_flights_def)

lemma ok_announce:
  assumes ok: "ok E P T s" and ord: "unat ord < length (ledger s)"
    and len: "0 < unat len" "unat len \<le> 3" "unat (next_mid s) + unat len \<le> length (mid_times s)"
    and f: "f = (ord, map (sim_message p) (mids_from (next_mid s) len), mids_from (next_mid s) len)"
    and P': "P' = add_mset f P
      \<or> P' = add_mset f (add_mset f P) \<and> \<not> float_is_zero (duplicate_prob (cfg_faults (sim_cfg s)))"
  shows "ok E P' T (announce_send len ord s)"
proof -
  let ?nm = "next_mid s" and ?nm' = "next_mid s + len" and ?dup = "float_is_zero (duplicate_prob (cfg_faults (sim_cfg s)))"
  note parts = ok [unfolded sim_ok_def]
  have small: "length (mid_times s) < 2 ^ 20" using parts by (simp add: idents_ok_def)
  have nm': "unat ?nm' = unat ?nm + unat len" using len small by (simp add: unat_add_no_wrap)
  then have le: "?nm \<le> ?nm'" by (simp add: word_le_nat_alt)
  have "unat ?nm + unat len < 2 ^ 64" using len small by simp
  note mids = mids_from_facts [OF this]
  have fl: "flights_ok (length (ledger s)) ?nm' P'"
  proof -
    have "flights_ok (length (ledger s)) ?nm' P" using flights_ok_mono [OF _ le] parts by blast
    moreover have "shape_ok (fst (snd f)) (snd (snd f))" using mids(1) len by (auto simp: f shape_ok_def)
    moreover have "flights_ok (length (ledger s)) ?nm' (add_mset f Q)"
      if "flights_ok (length (ledger s)) ?nm' Q" "shape_ok (fst (snd f)) (snd (snd f))" for Q
      using that ord mids(3) by (simp add: f)
    ultimately show ?thesis using P' by blast
  qed
  have tk: "tasks_ok (ledger s) ?nm' T"
    by (rule tasks_ok_incs [of "ledger s" ?nm]) (use parts le in auto)
  have ld: "load_ok (ledger s) ?nm' P' T"
    using load_ok_update [of "ledger s" ?nm P T ord P' T ?nm' "ledger s ! unat ord"] parts P' nm' mids(1)
    by (auto simp: f load_ok_def Let_def dest!: spec [of _ ord])
  have fresh: "copies P T mid = 0" if "?nm \<le> mid" for mid using copies_fresh parts that by blast
  have cp: "copies P' T mid = (if mid \<in> set (mids_from ?nm len) then if P' = add_mset f P then 1 else 2 else 0) + copies P T mid"
    for mid
    using P' mids(2) by (auto simp: f count_list_distinct)
  have id: "idents_ok ?dup ?nm' (mid_times s) (mid_lost s) P' T"
  proof -
    have io: "idents_ok ?dup ?nm (mid_times s) (mid_lost s) P T" using parts by blast
    have new: "mid \<in> set (mids_from ?nm len) \<longleftrightarrow> ?nm \<le> mid \<and> mid < ?nm'" for mid using mids(3) by simp
    have "mid_times s ! unat mid \<noteq> 0 \<or> mid_lost s ! unat mid \<or> 0 < copies P' T mid" if "mid < ?nm'" for mid
      using io that new [of mid] unfolding cp idents_ok_def by (cases "?nm \<le> mid") auto
    moreover have "unat (mid_times s ! unat mid) + copies P' T mid \<le> 1" if "mid < ?nm'" ?dup for mid
    proof (cases "?nm \<le> mid")
      case True
      have "unat mid < length (mid_times s)" using that(1) nm' len(3) by (simp add: word_less_nat_alt)
      then have "mid_times s ! unat mid = 0" using io True by (simp add: idents_ok_def)
      then show ?thesis using cp [of mid] fresh [OF True] P' that(2) by auto
    next
      case False
      then show ?thesis using io that(2) new [of mid] unfolding cp idents_ok_def by auto
    qed
    ultimately show ?thesis using io le nm' len(3) unfolding idents_ok_def by auto
  qed
  show ?thesis
    using parts fl tk ld id sup_ok_quiet [of "[if 1 < len then OpBatchSend ?nm len ord else OpSend ?nm ord]"]
    by (simp add: sim_ok_def announce_send_def push_trace_def is_restart_def Let_def)
qed

lemma deliver_or_block_inv:
  assumes inv: "world_inv E (add_mset (ord, msgs, mids) H) s"
  shows "\<exists>s'. deliver_or_block X ord msgs mids delay s = Some s' \<and> world_inv E H s' \<and> same_world s s'
    \<and> next_mid s' = next_mid s \<and> (delay = 0 \<longrightarrow> delayed s' = delayed s)
    \<and> set (delayed s') \<subseteq> set (delayed s) \<union> {l. dl_at l = tick s + delay}
    \<and> work (pending_flights s') (tasks s') \<le> work (add_mset (ord, msgs, mids) (pending_flights s)) (tasks s)"
proof (cases "0 < delay")
  case True
  then have "delay \<noteq> 0" by simp
  with True show ?thesis
    using inv by (simp add: deliver_or_block_def sim_inv_def sim_ok_def pending_flights_def flight_of_def same_world_def Let_def)

next
  case False
  then show ?thesis
    using attempt_delivery_inv [OF inv, of False] by (auto simp: deliver_or_block_def settled_def)
qed

section \<open>Due and parked deliveries\<close>

lemma deliver_due_inv:
  "world_inv E {#} s \<Longrightarrow> \<exists>s'. deliver_due_loop X n s = Some s' \<and> world_inv E {#} s' \<and> same_world s s'
     \<and> next_mid s' = next_mid s \<and> set (delayed s') \<subseteq> set (delayed s)
     \<and> (length (delayed s) \<le> n \<longrightarrow> timely (unat (tick s)) s \<longrightarrow> delayed s' = [])
     \<and> work (pending_flights s') (tasks s') \<le> work (pending_flights s) (tasks s)"
proof (induction n arbitrary: s)
  case (Suc n)
  show ?case
  proof (cases "delayed s = [] \<or> tick s < dl_at (hd (delayed s))")
    case True
    then show ?thesis using Suc.prems by (cases "delayed s") (auto simp: timely_def word_less_nat_alt)
  next
    case False
    then obtain l ls where l: "delayed s = l # ls" "\<not> tick s < dl_at l" by (cases "delayed s") auto
    let ?p = "dl_payload l"
    let ?s = "s\<lparr>delayed := ls, stats := (stats s)\<lparr>ss_delayed := ss_delayed (stats s) + 1\<rparr>\<rparr>"
    have "world_inv E {#(dp_ord ?p, dp_msgs ?p, dp_mids ?p)#} ?s"
      using Suc.prems l by (simp add: sim_inv_def sim_ok_def pending_flights_def flight_of_def)
    from attempt_delivery_inv [OF this, of "was_blocked ?p"] obtain s1 where
      s1: "attempt_delivery X (dp_ord ?p) (dp_msgs ?p) (dp_mids ?p) (was_blocked ?p) ?s = Some s1"
        "world_inv E {#} s1" "settled ?s s1"
        "work (pending_flights s1) (tasks s1) \<le> work (add_mset (dp_ord ?p, dp_msgs ?p, dp_mids ?p) (pending_flights ?s)) (tasks s)"
      by auto
    have pf: "pending_flights s = add_mset (dp_ord ?p, dp_msgs ?p, dp_mids ?p) (pending_flights ?s)"
      using l by (simp add: pending_flights_def flight_of_def)
    have st: "delayed s1 = ls" "tick s1 = tick s" "same_world s s1" "next_mid s1 = next_mid s"
      using s1(3) by (simp_all add: settled_def same_world_def)
    have "timely (unat (tick s)) s \<longrightarrow> timely (unat (tick s1)) s1" using l(1) st by (simp add: timely_def)
    with Suc.IH [OF s1(2)] obtain s' where "deliver_due_loop X n s1 = Some s'" "world_inv E {#} s'" "same_world s1 s'"
      "next_mid s' = next_mid s1" "set (delayed s') \<subseteq> set ls" "length ls \<le> n \<longrightarrow> timely (unat (tick s)) s \<longrightarrow> delayed s' = []"
      "work (pending_flights s') (tasks s') \<le> work (pending_flights s1) (tasks s1)"
      unfolding st(1) by blast
    then show ?thesis
      using l s1(1,4) st same_world_trans [OF st(3)] unfolding pf by (auto simp: Let_def)
  qed
qed (simp add: timely_def)

lemma retry_loop_inv:
  "world_inv E {#} s \<Longrightarrow> n \<le> length (blocked s) \<Longrightarrow> \<exists>s'. retry_loop X n s = Some s' \<and> world_inv E {#} s'
     \<and> same_world s s' \<and> next_mid s' = next_mid s \<and> delayed s' = delayed s \<and> tasks s \<subseteq># tasks s'
     \<and> work_left s' \<le> work_left s
     \<and> (0 < n \<longrightarrow> 3 \<le> unat (capacity (default_config (sim_registry s))) \<longrightarrow> tasks s' = {#} \<longrightarrow> work_left s' < work_left s)"
proof (induction n arbitrary: s)
  case (Suc n)
  then obtain p ps where p: "blocked s = p # ps" by (cases "blocked s") auto
  have "world_inv E {#(dp_ord p, dp_msgs p, dp_mids p)#} (s\<lparr>blocked := ps\<rparr>)"
    using Suc.prems p by (simp add: sim_inv_def sim_ok_def pending_flights_def flight_of_def)
  from attempt_delivery_inv [OF this, of "was_blocked p"] obtain s1 where
    s1: "attempt_delivery X (dp_ord p) (dp_msgs p) (dp_mids p) (was_blocked p) (s\<lparr>blocked := ps\<rparr>) = Some s1"
      "world_inv E {#} s1" "settled (s\<lparr>blocked := ps\<rparr>) s1"
      "work (pending_flights s1) (tasks s1) \<le>
         work (add_mset (dp_ord p, dp_msgs p, dp_mids p) (pending_flights (s\<lparr>blocked := ps\<rparr>))) (tasks s)"
      "3 \<le> unat (capacity (default_config (sim_registry s))) \<longrightarrow> tasks s1 = {#} \<longrightarrow>
         work (pending_flights s1) (tasks s1)
           < work (add_mset (dp_ord p, dp_msgs p, dp_mids p) (pending_flights (s\<lparr>blocked := ps\<rparr>))) (tasks s)"
    by auto
  have pf: "pending_flights s = add_mset (dp_ord p, dp_msgs p, dp_mids p) (pending_flights (s\<lparr>blocked := ps\<rparr>))"
    using p by (simp add: pending_flights_def flight_of_def)
  have st: "same_world s s1" "next_mid s1 = next_mid s" "delayed s1 = delayed s" "tasks s \<subseteq># tasks s1"
    using s1(3) by (simp_all add: settled_def same_world_def)
  have w: "work_left s1 \<le> work_left s"
    "3 \<le> unat (capacity (default_config (sim_registry s))) \<longrightarrow> tasks s1 = {#} \<longrightarrow> work_left s1 < work_left s"
    using s1(4,5) st(1,2) unfolding work_left_def pf by (simp_all add: same_world_def)
  have "n \<le> length (blocked s1)" using s1(3) Suc.prems(2) p by (simp add: settled_def)
  from Suc.IH [OF s1(2) this] obtain s' where
    s': "retry_loop X n s1 = Some s'" "world_inv E {#} s'" "same_world s1 s'" "next_mid s' = next_mid s1"
      "delayed s' = delayed s1" "tasks s1 \<subseteq># tasks s'" "work_left s' \<le> work_left s1"
    by blast
  have "tasks s1 = {#}" if "tasks s' = {#}" using s'(6) that by simp
  then have "3 \<le> unat (capacity (default_config (sim_registry s))) \<longrightarrow> tasks s' = {#} \<longrightarrow> work_left s' < work_left s"
    using w(2) s'(7) by auto
  then show ?case
    using p s1(1) s' st same_world_trans [OF st(1) s'(3)] w(1) by (auto intro: subset_mset.trans)
qed simp

section \<open>The workload\<close>

lemma announce_rng [simp]: "announce_send len dst (s\<lparr>rng := r\<rparr>) = (announce_send len dst s)\<lparr>rng := r\<rparr>"
  by (simp add: announce_send_def push_trace_def Let_def)

lemma announce_fields:
  "same_world s (announce_send len dst s)" "pending_flights (announce_send len dst s) = pending_flights s"
  "ready (announce_send len dst s) = ready s" "sim_cfg (announce_send len dst s) = sim_cfg s"
  by (simp_all add: announce_send_def push_trace_def Let_def same_world_def pending_flights_def)

lemma world_inv_announce:
  assumes "world_inv E {#} s" and "unat dst < length (ledger s)"
    and "0 < unat len" "unat len \<le> 3" "unat (next_mid s) + unat len \<le> length (mid_times s)"
    and "f = (dst, map (sim_message p) (mids_from (next_mid s) len), mids_from (next_mid s) len)"
  shows "world_inv E {#f#} (announce_send len dst s)"
    and "\<not> float_is_zero (duplicate_prob (cfg_faults (sim_cfg s))) \<Longrightarrow> world_inv E {#f, f#} (announce_send len dst s)"
proof -
  have "ok E (pending_flights s) (tasks s) s" and q: "queued_ok (ready s)" using assms(1) by (simp_all add: sim_inv_def)
  note a = ok_announce [OF this(1) assms(2-6)]
  show "world_inv E {#f#} (announce_send len dst s)" using a q by (simp add: sim_inv_def announce_fields)
  show "world_inv E {#f, f#} (announce_send len dst s)" if "\<not> float_is_zero (duplicate_prob (cfg_faults (sim_cfg s)))"
    using a q that by (simp add: sim_inv_def announce_fields)
qed

lemma world_inv_reject:
  assumes "world_inv E {#(dst, msgs, mids)#} s" and "\<not> gentle (cfg_faults (sim_cfg s))"
  shows "world_inv E {#} (fold (reject_one reason dst) mids s)" "same_world s (fold (reject_one reason dst) mids s)"
    and "next_mid (fold (reject_one reason dst) mids s) = next_mid s" "delayed (fold (reject_one reason dst) mids s) = delayed s"
    and "pending_flights (fold (reject_one reason dst) mids s) = pending_flights s"
    and "ready (fold (reject_one reason dst) mids s) = ready s"
proof -
  obtain st where f: "fold (reject_one reason dst) mids s = s\<lparr>mid_lost := lose mids (mid_lost s), stats := st,
      trace := trace s @ map (\<lambda>mid. OpReject mid dst reason) mids\<rparr>" (is "_ = ?s'")
    using fold_reject_one by blast
  have "ok E (pending_flights s) (tasks s) ?s'"
    by (rule ok_drop_flight [of E dst msgs mids]) (use assms in \<open>simp_all add: sim_inv_def is_restart_def\<close>)
  then show "world_inv E {#} (fold (reject_one reason dst) mids s)"
    using assms(1) unfolding f by (simp add: sim_inv_def pending_flights_def)
  show "same_world s (fold (reject_one reason dst) mids s)" "next_mid (fold (reject_one reason dst) mids s) = next_mid s"
    "delayed (fold (reject_one reason dst) mids s) = delayed s"
    "pending_flights (fold (reject_one reason dst) mids s) = pending_flights s"
    "ready (fold (reject_one reason dst) mids s) = ready s"
    unfolding f by (simp_all add: same_world_def pending_flights_def)
qed

text \<open>A send that was not rejected, and its duplicate.\<close>

lemma deliver_twice_inv:
  assumes "world_inv E (if dup then {#(dst, msgs, mids), (dst, msgs, mids)#} else {#(dst, msgs, mids)#}) s"
  shows "\<exists>s'. Option.bind (deliver_or_block X dst msgs mids delay s) (\<lambda>s. if dup
      then deliver_or_block X dst msgs mids delay' (s\<lparr>stats := (stats s)\<lparr>ss_duplicates := ss_duplicates (stats s) + 1\<rparr>\<rparr>)
      else Some s) = Some s' \<and> world_inv E {#} s' \<and> same_world s s' \<and> next_mid s' = next_mid s
    \<and> (\<not> dup \<longrightarrow> delay = 0 \<longrightarrow> delayed s' = delayed s)
    \<and> (\<not> dup \<longrightarrow> work (pending_flights s') (tasks s') \<le> work (add_mset (dst, msgs, mids) (pending_flights s)) (tasks s))
    \<and> set (delayed s') \<subseteq> set (delayed s) \<union> {l. dl_at l = tick s + delay \<or> dl_at l = tick s + delay'}
    \<and> work (pending_flights s') (tasks s') \<le> 4 + work (pending_flights s) (tasks s)"
proof (cases dup)
  case True
  then have "world_inv E (add_mset (dst, msgs, mids) {#(dst, msgs, mids)#}) s" using assms by simp
  from deliver_or_block_inv [OF this, of delay] obtain s1 where
    s1: "deliver_or_block X dst msgs mids delay s = Some s1" "world_inv E {#(dst, msgs, mids)#} s1" "same_world s s1"
      "next_mid s1 = next_mid s" "set (delayed s1) \<subseteq> set (delayed s) \<union> {l. dl_at l = tick s + delay}"
      "work (pending_flights s1) (tasks s1) \<le> 2 + work (pending_flights s) (tasks s)"
    by (fastforce split: if_splits)
  let ?s1 = "s1\<lparr>stats := (stats s1)\<lparr>ss_duplicates := ss_duplicates (stats s1) + 1\<rparr>\<rparr>"
  from deliver_or_block_inv [of E dst msgs mids "{#}" ?s1 delay'] s1(2) obtain s2 where
    s2: "deliver_or_block X dst msgs mids delay' ?s1 = Some s2" "world_inv E {#} s2" "same_world ?s1 s2" "next_mid s2 = next_mid s1"
      "set (delayed s2) \<subseteq> set (delayed s1) \<union> {l. dl_at l = tick s1 + delay'}"
      "work (pending_flights s2) (tasks s2) \<le> 2 + work (pending_flights ?s1) (tasks s1)"
    by (fastforce split: if_splits)
  moreover have "pending_flights ?s1 = pending_flights s1" "tick s1 = tick s"
    using s1(3) by (simp_all add: pending_flights_def same_world_def)
  ultimately show ?thesis using True s1 by (auto simp: same_world_def)
next
  case False
  then have "world_inv E (add_mset (dst, msgs, mids) {#}) s" using assms by simp
  from deliver_or_block_inv [OF this, of delay] show ?thesis using False by (fastforce split: if_splits)
qed

lemma inject_one_inv:
  assumes inv: "world_inv E {#} s" and cfg: "config_ready s" and room: "next_mid s < mid_budget s"
  shows "\<exists>s'. inject_one X R s = Some s' \<and> world_inv E {#} s' \<and> same_world s s'
    \<and> (punctual (cfg_faults (sim_cfg s)) \<longrightarrow> delayed s' = delayed s \<and> work_left s' < work_left s)
    \<and> unat (next_mid s) < unat (next_mid s') \<and> toil s' < toil s
    \<and> (\<forall>B. timely B s \<longrightarrow> unat (tick s) + lag (cfg_faults (sim_cfg s)) \<le> B \<longrightarrow> timely B s')"
proof -
  let ?f = "cfg_faults (sim_cfg s)"
  obtain dst r1 where d: "sim_below R (cfg_actors (sim_cfg s)) s = Some (dst, s\<lparr>rng := r1\<rparr>)" "dst < cfg_actors (sim_cfg s)"
    by (rule sim_below_rng) (use cfg in \<open>auto simp: config_ready_def\<close>)
  have "0 < mid_budget s - next_mid s" using room by (simp add: word_less_nat_alt unat_sub_if_size)
  from draw_len_rng [OF this, of R "s\<lparr>rng := r1\<rparr>"] obtain len r2 where
    l: "draw_len R (mid_budget s - next_mid s) (s\<lparr>rng := r1\<rparr>) = Some (len, s\<lparr>rng := r2\<rparr>)"
      "0 < len" "len \<le> 3" "len \<le> mid_budget s - next_mid s"
    by auto
  obtain high r3 where h: "sim_roll R (f64_ratio 1 10) (s\<lparr>rng := r2\<rparr>) = (high, s\<lparr>rng := r2, rng := r3\<rparr>)"
    by (rule sim_roll_rng)
  define p where "p = (if high then High else Normal)"
  define mids where "mids = mids_from (next_mid s) len"
  define msgs where "msgs = map (sim_message p) mids"
  define a where "a = announce_send len dst s"
  have b: "unat (mid_budget s) = length (mid_times s)" "length (mid_times s) < 2 ^ 20"
    using inv unfolding mid_budget_def by (auto simp: sim_inv_def sim_ok_def idents_ok_def intro!: unat_of_nat_small)
  have len: "0 < unat len" "unat len \<le> 3" "unat (next_mid s) + unat len \<le> length (mid_times s)"
    using len_budget [OF l(2-4) room] b by auto
  have dst: "unat dst < length (ledger s)" using d(2) cfg by (simp add: config_ready_def word_less_nat_alt)
  have f: "(dst, msgs, mids) = (dst, map (sim_message p) (mids_from (next_mid s) len), mids_from (next_mid s) len)"
    by (simp add: msgs_def mids_def)
  note an = world_inv_announce [OF inv dst len f, folded a_def]
  have a: "same_world s a" "sim_cfg a = sim_cfg s" "pending_flights a = pending_flights s" "ready a = ready s"
    "delayed a = delayed s" "mid_times a = mid_times s" "next_mid a = next_mid s + len"
    by (simp_all add: a_def announce_fields) (simp_all add: announce_send_def push_trace_def Let_def)
  have nm: "unat (next_mid a) = unat (next_mid s) + unat len"
    unfolding a(7) using len(3) b(2) by (subst unat_add_no_wrap) simp_all
  have less: "work_left s' < work_left s"
    if "length (mid_times s') = length (mid_times s)" "next_mid s' = next_mid a"
      "work (pending_flights s') (tasks s') \<le> work (add_mset (dst, msgs, mids) (pending_flights s)) (tasks s)"
    for s' :: "('d, 'c) sim"
    using that nm len by (auto simp: work_left_def split: if_splits)
  have less_toil: "unat (next_mid s) < unat (next_mid s') \<and> toil s' < toil s"
    if "length (mid_times s') = length (mid_times s)" "next_mid s' = next_mid a"
      "work (pending_flights s') (tasks s') \<le> 4 + work (pending_flights s) (tasks s)"
    for s' :: "('d, 'c) sim"
    using that nm len by (auto simp: work_left_def toil_def)
  obtain rej r4 where j: "sim_roll R (send_reject_prob ?f) (a\<lparr>rng := r3\<rparr>) = (rej, a\<lparr>rng := r3, rng := r4\<rparr>)"
      "rej \<longrightarrow> \<not> float_le_zero (send_reject_prob ?f)"
    by (rule sim_roll_rng)
  have "config_ready (a\<lparr>rng := r4\<rparr>)" using cfg config_ready_same [OF a(1)] by (simp add: config_ready_def)
  from draw_delay_rng [OF this, of R] obtain delay r5 where
    y: "draw_delay R (a\<lparr>rng := r4\<rparr>) = Some (delay, a\<lparr>rng := r4, rng := r5\<rparr>)" "float_le_zero (delay_prob ?f) \<longrightarrow> delay = 0"
      "unat delay + 2 \<le> lag ?f"
    by (auto simp: a(2))
  obtain dup r6 where u: "sim_roll R (duplicate_prob ?f) (a\<lparr>rng := r5\<rparr>) = (dup, a\<lparr>rng := r5, rng := r6\<rparr>)"
      "dup \<longrightarrow> \<not> float_le_zero (duplicate_prob ?f)"
    by (rule sim_roll_rng)
  have one: "inject_one X R s = (if rej then Some (fold (reject_one Fault dst) mids (a\<lparr>rng := r4\<rparr>))
      else Option.bind (deliver_or_block X dst msgs mids delay (a\<lparr>rng := r6\<rparr>)) (\<lambda>s. if dup
        then deliver_or_block X dst msgs mids (delay + DUPLICATE_GAP_TICKS)
               (s\<lparr>stats := (stats s)\<lparr>ss_duplicates := ss_duplicates (stats s) + 1\<rparr>\<rparr>)
        else Some s))"
    using d(1) l(1) h j(1) y(1) u(1) a(2)
    by (cases high; cases dup) (simp_all add: inject_one_def mid_budget_def Let_def mids_def msgs_def p_def flip: a_def)
  have pf: "pending_flights (a\<lparr>rng := r\<rparr>) = pending_flights s" for r using a(3) by (simp add: pending_flights_def)
  show ?thesis
  proof (cases rej)
    case True
    let ?s' = "fold (reject_one Fault dst) mids (a\<lparr>rng := r4\<rparr>)"
    have "world_inv E {#(dst, msgs, mids)#} (a\<lparr>rng := r4\<rparr>)" "\<not> gentle (cfg_faults (sim_cfg (a\<lparr>rng := r4\<rparr>)))"
      using an(1) j(2) True a(2) by (simp_all add: gentle_def)
    note r = world_inv_reject [OF this, of Fault]
    have sw: "same_world s ?s'" using r(2) a(1) by (simp add: same_world_def)
    then have "work_left ?s' < work_left s"
      using r(3,5,6) pf a(4) by (intro less) (simp_all add: same_world_def)
    moreover have "unat (next_mid s) < unat (next_mid ?s') \<and> toil ?s' < toil s"
      using r(3,5,6) pf a(4) sw by (intro less_toil) (simp_all add: same_world_def)
    moreover have "delayed ?s' = delayed s" using r(4) a(5) by simp
    ultimately show ?thesis using one True r(1) sw timely_mono [of _ s ?s'] by simp
  next
    case False
    have "world_inv E (if dup then {#(dst, msgs, mids), (dst, msgs, mids)#} else {#(dst, msgs, mids)#}) (a\<lparr>rng := r6\<rparr>)"
      using an u(2) float_le_zero_if_zero by auto
    from deliver_twice_inv [OF this, of delay "delay + DUPLICATE_GAP_TICKS"] one False obtain s' where
      s': "inject_one X R s = Some s'" "world_inv E {#} s'" "same_world (a\<lparr>rng := r6\<rparr>) s'" "next_mid s' = next_mid a"
        "\<not> dup \<longrightarrow> delay = 0 \<longrightarrow> delayed s' = delayed s"
        "\<not> dup \<longrightarrow> work (pending_flights s') (tasks s') \<le> work (add_mset (dst, msgs, mids) (pending_flights s)) (tasks s)"
        "set (delayed s') \<subseteq> set (delayed s) \<union> {l. dl_at l = tick a + delay \<or> dl_at l = tick a + (delay + DUPLICATE_GAP_TICKS)}"
        "work (pending_flights s') (tasks s') \<le> 4 + work (pending_flights s) (tasks s)"
      using pf a(4,5) by auto
    have sw: "same_world s s'" using s'(3) a(1) by (simp add: same_world_def)
    have "delayed s' = delayed s \<and> work_left s' < work_left s" if "punctual ?f"
    proof -
      have "\<not> dup" "delay = 0" using that u(2) y(2) by (auto simp: punctual_def)
      then show ?thesis using s'(4-6) sw by (auto simp: same_world_def intro!: less)
    qed
    moreover have "unat (next_mid s) < unat (next_mid s') \<and> toil s' < toil s"
      using s'(4,8) sw by (intro less_toil) (simp_all add: same_world_def)
    moreover have "timely B s'" if "timely B s" "unat (tick s) + lag ?f \<le> B" for B
      using timely_new [OF that(1) _ y(3) that(2)] s'(7) a(1) by (simp add: same_world_def)
    ultimately show ?thesis using s'(1,2) sw by blast
  qed
qed

lemma inject_loop_inv:
  "world_inv E {#} s \<Longrightarrow> config_ready s \<Longrightarrow> \<exists>s'. inject_loop X R n s = Some s' \<and> world_inv E {#} s' \<and> same_world s s'
     \<and> (punctual (cfg_faults (sim_cfg s)) \<longrightarrow> delayed s' = delayed s \<and> work_left s' \<le> work_left s
          \<and> (0 < n \<longrightarrow> next_mid s < mid_budget s \<longrightarrow> work_left s' < work_left s))
     \<and> unat (next_mid s) \<le> unat (next_mid s') \<and> toil s' \<le> toil s
     \<and> (0 < n \<longrightarrow> next_mid s < mid_budget s \<longrightarrow> unat (next_mid s) < unat (next_mid s') \<and> toil s' < toil s)
     \<and> (\<forall>B. timely B s \<longrightarrow> unat (tick s) + lag (cfg_faults (sim_cfg s)) \<le> B \<longrightarrow> timely B s')"
proof (induction n arbitrary: s)
  case (Suc n)
  show ?case
  proof (cases "mid_budget s \<le> next_mid s")
    case False
    then have "next_mid s < mid_budget s" by simp
    from inject_one_inv [OF Suc.prems this, of R] obtain s1 where
      s1: "inject_one X R s = Some s1" "world_inv E {#} s1" "same_world s s1"
        "punctual (cfg_faults (sim_cfg s)) \<longrightarrow> delayed s1 = delayed s \<and> work_left s1 < work_left s"
        "unat (next_mid s) < unat (next_mid s1)" "toil s1 < toil s"
        "\<forall>B. timely B s \<longrightarrow> unat (tick s) + lag (cfg_faults (sim_cfg s)) \<le> B \<longrightarrow> timely B s1"
      by blast
    have "config_ready s1" "sim_cfg s1 = sim_cfg s" "tick s1 = tick s" using config_ready_same [OF s1(3)] Suc.prems(2) s1(3) by (simp_all add: same_world_def)
    with Suc.IH [OF s1(2)] obtain s' where "inject_loop X R n s1 = Some s'" "world_inv E {#} s'" "same_world s1 s'"
      "punctual (cfg_faults (sim_cfg s)) \<longrightarrow> delayed s' = delayed s1 \<and> work_left s' \<le> work_left s1"
      "unat (next_mid s1) \<le> unat (next_mid s')" "toil s' \<le> toil s1"
      "\<forall>B. timely B s1 \<longrightarrow> unat (tick s) + lag (cfg_faults (sim_cfg s)) \<le> B \<longrightarrow> timely B s'"
      by auto
    then show ?thesis using False s1 same_world_trans [OF s1(3)] by auto
  qed (use Suc.prems in \<open>simp add: not_less\<close>)
qed simp

lemma inject_workload_inv:
  assumes "world_inv E {#} s" and "config_ready s"
  shows "\<exists>s'. inject_workload X R s = Some s' \<and> world_inv E {#} s' \<and> same_world s s'
     \<and> (punctual (cfg_faults (sim_cfg s)) \<longrightarrow> delayed s' = delayed s
          \<and> (s' = s \<and> mid_budget s \<le> next_mid s \<or> work_left s' < work_left s))
     \<and> (s' = s \<and> mid_budget s \<le> next_mid s \<or> unat (next_mid s) < unat (next_mid s') \<and> toil s' < toil s)
     \<and> (\<forall>B. timely B s \<longrightarrow> unat (tick s) + lag (cfg_faults (sim_cfg s)) \<le> B \<longrightarrow> timely B s')"
proof (cases "mid_budget s \<le> next_mid s")
  case True
  then show ?thesis using assms(1) by (simp add: inject_workload_def)
next
  case False
  let ?rate = "float_max_zero (injection_rate (sim_cfg s))"
  let ?frac = "float_sub f64 ?rate (float_of_nat f64 (unat (float_as_usize ?rate)))"
  obtain c r' where c: "(if float_less float_zero ?frac then sim_roll R ?frac s else (False, s)) = (c, s\<lparr>rng := r'\<rparr>)"
    by (rule sim_roll_if)
  let ?n = "unat (max (float_as_usize ?rate + of_bool c) 1)"
  have n: "0 < ?n"
  proof -
    have "1 \<le> max (float_as_usize ?rate + of_bool c) 1" by simp
    then show ?thesis by (simp add: word_le_nat_alt)
  qed
  have "inject_workload X R s = inject_loop X R ?n (s\<lparr>rng := r'\<rparr>)"
    using False unfolding inject_workload_def Let_def c by simp
  moreover have "config_ready (s\<lparr>rng := r'\<rparr>)" "work_left (s\<lparr>rng := r'\<rparr>) = work_left s"
      "toil (s\<lparr>rng := r'\<rparr>) = toil s" "timely B (s\<lparr>rng := r'\<rparr>) = timely B s" for B
    using assms(2) by (simp_all add: config_ready_def work_left_def toil_def timely_def pending_flights_def)
  ultimately show ?thesis
    using inject_loop_inv [of E "s\<lparr>rng := r'\<rparr>" R ?n] assms(1) n False
    by (auto simp: mid_budget_def same_world_def)
qed

end

end
