(* ===== verification/Sim_Processing.thy ===== *)
theory Sim_Processing
  imports Sim_Delivery
begin

text \<open>
  A chosen task that does not crash: a task for an identity that is gone is discarded
  and its messages are lost; otherwise the pipeline consumes one mailbox slot per
  message, and the records of the executor settle the ledger and the identities.
\<close>

section \<open>Counting what was processed\<close>

definition bump :: "u64 list \<Rightarrow> u32 list \<Rightarrow> u32 list" where
  "bump mids cnt = fold (\<lambda>mid c. c[unat mid := saturating_add (c ! unat mid) 1]) mids cnt"

lemma bump_simps [simp]:
  "bump [] cnt = cnt"
  "bump (mid # mids) cnt = bump mids (cnt[unat mid := saturating_add (cnt ! unat mid) 1])"
  by (simp_all add: bump_def)

lemma length_bump [simp]: "length (bump mids cnt) = length cnt"
  by (induction mids arbitrary: cnt) auto

lemma bump_one:
  "unat (cnt[unat m := saturating_add (cnt ! unat m) 1] ! unat (mid :: u64))
     \<le> unat (cnt ! unat mid) + (if mid = m then 1 else 0)" for cnt :: "u32 list"
  by (cases "unat m < length cnt") (auto simp: nth_list_update unat_saturating_add list_update_beyond word_unat_eq_iff)

lemma bump_le: "unat (bump mids cnt ! unat mid) \<le> unat (cnt ! unat mid) + count_list mids mid"
proof (induction mids arbitrary: cnt)
  case (Cons m mids)
  show ?case
    using Cons [of "cnt[unat m := saturating_add (cnt ! unat m) 1]"] bump_one [of cnt m mid] by (auto split: if_splits)
qed simp

lemma saturating_add_one_nonzero: "saturating_add (n :: u32) 1 \<noteq> 0"
proof -
  have "0 < unat (saturating_add n 1)" by (simp add: unat_saturating_add)
  then show ?thesis by auto
qed

lemma bump_nonzero:
  "cnt ! unat mid \<noteq> 0 \<or> mid \<in> set mids \<and> unat mid < length cnt \<Longrightarrow> bump mids cnt ! unat mid \<noteq> 0"
proof (induction mids arbitrary: cnt)
  case (Cons m mids)
  show ?case
  proof (cases "unat m < length cnt")
    case True
    then have "cnt[unat m := saturating_add (cnt ! unat m) 1] ! unat mid \<noteq> 0 \<or> mid \<in> set mids \<and> unat mid < length cnt"
      using Cons.prems saturating_add_one_nonzero by (auto simp: nth_list_update)
    then show ?thesis using Cons.IH by simp
  next
    case False
    then show ?thesis using Cons by (auto simp: list_update_beyond)
  qed
qed simp

lemma bump_other: "mid \<notin> set mids \<Longrightarrow> bump mids cnt ! unat mid = cnt ! unat mid"
  by (induction mids arbitrary: cnt) (auto simp: nth_list_update word_unat_eq_iff)

lemma idents_ok_bump:
  assumes ok: "idents_ok d nm cnt lost P (add_mset t T)" and mids: "\<forall>mid \<in> set (st_mids t). mid < nm"
  shows "idents_ok d nm (bump (st_mids t) cnt) lost P T"
proof -
  let ?c = "bump (st_mids t) cnt"
  have inr: "unat mid < length cnt" if "mid < nm" for mid
    using ok that by (auto simp: idents_ok_def word_less_nat_alt)
  have "?c ! unat mid = 0" if "nm \<le> mid" "unat mid < length cnt" for mid
  proof -
    have "mid \<notin> set (st_mids t)" using mids that(1) by auto
    then show ?thesis using ok that by (simp add: bump_other idents_ok_def)
  qed
  moreover have "?c ! unat mid \<noteq> 0 \<or> lost ! unat mid \<or> 0 < copies P T mid" if "mid < nm" for mid
  proof (cases "mid \<in> set (st_mids t)")
    case True
    then show ?thesis using bump_nonzero inr [OF that] by blast
  next
    case False
    then show ?thesis using ok that by (auto simp: bump_other idents_ok_def count_list_0_iff)
  qed
  moreover have "unat (?c ! unat mid) + copies P T mid \<le> 1" if "mid < nm" d for mid
  proof -
    have "unat (cnt ! unat mid) + (count_list (st_mids t) mid + copies P T mid) \<le> 1"
      using ok that by (simp add: idents_ok_def)
    then show ?thesis using bump_le [of "st_mids t" cnt mid] by linarith
  qed
  ultimately show ?thesis using ok unfolding idents_ok_def by auto
qed

section \<open>Observing the records\<close>

definition custom_mids :: "exec_tag list \<Rightarrow> u64 list" where
  "custom_mids tags = concat (map (\<lambda>x. case x of TagCustom mid \<Rightarrow> [mid] | TagSystem \<Rightarrow> []) tags)"

lemma custom_mids_simps [simp]:
  "custom_mids [] = []" "custom_mids (TagCustom mid # tags) = mid # custom_mids tags"
  "custom_mids (TagSystem # tags) = custom_mids tags" "custom_mids (map TagCustom mids) = mids"
  by (induction mids) (simp_all add: custom_mids_def)

lemma observe_records:
  assumes "hm_get (ordinals s) (actor_key i) = Some ord" and "unat ord < length (ledger s)"
    and "\<forall>mid \<in> set (custom_mids tags). unat mid < length (mid_times s)"
  shows "\<exists>st xs. observe (map (\<lambda>x. \<lparr>rec_actor = i, rec_tag = x\<rparr>) tags) s = Some (s\<lparr>
      ledger := (ledger s)[unat ord := (ledger s ! unat ord)\<lparr>led_consumed :=
         led_consumed (ledger s ! unat ord) + of_nat (length tags)\<rparr>],
      mid_times := bump (custom_mids tags) (mid_times s), stats := st, trace := trace s @ xs\<rparr>)
    \<and> (\<forall>x \<in> set xs. \<not> is_restart x)"
  using assms
proof (induction tags arbitrary: s)
  case Nil
  show ?case by (intro exI [of _ "stats s"] exI [of _ "[]"]) simp
next
  case (Cons x tags)
  let ?led = "ledger s ! unat ord"
  define y where "y = (case x of TagCustom mid \<Rightarrow> OpProcess mid ord | TagSystem \<Rightarrow> OpProcessSystem ord)"
  define st where "st = (case x of TagCustom _ \<Rightarrow> (stats s)\<lparr>ss_processed := ss_processed (stats s) + 1\<rparr>
    | TagSystem \<Rightarrow> (stats s)\<lparr>ss_system_processed := ss_system_processed (stats s) + 1\<rparr>)"
  define s1 where "s1 = s\<lparr>ledger := (ledger s)[unat ord := ?led\<lparr>led_consumed := led_consumed ?led + 1\<rparr>],
      mid_times := bump (custom_mids [x]) (mid_times s), stats := st, trace := trace s @ [y]\<rparr>"
  have one: "observe_one \<lparr>rec_actor = i, rec_tag = x\<rparr> s = Some s1"
    using Cons.prems by (cases x) (simp_all add: observe_one_def index_def s1_def y_def st_def push_trace_def)
  have "\<forall>mid \<in> set (custom_mids tags). unat mid < length (mid_times s1)"
    using Cons.prems(3) by (cases x) (simp_all add: s1_def)
  then obtain st' xs where o: "observe (map (\<lambda>x. \<lparr>rec_actor = i, rec_tag = x\<rparr>) tags) s1 = Some (s1\<lparr>
      ledger := (ledger s1)[unat ord := (ledger s1 ! unat ord)\<lparr>led_consumed :=
         led_consumed (ledger s1 ! unat ord) + of_nat (length tags)\<rparr>],
      mid_times := bump (custom_mids tags) (mid_times s1), stats := st', trace := trace s1 @ xs\<rparr>)"
      "\<forall>x \<in> set xs. \<not> is_restart x"
    using Cons.IH [of s1] Cons.prems(1,2) by (auto simp: s1_def)
  have "\<not> is_restart y" by (simp add: y_def is_restart_def split: exec_tag.splits)
  moreover have "observe (map (\<lambda>x. \<lparr>rec_actor = i, rec_tag = x\<rparr>) (x # tags)) s = Some (s\<lparr>
      ledger := (ledger s)[unat ord := ?led\<lparr>led_consumed := led_consumed ?led + of_nat (length (x # tags))\<rparr>],
      mid_times := bump (custom_mids (x # tags)) (mid_times s), stats := st', trace := trace s @ (y # xs)\<rparr>)"
    unfolding list.map observe.simps one option.case o(1)
    using Cons.prems(2) by (cases x) (simp_all add: s1_def ac_simps)
  ultimately show ?case using o(2) by (intro exI [of _ st'] exI [of _ "y # xs"]) simp
qed

lemma actor_ok_queued [simp]:
  "actor_ok X items r ords T ord (led\<lparr>led_queued := q\<rparr>) i = actor_ok X items r ords T ord led i"
  by (simp add: actor_ok_def split: option.split)

context registry_env
begin

section \<open>A task in hand\<close>

lemma task_parts:
  assumes "ok E P (add_mset t T) s"
  shows "unat (st_ord t) < length (ledger s)" "index (ledger s) (st_ord t) = Some (ledger s ! unat (st_ord t))"
    "shape_ok (task_messages (st_task t)) (st_mids t)" "\<forall>mid \<in> set (st_mids t). mid < next_mid s"
    "tasks_ok (ledger s) (next_mid s) T"
  using assms by (simp_all add: sim_ok_def index_def)

lemma ok_queued:
  fixes ord :: u64
  assumes ok: "ok E P T s" and ord: "unat ord < length (ledger s)"
  shows "ok E P T (s\<lparr>ledger := (ledger s)[unat ord := (ledger s ! unat ord)\<lparr>led_queued := q\<rparr>]\<rparr>)"
proof -
  let ?led = "(ledger s ! unat ord)\<lparr>led_queued := q\<rparr>"
  note parts = ok [unfolded sim_ok_def]
  have "actor_ok X items (sim_registry s) (ordinals s) T ord ?led (actors s ! unat ord)"
    using parts ord by (simp add: actors_ok_def)
  then have "actors_ok X items (sim_registry s) (ordinals s) T ((ledger s)[unat ord := ?led]) (actors s)"
    using actors_ok_update [of X items "sim_registry s" "ordinals s" T "ledger s" "actors s" ord "actors s ! unat ord"
        "sim_registry s" T "ordinals s" ?led] parts ord by simp
  moreover have "tasks_ok ((ledger s)[unat ord := ?led]) (next_mid s) T"
    using parts by (intro tasks_ok_led) simp_all
  moreover have "load_ok ((ledger s)[unat ord := ?led]) (next_mid s) P T"
    using parts by (intro load_ok_update [of "ledger s" "next_mid s" P T])
      (auto simp: load_ok_def Let_def dest!: spec [of _ ord])
  moreover have "calm_ok (gentle (cfg_faults (sim_cfg s))) ((ledger s)[unat ord := ?led]) (mid_lost s)"
    using parts by (intro calm_ok_update) simp_all
  ultimately show ?thesis using parts by (simp add: sim_ok_def)
qed

text \<open>A task for an identity that is no longer registered.\<close>

lemma ok_discard:
  assumes ok: "ok E P (add_mset t T) s" and gone: "dm_get X (by_id (sim_registry s)) (task_actor (st_task t)) = None"
  shows "ok E P T (discard_task t s)"
proof -
  let ?xs = "case st_mids t of [] \<Rightarrow> [] | first # _ \<Rightarrow> [OpDiscard first (of_nat (app_len t)) (st_ord t)]"
  note parts = ok [unfolded sim_ok_def] and tp = task_parts [OF ok]
  have "actor_ok X items (sim_registry s) (ordinals s) T ord' led j"
    if "actor_ok X items (sim_registry s) (ordinals s) (add_mset t T) ord' led j" for ord' led j
    using that gone by (cases "j = task_actor (st_task t)") (auto simp: actor_ok_def split: option.splits)
  then have "actors_ok X items (sim_registry s) (ordinals s) T (ledger s) (actors s)"
    using parts by (simp add: actors_ok_def)
  moreover have "load_ok (ledger s) (next_mid s) P T"
    using parts by (fastforce simp: load_ok_def Let_def)
  moreover have "idents_ok (float_is_zero (duplicate_prob (cfg_faults (sim_cfg s)))) (next_mid s) (mid_times s)
      (lose (st_mids t) (mid_lost s)) P T"
  proof (rule idents_ok_lose [where mids = "st_mids t" and P' = P and T' = "add_mset t T" and lost = "mid_lost s"])
    have "unat mid < length (mid_lost s)" if "mid \<in> set (st_mids t)" for mid
      using parts tp(4) that by (auto simp: idents_ok_def word_less_nat_alt dest!: bspec)
    then show "\<forall>mid \<in> set (st_mids t). mid_times s ! unat mid \<noteq> 0 \<or> lose (st_mids t) (mid_lost s) ! unat mid"
      by (simp add: lose_in)
  qed (use parts in \<open>simp_all add: lose_mono\<close>)
  moreover have "\<not> gentle (cfg_faults (sim_cfg s))"
  proof
    assume g: "gentle (cfg_faults (sim_cfg s))"
    obtain inc where inc: "inc \<le> led_incarnation (ledger s ! unat (st_ord t))" "task_actor (st_task t) = sim_actor_id (st_ord t) inc"
      using parts by auto
    have "led_incarnation (ledger s ! unat (st_ord t)) = 0"
      using parts g nth_mem [OF tp(1)] unfolding calm_ok_def by blast
    then have "task_actor (st_task t) = actors s ! unat (st_ord t)"
      using inc gentle_alive(2) [OF ok g tp(1)] by simp
    then show False using gentle_alive(1) [OF ok g tp(1)] gone by auto
  qed
  moreover have "discard_task t s = s\<lparr>mid_lost := lose (st_mids t) (mid_lost s), trace := trace s @ ?xs\<rparr>"
    using parts by (simp add: discard_task_def fold_mark_lost push_trace_def arm_crash_def SimExecutor_new_def Let_def
        split: list.split)
  moreover have "\<forall>x \<in> set ?xs. \<not> is_restart x" by (auto simp: is_restart_def split: list.splits)
  ultimately show ?thesis using parts tp(5) sup_ok_quiet [of ?xs] by (simp add: sim_ok_def calm_ok_def)
qed

text \<open>A task for a registered identity is one for the current incarnation of its actor.\<close>

lemma registered_task:
  assumes ok: "ok E P (add_mset t T) s" and e: "dm_get X (by_id (sim_registry s)) (task_actor (st_task t)) = Some e"
  shows "task_actor (st_task t) = actors s ! unat (st_ord t)"
    and "active e"
    and "hm_get (ordinals s) (actor_key (task_actor (st_task t))) = Some (st_ord t)"
    and "led_alive (ledger s ! unat (st_ord t))"
    and "entry_name e = Some (actor_name (st_ord t) (led_incarnation (ledger s ! unat (st_ord t))))"
    and "slots items e = length (task_messages (st_task t)) + task_slots T (task_actor (st_task t))"
    and "unat (led_delivered (ledger s ! unat (st_ord t))) = unat (led_consumed (ledger s ! unat (st_ord t)))
       + unat (led_dropped (ledger s ! unat (st_ord t)))
       + (length (task_messages (st_task t)) + task_slots T (task_actor (st_task t)))"
proof -
  note parts = ok [unfolded sim_ok_def]
  let ?i = "task_actor (st_task t)"
  have acts: "actors_ok X items (sim_registry s) (ordinals s) (add_mset t T) (ledger s) (actors s)" using parts by blast
  then have "?i \<in> set (actors s)" using e by (simp add: actors_ok_def)
  then obtain k where k: "k < length (ledger s)" "actors s ! k = ?i"
    using acts by (auto simp: in_set_conv_nth actors_ok_def)
  have uk: "unat (of_nat k :: u64) = k" using k(1) parts by (intro unat_of_nat_small) simp
  then have "?i = sim_actor_id (of_nat k) (led_incarnation (ledger s ! k))"
    using acts k by (auto simp: actors_ok_def actor_ok_def dest!: spec [of _ "of_nat k :: u64"])
  moreover obtain inc where "?i = sim_actor_id (st_ord t) inc" using parts by auto
  ultimately have "of_nat k = st_ord t" using sim_actor_id_ord by metis
  then show i: "?i = actors s ! unat (st_ord t)" using k(2) uk by auto
  have "actor_ok X items (sim_registry s) (ordinals s) (add_mset t T) (st_ord t) (ledger s ! unat (st_ord t)) ?i"
    using acts task_parts(1) [OF ok] unfolding i by (simp add: actors_ok_def)
  note a = this [unfolded actor_ok_def e option.case load_simps simp_thms if_True]
  show "active e" "led_alive (ledger s ! unat (st_ord t))"
    "hm_get (ordinals s) (actor_key (task_actor (st_task t))) = Some (st_ord t)"
    "entry_name e = Some (actor_name (st_ord t) (led_incarnation (ledger s ! unat (st_ord t))))"
    "slots items e = length (task_messages (st_task t)) + task_slots T (task_actor (st_task t))"
    using a by blast+
  show "unat (led_delivered (ledger s ! unat (st_ord t))) = unat (led_consumed (ledger s ! unat (st_ord t)))
       + unat (led_dropped (ledger s ! unat (st_ord t)))
       + (length (task_messages (st_task t)) + task_slots T (task_actor (st_task t)))"
    using a by blast
qed

section \<open>Running a task to its end\<close>

lemma run_pipeline_counted:
  assumes ok: "ok E P (add_mset t T) s" and e: "dm_get X (by_id (sim_registry s)) (task_actor (st_task t)) = Some e"
  shows "\<exists>r' e'. run_pipeline X E False t s = Some (map (exec_record_of (task_actor (st_task t))) (task_messages (st_task t)),
       s\<lparr>sim_registry := r', readings := readings s + 1\<rparr>)
    \<and> reg_inv r' \<and> upd (task_actor (st_task t)) (\<lambda>_. e') (sim_registry s) r' \<and> active e' \<and> entry_name e' = entry_name e
    \<and> slots items e' + length (task_messages (st_task t)) = slots items e"
proof -
  note parts = ok [unfolded sim_ok_def] and tp = task_parts [OF ok] and rt = registered_task [OF ok e]
  let ?k = "st_task t"
  have x: "sim_exec s = SimExecutor_new" "reg_inv (sim_registry s)" using parts by simp_all
  have nc: "\<not> crash_next (arm_crash False SimExecutor_new)" by (simp add: arm_crash_def)
  have le: "length (task_messages ?k) \<le> slots items e" using rt(6) by simp
  from sim_process_task_counted [OF x(2) e rt(2) nc shape_okD(3) [OF tp(3)] le, of "unix_clock E (readings s)"]
  obtain r' e' where p: "sim_process_task X (Some SimExecutor) (unix_clock E (readings s)) 1 ?k (sim_registry s)
      (arm_crash False SimExecutor_new) = Some (of_nat (length (task_messages ?k)), r', (arm_crash False SimExecutor_new)
        \<lparr>records := records (arm_crash False SimExecutor_new) @ map (exec_record_of (task_actor ?k)) (task_messages ?k)\<rparr>)"
    "reg_inv r'" "upd (task_actor ?k) (\<lambda>_. e') (sim_registry s) r'" "active e'" "entry_name e' = entry_name e"
    "slots items e' + length (task_messages ?k) = slots items e"
    by blast
  have "unat (of_nat (length (task_messages ?k)) :: u64) = length (task_messages ?k)"
    using shape_okD(2) [OF tp(3)] by (intro unat_of_nat_small) simp
  then have "run_pipeline X E False t s = Some (map (exec_record_of (task_actor ?k)) (task_messages ?k),
      s\<lparr>sim_registry := r', readings := readings s + 1\<rparr>)"
    unfolding run_pipeline_def x(1) p(1)
    using x(1) by (simp add: drain_records_def arm_crash_def SimExecutor_new_def Let_def)
  then show ?thesis using p(2-6) by blast
qed

lemma actor_ok_consume:
  assumes ok: "actor_ok X items r ords (add_mset t T) ord led i" and e: "dm_get X (by_id r) i = Some e"
    and e': "dm_get X (by_id r') i = Some e'" "active e'" "entry_name e' = entry_name e"
      "slots items e' + length (task_messages (st_task t)) = slots items e"
    and t: "task_actor (st_task t) = i" "n = length (task_messages (st_task t))"
  shows "actor_ok X items r' ords T ord (led\<lparr>led_consumed := led_consumed led + of_nat n\<rparr>) i"
proof -
  note a = ok [unfolded actor_ok_def e option.case load_simps t(1) simp_thms if_True]
  have b: "unat (led_consumed led) + n < 2 ^ 64"
    using a t(2) unat_u64_bound [of "led_delivered led"] by simp
  then have "unat (of_nat n :: u64) = n" by (intro unat_of_nat_small) simp
  then have "unat (led_consumed led + of_nat n) = unat (led_consumed led) + n"
    using b by (subst unat_add_no_wrap) simp_all
  then show ?thesis unfolding actor_ok_def e'(1) option.case using a e' t(2) by auto
qed

lemma ok_consume:
  assumes ok: "ok E P (add_mset t T) s" and e: "dm_get X (by_id (sim_registry s)) (task_actor (st_task t)) = Some e"
    and r': "reg_inv r'" "upd (task_actor (st_task t)) (\<lambda>_. e') (sim_registry s) r'" "active e'" "entry_name e' = entry_name e"
      "slots items e' + length (task_messages (st_task t)) = slots items e"
    and xs: "\<forall>x \<in> set xs. \<not> is_restart x"
  shows "ok E P T (s\<lparr>sim_registry := r', readings := n, ledger := (ledger s)[unat (st_ord t) := (ledger s ! unat (st_ord t))
      \<lparr>led_consumed := led_consumed (ledger s ! unat (st_ord t)) + of_nat (length (task_messages (st_task t)))\<rparr>],
      mid_times := bump (st_mids t) (mid_times s), stats := st, trace := trace s @ xs\<rparr>)"
proof -
  let ?i = "task_actor (st_task t)" and ?ord = "st_ord t" and ?m = "length (task_messages (st_task t))"
  let ?led = "ledger s ! unat ?ord"
  let ?led' = "?led\<lparr>led_consumed := led_consumed ?led + of_nat ?m\<rparr>"
  note parts = ok [unfolded sim_ok_def] and tp = task_parts [OF ok] and rt = registered_task [OF ok e]
  have acts: "actors_ok X items (sim_registry s) (ordinals s) (add_mset t T) (ledger s) (actors s)" using parts by blast
  have a: "actor_ok X items (sim_registry s) (ordinals s) (add_mset t T) ?ord ?led ?i"
    using acts tp(1) unfolding rt(1) by (simp add: actors_ok_def)
  have "actor_ok X items r' (ordinals s) T ?ord ?led' ?i"
    by (rule actor_ok_consume [OF a e upd_same [OF r'(2) e] r'(3-5) refl refl])
  then have "actors_ok X items r' (ordinals s) T ((ledger s)[unat ?ord := ?led']) ((actors s)[unat ?ord := ?i])"
    by (intro actors_ok_update [OF acts tp(1)]) (use upd_other [OF r'(2)] rt(1) in auto)
  then have "actors_ok X items r' (ordinals s) T ((ledger s)[unat ?ord := ?led']) (actors s)" by (simp add: rt(1))
  moreover have "tasks_ok ((ledger s)[unat ?ord := ?led']) (next_mid s) T"
    using tp(5) by (rule tasks_ok_led) simp
  moreover have "load_ok ((ledger s)[unat ?ord := ?led']) (next_mid s) P T"
    using parts by (intro load_ok_update [of "ledger s" "next_mid s" P "add_mset t T"])
      (auto simp: load_ok_def Let_def dest!: spec [of _ ?ord])
  moreover have "idents_ok (float_is_zero (duplicate_prob (cfg_faults (sim_cfg s)))) (next_mid s)
      (bump (st_mids t) (mid_times s)) (mid_lost s) P T"
    using idents_ok_bump tp(4) parts by blast
  moreover have "calm_ok (gentle (cfg_faults (sim_cfg s))) ((ledger s)[unat ?ord := ?led']) (mid_lost s)"
    using parts by (intro calm_ok_update) simp_all
  ultimately show ?thesis using parts r'(1) sup_ok_quiet [OF xs] by (simp add: sim_ok_def)
qed

end

end
