(* ===== verification/Sim_Start.thy ===== *)
theory Sim_Start
  imports Sim_Workload
begin

text \<open>
  Construction of the simulated world: the empty world satisfies the invariant, and each
  actor that is spawned joins it under a fresh identity and a fresh name.
\<close>

lemma loads_fresh:
  assumes "flights_ok n nm P" and "tasks_ok leds nm T" and "length leds = n" and "n \<le> unat ord"
  shows "app_load P T ord = 0" "msg_load P ord = 0" "backlog T ord = 0" "task_slots T (sim_actor_id ord inc) = 0"
proof -
  have f: "fst f \<noteq> ord" if "f \<in># P" for f using assms(1,4) that by (fastforce simp: flights_ok_def)
  have t: "st_ord t \<noteq> ord" "task_actor (st_task t) \<noteq> sim_actor_id ord inc" if "t \<in># T" for t
  proof -
    have "unat (st_ord t) < n" "\<exists>inc. task_actor (st_task t) = sim_actor_id (st_ord t) inc"
      using assms(2,3) that by (auto simp: tasks_ok_def)
    then show "st_ord t \<noteq> ord" "task_actor (st_task t) \<noteq> sim_actor_id ord inc"
      using assms(4) sim_actor_id_ord by (auto, metis linorder_not_le)
  qed
  show "app_load P T ord = 0" "msg_load P ord = 0" "backlog T ord = 0" "task_slots T (sim_actor_id ord inc) = 0"
    using f t by (auto simp: app_load_def msg_load_def backlog_def task_slots_def)
qed

lemma nth_snoc:
  fixes ord' :: u64
  assumes "unat ord' < Suc (length xs)" and "unat ord = length xs"
  shows "(xs @ [x]) ! unat ord' = (if ord' = ord then x else xs ! unat ord') \<and> (ord' \<noteq> ord \<longrightarrow> unat ord' < length xs)"
  using assms by (auto simp: nth_append word_unat_eq_iff)

lemma load_ok_snoc:
  assumes "load_ok leds nm P T" and "flights_ok (length leds) nm P" and "tasks_ok leds nm T" and "unat ord = length leds"
    and "led_incarnation led = 0" "led_delivered led = 0"
  shows "load_ok (leds @ [led]) nm (add_mset (ord, [m], []) P) T"
  unfolding load_ok_def Let_def
proof (intro allI impI)
  fix ord' :: u64
  assume "unat ord' < length (leds @ [led])"
  then have o: "unat ord' < Suc (length leds)" by simp
  let ?l = "(leds @ [led]) ! unat ord'"
  note n = nth_snoc [OF o assms(4), of led]
  have "?l = led" "app_load P T ord = 0" "msg_load P ord = 0" "backlog T ord = 0" if "ord' = ord"
    using loads_fresh [OF assms(2,3) refl, of ord] assms(4) that n by auto
  then show "unat (led_incarnation ?l) + app_load (add_mset (ord, [m], []) P) T ord' \<le> 2 * unat nm
    \<and> unat (led_delivered ?l) + msg_load (add_mset (ord, [m], []) P) ord' \<le> 2 * unat nm + 1 + unat (led_incarnation ?l)
    \<and> backlog T ord' \<le> unat (led_delivered ?l)"
    using assms(1,5,6) n by (cases "ord' = ord") (auto simp: load_ok_def Let_def)
qed

lemma tasks_ok_snoc: "tasks_ok leds nm T \<Longrightarrow> tasks_ok (leds @ [led]) nm T"
  by (fastforce simp: tasks_ok_def nth_append)

lemma flights_ok_more: "flights_ok n nm P \<Longrightarrow> flights_ok (Suc n) nm P"
  by (fastforce simp: flights_ok_def)

context registry_env
begin

lemma attempt_delivery_quiet:
  assumes "attempt_delivery X ord msgs mids was s = Some s'" and "\<forall>x \<in> set (trace s). \<not> is_restart x"
  shows "\<forall>x \<in> set (trace s'). \<not> is_restart x"
proof -
  obtain st where f: "fold (reject_one DeadTarget ord) mids s = s\<lparr>mid_lost := lose mids (mid_lost s), stats := st,
      trace := trace s @ map (\<lambda>mid. OpReject mid ord DeadTarget) mids\<rparr>"
    using fold_reject_one by blast
  obtain st' xs where p: "park ord msgs mids was s = s\<lparr>stats := st', trace := trace s @ xs,
       blocked := blocked s @ [\<lparr>dp_ord = ord, dp_msgs = msgs, dp_mids = mids, was_blocked = True\<rparr>]\<rparr>"
      "\<forall>x \<in> set xs. \<not> is_restart x"
    using park_parts by blast
  have b: "\<forall>x \<in> set (trace s'). \<not> is_restart x" if "book_delivery ord i msgs mids was (s\<lparr>sim_registry := r\<rparr>) = Some s'" for i r
    using that assms(2)
    by (cases mids; cases msgs) (auto simp: book_delivery_def push_trace_def is_restart_def Let_def bind_eq_Some_conv)
  have "s' = fold (reject_one DeadTarget ord) mids s \<or> s' = park ord msgs mids was s
      \<or> (\<exists>i mb. book_delivery ord i msgs mids was (s\<lparr>sim_registry := put_mailbox X i mb (sim_registry s)\<rparr>) = Some s')"
    using assms(1) unfolding attempt_delivery_def bind_eq_Some_conv by (auto simp: bind_eq_Some_conv split: if_split_asm)
  then show ?thesis
  proof (elim disjE exE)
    assume "s' = fold (reject_one DeadTarget ord) mids s"
    then show ?thesis unfolding f using assms(2) by (auto simp: is_restart_def)
  next
    assume "s' = park ord msgs mids was s"
    then show ?thesis unfolding p(1) using assms(2) p(2) by auto
  next
    fix i mb
    assume "book_delivery ord i msgs mids was (s\<lparr>sim_registry := put_mailbox X i mb (sim_registry s)\<rparr>) = Some s'"
    then show ?thesis by (rule b)
  qed
qed

lemma actors_ok_snoc:
  assumes ok: "actors_ok X items r ords T leds acts" and ord: "unat ord = length leds"
    and r': "dm_get X (by_id r') = (dm_get X (by_id r))(i \<mapsto> e)" and ords': "ords' = hm_insert ords (actor_key i) ord"
    and i: "i = sim_actor_id ord (led_incarnation led)" and new: "actor_ok X items r' ords' T ord led i"
  shows "actors_ok X items r' ords' T (leds @ [led]) (acts @ [i])"
proof -
  have len: "length acts = length leds" using ok by (simp add: actors_ok_def)
  have "actor_ok X items r' ords' T ord' ((leds @ [led]) ! unat ord') ((acts @ [i]) ! unat ord')"
    if o: "unat ord' < Suc (length leds)" for ord'
  proof (cases "ord' = ord")
    case True
    then show ?thesis using new ord len by (simp add: nth_append)
  next
    case False
    then have o': "unat ord' < length leds" using nth_snoc [OF o ord, of undefined] by simp
    then have a: "actor_ok X items r ords T ord' (leds ! unat ord') (acts ! unat ord')" using ok by (simp add: actors_ok_def)
    have "acts ! unat ord' \<noteq> i" using actor_ok_id [OF a] i False sim_actor_id_ord by metis
    then have "actor_ok X items r' ords' T ord' (leds ! unat ord') (acts ! unat ord')
        = actor_ok X items r ords T ord' (leds ! unat ord') (acts ! unat ord')"
      by (intro actor_ok_cong) (simp_all add: r' ords' hm_simps)
    then show ?thesis using a o' len by (simp add: nth_append)
  qed
  moreover have "\<forall>j. dm_get X (by_id r') j \<noteq> None \<longrightarrow> j \<in> set (acts @ [i])"
    using ok unfolding actors_ok_def r' by auto
  ultimately show ?thesis using len by (simp add: actors_ok_def)
qed

lemma spawn_actor_inv:
  assumes inv: "world_inv E {#} s" and ord: "unat ord = length (ledger s)" and n: "Suc (length (ledger s)) \<le> 2 ^ 32"
    and quiet: "\<forall>x \<in> set (trace s). \<not> is_restart x"
  shows "\<exists>s'. spawn_actor X E ord s = Some s' \<and> world_inv E {#} s' \<and> length (ledger s') = Suc (length (ledger s))
    \<and> sim_cfg s' = sim_cfg s \<and> (\<forall>x \<in> set (trace s'). \<not> is_restart x)
    \<and> default_config (sim_registry s') = default_config (sim_registry s) \<and> delayed s' = delayed s \<and> tick s' = tick s
    \<and> length (mid_times s') = length (mid_times s) \<and> work_left s' \<le> Suc (work_left s)"
proof -
  let ?P = "pending_flights s" and ?T = "tasks s" and ?i = "sim_actor_id ord 0" and ?m = "cfg_max_restarts (sim_cfg s)"
  define led where "led = ActorLedger_default\<lparr>led_alive := True\<rparr>"
  note parts = inv [unfolded sim_inv_def sim_ok_def, simplified]
  have acts: "actors_ok X items (sim_registry s) (ordinals s) ?T (ledger s) (actors s)" and reg: "reg_inv (sim_registry s)"
    and tk: "tasks_ok (ledger s) (next_mid s) ?T" and fl: "flights_ok (length (ledger s)) (next_mid s) ?P"
    using parts by blast+
  have other: "\<exists>ord'. unat ord' < length (ledger s) \<and> j = sim_actor_id ord' (led_incarnation (ledger s ! unat ord'))
      \<and> entry_name e = Some (actor_name ord' (led_incarnation (ledger s ! unat ord')))"
    if "dm_get X (by_id (sim_registry s)) j = Some e" for j e
  proof -
    have "j \<in> set (actors s)" using acts that by (auto simp: actors_ok_def)
    then obtain k where k: "k < length (ledger s)" "j = actors s ! k" using acts by (auto simp: actors_ok_def in_set_conv_nth)
    have uk: "unat (of_nat k :: u64) = k" using k(1) n by (intro unat_of_nat_small) simp
    have "actor_ok X items (sim_registry s) (ordinals s) ?T (of_nat k) (ledger s ! k) j"
      using acts k uk by (auto simp: actors_ok_def dest!: spec [of _ "of_nat k :: u64"])
    then show ?thesis using that k(1) uk unfolding actor_ok_def by (intro exI [of _ "of_nat k :: u64"]) simp
  qed
  have new: "dm_get X (by_id (sim_registry s)) ?i = None"
    using other [of ?i] sim_actor_id_ord ord by (cases "dm_get X (by_id (sim_registry s)) ?i") fastforce+
  have name: "hm_get (by_name (sim_registry s)) (actor_name ord 0) = None"
    by (rule name_free [OF reg]) (use other ord in fastforce)
  from register_fresh [OF reg new name, of "unix_clock E (readings s)"] obtain mb r' e where
    r': "register_named X (unix_clock E (readings s)) ?i (Some (actor_name ord 0)) (sim_registry s) = (Ok mb, r')" "reg_inv r'"
      "dm_get X (by_id r') = (dm_get X (by_id (sim_registry s)))(?i \<mapsto> e)" "entry_name e = Some (actor_name ord 0)"
      "from_u8 (entry_state e) = Creating" "slots items e = 0" "default_config r' = default_config (sim_registry s)"
    by blast
  obtain j t' where t': "start_child_under (fresh_ids E (readings s)) (sim_root s)
      (ChildSpec_restart_policy Permanent (ChildSpec_new (supervisor_name ord))) (tree s) = (Ok j, t')"
      "sup_ok E ?m (Suc (length (ledger s))) (trace s) t' (sim_root s)"
    using sup_ok_start_child [OF _ ord quiet] parts by blast
  define ords' where "ords' = hm_insert (ordinals s) (actor_key ?i) ord"
  define s1 where "s1 = s\<lparr>sim_registry := r', tree := t', readings := readings s + 1, actors := actors s @ [?i],
      ordinals := ords', ledger := ledger s @ [led], trace := trace s @ [OpSpawn ord]\<rparr>"
  have sp: "spawn_actor X E ord s = attempt_delivery X ord [start_message] [] False s1"
    using r'(1) t'(1) by (simp add: spawn_actor_def deliver_or_block_def push_trace_def Let_def s1_def led_def ords'_def)
  have pf: "pending_flights s1 = pending_flights s" by (simp add: s1_def pending_flights_def)
  have led: "led_incarnation led = 0" "led_delivered led = 0" "led_consumed led = 0" "led_dropped led = 0" "led_alive led"
    by (simp_all add: led_def ActorLedger_default_def)
  have "actor_ok X items r' ords' ?T ord led ?i"
    using r'(3-6) led loads_fresh(4) [OF fl tk refl, of ord] ord unfolding actor_ok_def ords'_def by (simp add: hm_simps)
  then have "actors_ok X items r' ords' ?T (ledger s @ [led]) (actors s @ [?i])"
    using led by (intro actors_ok_snoc [OF acts ord r'(3) ords'_def]) simp_all
  moreover have "load_ok (ledger s @ [led]) (next_mid s) (add_mset (ord, [start_message], []) ?P) ?T"
    by (rule load_ok_snoc [OF _ fl tk ord led(1,2)]) (use parts in blast)
  moreover have "flights_ok (Suc (length (ledger s))) (next_mid s) (add_mset (ord, [start_message], []) ?P)"
    using flights_ok_more [OF fl] ord by (simp add: shape_ok_def)
  moreover have "idents_ok (float_is_zero (duplicate_prob (cfg_faults (sim_cfg s)))) (next_mid s) (mid_times s) (mid_lost s)
      (add_mset (ord, [start_message], []) ?P) ?T"
    using parts by (simp add: idents_ok_def)
  moreover have "sup_ok E ?m (Suc (length (ledger s))) (trace s @ [OpSpawn ord]) t' (sim_root s)"
    using t'(2) sup_ok_quiet [of "[OpSpawn ord]"] by (simp add: is_restart_def)
  ultimately have "world_inv E (add_mset (ord, [start_message], []) {#}) s1"
    using parts r'(2) n tasks_ok_snoc [OF tk] led
    by (simp add: sim_inv_def sim_ok_def calm_ok_def s1_def pending_flights_def)
  from attempt_delivery_inv [OF this, of False] obtain s' where
    s': "attempt_delivery X ord [start_message] [] False s1 = Some s'" "world_inv E {#} s'" "settled s1 s'"
      "work (pending_flights s') (tasks s') \<le> work (add_mset (ord, [start_message], []) (pending_flights s1)) (tasks s1)"
    by blast
  have "work_left s' \<le> Suc (work_left s)"
    using s'(3,4) pf by (simp add: settled_def same_world_def work_left_def s1_def)
  moreover have "\<forall>x \<in> set (trace s'). \<not> is_restart x"
    using attempt_delivery_quiet [OF s'(1)] quiet by (simp add: s1_def is_restart_def)
  ultimately show ?thesis using sp s' r'(7) by (simp add: settled_def same_world_def s1_def)
qed

section \<open>Construction\<close>

lemma empty_world_inv:
  assumes "config_ok (cfg_mailbox cfg)" and "unat (cfg_messages cfg) < 2 ^ 20"
  shows "world_inv E {#} (empty_world X R E seed cfg)"
proof -
  have "idents_ok d 0 (replicate (unat (cfg_messages cfg)) 0) (replicate (unat (cfg_messages cfg)) False) {#} {#}" for d
    using assms(2) by (simp add: idents_ok_def)
  moreover have "actors_ok X items (with_mailbox_config X (cfg_mailbox cfg)) [] {#} [] []"
    by (simp add: actors_ok_def with_mailbox_config_def get_new)
  ultimately show ?thesis
    using new_registry_inv [OF assms(1)] sup_ok_new [of E "cfg_max_restarts cfg" "fresh_ids E 0"]
    by (simp add: sim_inv_def queued_ok_def ReadySet_new_def ready_tasks_def sim_ok_def calm_ok_def empty_world_def pending_flights_def tasks_ok_def flights_ok_def load_ok_def Let_def)
qed

lemma spawn_all_inv:
  assumes "config_ok (cfg_mailbox cfg)" and "unat (cfg_messages cfg) < 2 ^ 20" and "n \<le> 2 ^ 32"
  shows "\<exists>s. spawn_all X E n (empty_world X R E seed cfg) = Some s \<and> world_inv E {#} s \<and> length (ledger s) = n
    \<and> sim_cfg s = cfg \<and> (\<forall>x \<in> set (trace s). \<not> is_restart x)
    \<and> default_config (sim_registry s) = cfg_mailbox cfg \<and> delayed s = [] \<and> tick s = 0
    \<and> length (mid_times s) = unat (cfg_messages cfg) \<and> work_left s \<le> 3 * unat (cfg_messages cfg) + n"
  using assms(3)
proof (induction n)
  case 0
  have "work_left (empty_world X R E seed cfg) = 3 * unat (cfg_messages cfg)"
    by (simp add: work_left_def empty_world_def pending_flights_def Let_def)
  then show ?case
    using empty_world_inv [OF assms(1,2)] by (simp add: empty_world_def with_mailbox_config_def Let_def)
next
  case (Suc n)
  then obtain s where s: "spawn_all X E n (empty_world X R E seed cfg) = Some s" "world_inv E {#} s" "length (ledger s) = n"
    "sim_cfg s = cfg" "\<forall>x \<in> set (trace s). \<not> is_restart x"
    "default_config (sim_registry s) = cfg_mailbox cfg" "delayed s = []" "tick s = 0" "length (mid_times s) = unat (cfg_messages cfg)"
    "work_left s \<le> 3 * unat (cfg_messages cfg) + n"
    by auto
  have "unat (of_nat n :: u64) = length (ledger s)" unfolding s(3) using Suc.prems by (intro unat_of_nat_small) simp
  from spawn_actor_inv [OF s(2) this _ s(5)] Suc.prems show ?case using s by auto
qed

end

end
