(* ===== verification/Sim_Crash.thy ===== *)
theory Sim_Crash
  imports Sim_Processing Sim_Workload
begin

text \<open>
  A task that crashes. Between the crash and the answer of the supervisor the actor is
  registered, failed and empty, and its ledger balances; a granted restart replaces it by
  a fresh incarnation, a refused one removes it.
\<close>

section \<open>The crashed actor\<close>

definition crashed_ok ::
  "('q, 's, 'n, 'd, 'z) rg_ext_scheme \<Rightarrow> ('q \<Rightarrow> message list) \<Rightarrow> ('q \<Rightarrow> nat) \<Rightarrow> ('s \<Rightarrow> nat) \<Rightarrow> ('s \<Rightarrow> bool)
   \<Rightarrow> ('d \<Rightarrow> bool) \<Rightarrow> sim_env \<Rightarrow> flight multiset \<Rightarrow> sim_task multiset \<Rightarrow> u64 \<Rightarrow> ('d, 'r) sim \<Rightarrow> bool" where
  "crashed_ok X items cap permits idle dinv E P T ord s =
     (rg_inv X items cap permits idle dinv (sim_registry s)
      \<and> length (ledger s) \<le> 2 ^ 32 \<and> unat ord < length (ledger s)
      \<and> others_ok X items (sim_registry s) (ordinals s) T (ledger s) (actors s) ord
      \<and> (\<exists>e. dm_get X (by_id (sim_registry s)) (actors s ! unat ord) = Some e \<and> slots items e = 0)
      \<and> led_alive (ledger s ! unat ord) \<and> \<not> gentle (cfg_faults (sim_cfg s))
      \<and> unat (led_delivered (ledger s ! unat ord)) =
          unat (led_consumed (ledger s ! unat ord)) + unat (led_dropped (ledger s ! unat ord))
      \<and> Suc (unat (led_incarnation (ledger s ! unat ord))) + app_load P T ord \<le> 2 * unat (next_mid s)
      \<and> tasks_ok (ledger s) (next_mid s) T
      \<and> flights_ok (length (ledger s)) (next_mid s) P
      \<and> load_ok (ledger s) (next_mid s) P T
      \<and> idents_ok (float_is_zero (duplicate_prob (cfg_faults (sim_cfg s)))) (next_mid s)
          (mid_times s) (mid_lost s) P T
      \<and> sup_ok E (cfg_max_restarts (sim_cfg s)) (length (ledger s)) (trace s) (tree s) (sim_root s)
      \<and> sim_exec s = SimExecutor_new)"

definition steady :: "('d, 'r) sim \<Rightarrow> ('d, 'r) sim \<Rightarrow> bool" where
  "steady s s' =
     (same_world s s' \<and> ready s' = ready s \<and> delayed s' = delayed s \<and> blocked s' = blocked s
      \<and> next_mid s' = next_mid s)"

lemma lose_unprocessed_eq:
  "\<forall>mid \<in> set mids. unat mid < length (mid_times s) \<Longrightarrow>
     lose_unprocessed mids s = Some (s\<lparr>mid_lost := lose (filter (\<lambda>mid. mid_times s ! unat mid = 0) mids) (mid_lost s)\<rparr>)"
proof (induction mids arbitrary: s)
  case Nil
  show ?case by (simp add: lose_def)
next
  case (Cons mid mids)
  have "\<forall>m \<in> set mids. unat m < length (mid_times (if mid_times s ! unat mid = 0 then mark_lost mid s else s))"
    using Cons.prems by (simp add: mark_lost_def)
  from Cons.IH [OF this] Cons.prems show ?case
    by (simp add: index_def mark_lost_def lose_Cons)
qed

context registry_env
begin

abbreviation crashed :: "sim_env \<Rightarrow> flight multiset \<Rightarrow> sim_task multiset \<Rightarrow> u64 \<Rightarrow> ('d, 'r) sim \<Rightarrow> bool" where
  "crashed \<equiv> crashed_ok X items cap permits idle dinv"

lemma run_pipeline_crashed:
  assumes ok: "ok E P (add_mset t T) s" and e: "dm_get X (by_id (sim_registry s)) (task_actor (st_task t)) = Some e"
  shows "\<exists>r' e'. run_pipeline X E True t s = Some ([], s\<lparr>sim_registry := r', readings := readings s + 1\<rparr>)
    \<and> reg_inv r' \<and> upd (task_actor (st_task t)) (\<lambda>_. e') (sim_registry s) r' \<and> slots items e' = 0"
proof -
  note rt = registered_task [OF ok e]
  have x: "sim_exec s = SimExecutor_new" "reg_inv (sim_registry s)" using ok by (simp_all add: sim_ok_def)
  have c: "crash_next (arm_crash True SimExecutor_new)" by (simp add: arm_crash_def)
  from sim_process_task_crashed [OF x(2) e rt(2) c, of "unix_clock E (readings s)"]
  obtain r' e' where p: "sim_process_task X (Some SimExecutor) (unix_clock E (readings s)) 1 (st_task t) (sim_registry s)
      (arm_crash True SimExecutor_new) = Some (0, r', (arm_crash True SimExecutor_new)\<lparr>crash_next := False\<rparr>)"
    "reg_inv r'" "upd (task_actor (st_task t)) (\<lambda>_. e') (sim_registry s) r'" "slots items e' = 0"
    by blast
  have "run_pipeline X E True t s = Some ([], s\<lparr>sim_registry := r', readings := readings s + 1\<rparr>)"
    unfolding run_pipeline_def x(1) p(1)
    using x(1) by (simp add: drain_records_def arm_crash_def SimExecutor_new_def Let_def)
  then show ?thesis using p(2-4) by blast
qed

lemma settle_crash_ok:
  assumes ok: "ok E P (add_mset t T) s" and e: "dm_get X (by_id (sim_registry s)) (task_actor (st_task t)) = Some e"
    and r': "reg_inv r'" "upd (task_actor (st_task t)) (\<lambda>_. e') (sim_registry s) r'" "slots items e' = 0"
    and app: "0 < app_len t" and rough: "\<not> gentle (cfg_faults (sim_cfg s))"
  shows "\<exists>s'. settle_crash X (st_ord t) (st_mids t) (s\<lparr>sim_registry := r', readings := n, stats := st\<rparr>)
      = Some s' \<and> crashed E P T (st_ord t) s' \<and> steady s s'"
proof -
  let ?ord = "st_ord t" and ?i = "task_actor (st_task t)"
  let ?led = "ledger s ! unat ?ord"
  note parts = ok [unfolded sim_ok_def] and tp = task_parts [OF ok] and rt = registered_task [OF ok e]
  have e': "dm_get X (by_id r') ?i = Some e'" using upd_same [OF r'(2) e] .
  have ml: "Mailbox_len (mailbox e') = 0" using mailbox_len(1) [OF r'(1) e'] r'(3) by (simp add: unat_eq_0)
  define d where "d = saturating_sub (saturating_sub (led_delivered ?led) (led_consumed ?led)) (led_dropped ?led)"
  define led' where "led' = ?led\<lparr>led_dropped := led_dropped ?led + d\<rparr>"
  have d: "unat d = length (task_messages (st_task t)) + task_slots T ?i"
    using rt(7) by (simp add: d_def unat_saturating_sub)
  then have "unat (led_dropped ?led + d) = unat (led_dropped ?led) + unat d"
    using rt(7) unat_u64_bound [of "led_delivered ?led"] by (subst unat_add_no_wrap) simp_all
  then have bal: "unat (led_delivered led') = unat (led_consumed led') + unat (led_dropped led')"
    using rt(7) d by (simp add: led'_def)
  let ?lost = "filter (\<lambda>mid. mid_times s ! unat mid = 0) (st_mids t)"
  have inr: "\<forall>mid \<in> set (st_mids t). unat mid < length (mid_times s)"
    using parts tp(4) by (auto simp: idents_ok_def word_less_nat_alt dest!: bspec)
  define s' where "s' = s\<lparr>sim_registry := r', readings := n, ledger := (ledger s)[unat ?ord := led'],
      stats := st\<lparr>ss_dropped := ss_dropped st + d\<rparr>, mid_lost := lose ?lost (mid_lost s),
      trace := trace s @ [OpCrash ?ord d]\<rparr>"
  have acts: "actors_ok X items (sim_registry s) (ordinals s) (add_mset t T) (ledger s) (actors s)" using parts by blast
  have "index (actors s) ?ord = Some ?i" using acts tp(1) rt(1) by (simp add: index_def actors_ok_def)
  moreover have zero: "saturating_sub d 0 = d" by (simp add: saturating_sub_def)
  ultimately have settle: "settle_crash X ?ord (st_mids t) (s\<lparr>sim_registry := r', readings := n, stats := st\<rparr>)
      = Some s'"
    using tp(1) e' ml inr zero
    by (simp add: push_trace_def settle_crash_def get_mailbox_def index_def Let_def lose_unprocessed_eq s'_def led'_def flip: d_def)
  have "others_ok X items r' (ordinals s) T ((ledger s)[unat ?ord := led']) ((actors s)[unat ?ord := ?i]) ?ord"
  proof (rule others_ok_update [OF others_ok_if_actors_ok [OF acts] tp(1)])
    show "?i = sim_actor_id ?ord (led_incarnation led')"
      using acts tp(1) rt(1) by (auto simp: actors_ok_def led'_def dest: actor_ok_id)
  qed (use upd_other [OF r'(2)] rt(1) in auto)
  then have oth: "others_ok X items r' (ordinals s) T ((ledger s)[unat ?ord := led']) (actors s) ?ord" by (simp add: rt(1))
  have ld: "load_ok (ledger s) (next_mid s) P (add_mset t T)" using parts by blast
  have "load_ok ((ledger s)[unat ?ord := led']) (next_mid s) P T"
    using ld by (intro load_ok_update [OF ld]) (auto simp: load_ok_def led'_def Let_def dest!: spec [of _ ?ord])
  moreover have "Suc (unat (led_incarnation led')) + app_load P T ?ord \<le> 2 * unat (next_mid s)"
  proof -
    have "unat (led_incarnation led') + (app_len t + app_load P T ?ord) \<le> 2 * unat (next_mid s)"
      using ld tp(1) by (auto simp: load_ok_def Let_def led'_def app_len_def dest!: spec [of _ ?ord])
    then show ?thesis using app by linarith
  qed
  moreover have "tasks_ok ((ledger s)[unat ?ord := led']) (next_mid s) T"
    using tp(5) by (rule tasks_ok_led) (simp add: led'_def)
  moreover have "idents_ok (float_is_zero (duplicate_prob (cfg_faults (sim_cfg s)))) (next_mid s) (mid_times s)
      (lose ?lost (mid_lost s)) P T"
  proof (rule idents_ok_lose [where mids = "st_mids t" and P' = P and T' = "add_mset t T" and lost = "mid_lost s"])
    show "\<forall>mid \<in> set (st_mids t). mid_times s ! unat mid \<noteq> 0 \<or> lose ?lost (mid_lost s) ! unat mid"
      using inr parts by (auto simp: idents_ok_def intro!: lose_in)
  qed (use parts in \<open>simp_all add: lose_mono\<close>)
  moreover have "led_alive led'" using rt(4) by (simp add: led'_def)
  ultimately have "crashed E P T ?ord s'"
    using parts r' tp(1) oth bal e' rough sup_ok_quiet [of "[OpCrash ?ord d]"]
    by (simp add: crashed_ok_def s'_def is_restart_def flip: rt(1))
  moreover have "steady s s'" using upd_config [OF r'(2)] by (simp add: s'_def steady_def same_world_def)
  ultimately show ?thesis using settle by blast
qed

section \<open>A refused restart\<close>

lemma clear_mailbox_ok:
  assumes inv: "reg_inv r" and e: "dm_get X (by_id r) i = Some e"
  shows "\<exists>r' mb. clear_mailbox X i r = Some r' \<and> reg_inv r' \<and> upd i (\<lambda>e. e\<lparr>mailbox := mb\<rparr>) r r'"
proof -
  have d: "dinv (by_id r)" using inv by (simp add: rg_inv_def)
  obtain mb where mb: "Mailbox_clear X (mailbox e) = Some mb" "mb_inv items cap permits idle (default_config r) i mb"
    using clear_ok [OF reg_inv_entry(2) [OF inv e]] by blast
  have "clear_mailbox X i r = Some (put_mailbox X i mb r)" using e mb(1) by (simp add: clear_mailbox_def get_mailbox_def)
  then show ?thesis using put_mailbox_ok [OF inv e mb(2)] put_mailbox_upd [OF d e] by blast
qed

lemma sim_kill_ok:
  assumes cr: "crashed E P T ord s"
  shows "\<exists>s'. sim_kill X ord s = Some s' \<and> ok E P T s' \<and> same_world s s' \<and> ready s' = ready s
    \<and> delayed s' = delayed s \<and> blocked s' = blocked s \<and> next_mid s' = next_mid s"
proof -
  note c = cr [unfolded crashed_ok_def]
  let ?i = "actors s ! unat ord" and ?led = "ledger s ! unat ord"
  have ord: "unat ord < length (ledger s)" and inv: "reg_inv (sim_registry s)"
    and oth: "others_ok X items (sim_registry s) (ordinals s) T (ledger s) (actors s) ord" using c by blast+
  obtain e where e: "dm_get X (by_id (sim_registry s)) ?i = Some e" "slots items e = 0" using c by blast
  obtain r1 mb where r1: "clear_mailbox X ?i (sim_registry s) = Some r1" "reg_inv r1"
    "upd ?i (\<lambda>e. e\<lparr>mailbox := mb\<rparr>) (sim_registry s) r1"
    using clear_mailbox_ok [OF inv e(1)] by blast
  define r2 where "r2 = snd (unregister X ?i r1)"
  note u = unregister_effect [OF r1(2), of ?i, folded r2_def]
  have ml: "Mailbox_len (mailbox e) = 0" using mailbox_len(1) [OF inv e(1)] e(2) by (simp add: unat_eq_0)
  define led' where "led' = ?led\<lparr>led_alive := False\<rparr>"
  define ords' where "ords' = hm_remove (ordinals s) (actor_key ?i)"
  define s' where "s' = s\<lparr>ledger := (ledger s)[unat ord := led'],
      stats := (stats s)\<lparr>ss_escalated := ss_escalated (stats s) + 1\<rparr>, sim_registry := r2, ordinals := ords',
      trace := trace s @ [OpKill ord 0]\<rparr>"
  have kill: "sim_kill X ord s = Some s'"
    using ord oth e(1) r1(1) ml
    by (simp add: sim_kill_def index_def others_ok_def get_mailbox_def Let_def push_trace_def s'_def led'_def ords'_def r2_def)
  have id: "?i = sim_actor_id ord (led_incarnation led')" using oth ord unfolding others_ok_def led'_def by simp
  have "others_ok X items r2 ords' T ((ledger s)[unat ord := led']) ((actors s)[unat ord := ?i]) ord"
    by (rule others_ok_update [OF oth ord _ _ id]) (use u(2) upd_other [OF r1(3)] in \<open>auto simp: ords'_def hm_simps\<close>)
  moreover have "actor_ok X items r2 ords' T ord led' ?i"
    unfolding actor_ok_def using id u(2) by (simp add: led'_def flip: id)
  ultimately have "actors_ok X items r2 ords' T ((ledger s)[unat ord := led']) (actors s)"
    using ord by (intro actors_ok_rejoin [where ord = ord]) simp_all
  moreover have "tasks_ok ((ledger s)[unat ord := led']) (next_mid s) T"
    using c by (intro tasks_ok_led) (simp_all add: led'_def)
  moreover have "load_ok ((ledger s)[unat ord := led']) (next_mid s) P T"
    using c by (intro load_ok_update [of "ledger s" "next_mid s" P T])
      (auto simp: load_ok_def led'_def Let_def dest!: spec [of _ ord])
  ultimately have "ok E P T s'"
    using c u(1) sup_ok_quiet [of "[OpKill ord 0]"] by (simp add: sim_ok_def calm_ok_def s'_def is_restart_def)
  then show ?thesis using kill u(3) upd_config [OF r1(3)] by (simp add: s'_def same_world_def)
qed

section \<open>A granted restart\<close>

lemma no_task_yet:
  assumes "tasks_ok leds nm T" and "unat ord < length leds" and "unat (led_incarnation (leds ! unat ord)) < 2 ^ 21 - 1"
  shows "task_slots T (sim_actor_id ord (led_incarnation (leds ! unat ord) + 1)) = 0"
proof -
  let ?inc = "led_incarnation (leds ! unat ord)"
  have inc: "unat (?inc + 1) = Suc (unat ?inc)" using assms(3) by (subst unat_add_no_wrap) simp_all
  have "task_actor (st_task t) \<noteq> sim_actor_id ord (?inc + 1)" if "t \<in># T" for t
  proof
    assume eq: "task_actor (st_task t) = sim_actor_id ord (?inc + 1)"
    obtain inc' where i: "inc' \<le> led_incarnation (leds ! unat (st_ord t))" "task_actor (st_task t) = sim_actor_id (st_ord t) inc'"
      using assms(1) \<open>t \<in># T\<close> by (auto simp: tasks_ok_def)
    then have o: "st_ord t = ord" using eq sim_actor_id_ord by metis
    then have "unat inc' \<le> unat ?inc" using i(1) by (simp add: word_le_nat_alt)
    then show False using eq i(2) o assms(3) inc sim_actor_id_eq [of inc' "?inc + 1"] by auto
  qed
  then show ?thesis unfolding task_slots_def by (simp add: sum_mset.neutral)
qed

lemma fresh_incarnation:
  assumes oth: "others_ok X items r ords T leds acts ord" and ord: "unat ord < length leds" "length leds \<le> 2 ^ 32"
    and inv: "reg_inv r" and r1: "r1 = snd (unregister X (acts ! unat ord) r)"
  shows "dm_get X (by_id r1) (sim_actor_id ord inc) = None" and "hm_get (by_name r1) (actor_name ord inc) = None"
proof -
  let ?old = "acts ! unat ord"
  note u = unregister_effect [OF inv, of ?old, folded r1]
  have other: "\<exists>ord'. ord' \<noteq> ord \<and> i = sim_actor_id ord' (led_incarnation (leds ! unat ord'))
      \<and> entry_name e = Some (actor_name ord' (led_incarnation (leds ! unat ord')))"
    if e: "dm_get X (by_id r1) i = Some e" for i e
  proof -
    have i: "i \<noteq> ?old" "dm_get X (by_id r) i = Some e" using e u(2) by (auto split: if_splits)
    then have "i \<in> set acts" using oth by (auto simp: others_ok_def)
    then obtain k where k: "k < length leds" "i = acts ! k" using oth by (auto simp: others_ok_def in_set_conv_nth)
    have uk: "unat (of_nat k :: u64) = k" using k(1) ord(2) by (intro unat_of_nat_small) simp
    have o: "(of_nat k :: u64) \<noteq> ord" using i(1) k(2) uk by auto
    have "actor_ok X items r ords T (of_nat k) (leds ! k) (acts ! k)"
      using oth k(1) uk o unfolding others_ok_def by metis
    then show ?thesis using i(2) o uk unfolding k(2) actor_ok_def by (intro exI [of _ "of_nat k :: u64"]) simp
  qed
  show "dm_get X (by_id r1) (sim_actor_id ord inc) = None"
    using other [of "sim_actor_id ord inc"] sim_actor_id_ord by (cases "dm_get X (by_id r1) (sim_actor_id ord inc)") auto
  show "hm_get (by_name r1) (actor_name ord inc) = None"
    by (rule name_free [OF u(1)]) (use other in fastforce)
qed

lemma respawn_inv:
  assumes cr: "crashed E (pending_flights s) (tasks s) ord s" and qd: "queued_ok (ready s)"
  shows "\<exists>s'. respawn X E ord s = Some s' \<and> world_inv E {#} s' \<and> same_world s s' \<and> next_mid s' = next_mid s
    \<and> delayed s' = delayed s \<and> work (pending_flights s') (tasks s') \<le> 1 + work (pending_flights s) (tasks s)"
proof -
  note c = cr [unfolded crashed_ok_def]
  let ?P = "pending_flights s" and ?T = "tasks s" and ?old = "actors s ! unat ord" and ?led = "ledger s ! unat ord"
  have ord: "unat ord < length (ledger s)" "length (ledger s) \<le> 2 ^ 32" and inv: "reg_inv (sim_registry s)"
    and oth: "others_ok X items (sim_registry s) (ordinals s) ?T (ledger s) (actors s) ord"
    and ld: "load_ok (ledger s) (next_mid s) ?P ?T" using c by blast+
  define inc where "inc = led_incarnation ?led + 1"
  define led' where "led' = ?led\<lparr>led_incarnation := inc\<rparr>"
  define r1 where "r1 = snd (unregister X ?old (sim_registry s))"
  define i where "i = sim_actor_id ord inc"
  define t' where "t' = snd (on_supervisor (sim_root s) (mark_child_running (supervisor_name ord)) (tree s))"
  define ords' where "ords' = hm_insert (hm_remove (ordinals s) (actor_key ?old)) (actor_key i) ord"
  have ib: "unat (led_incarnation ?led) < 2 ^ 21 - 1" using inc_bound(1) [OF ld _ ord(1)] c by blast
  have inc: "unat inc = Suc (unat (led_incarnation ?led))" unfolding inc_def using ib by (subst unat_add_no_wrap) simp_all
  note u = unregister_effect [OF inv, of ?old, folded r1_def]
  note fr = fresh_incarnation [OF oth ord inv r1_def, of inc, folded i_def]
  from register_fresh [OF u(1) fr, of "unix_clock E (readings s)"] obtain mb r2 e where
    r2: "register_named X (unix_clock E (readings s)) i (Some (actor_name ord inc)) r1 = (Ok mb, r2)" "reg_inv r2"
      "dm_get X (by_id r2) = (dm_get X (by_id r1))(i \<mapsto> e)" "entry_name e = Some (actor_name ord inc)"
      "from_u8 (entry_state e) = Creating" "slots items e = 0" "default_config r2 = default_config r1"
    by blast
  define s' where "s' = s\<lparr>ledger := (ledger s)[unat ord := led'], tree := t', sim_registry := r2,
      readings := readings s + 1, actors := (actors s)[unat ord := i], ordinals := ords', trace := trace s @ [OpSpawn ord]\<rparr>"
  have len: "length (actors s) = length (ledger s)" using oth by (simp add: others_ok_def)
  have re: "respawn X E ord s = deliver_or_block X ord [start_message] [] 0 s'"
    using ord(1) len r2(1)
    by (simp add: respawn_def index_def Let_def push_trace_def s'_def led'_def ords'_def inc_def r1_def i_def t'_def)
  have id: "i = sim_actor_id ord (led_incarnation led')" by (simp add: i_def led'_def)
  have "others_ok X items r2 ords' ?T ((ledger s)[unat ord := led']) ((actors s)[unat ord := i]) ord"
    by (rule others_ok_update [OF oth ord(1) _ _ id]) (use u(2) r2(3) in \<open>auto simp: ords'_def hm_simps\<close>)
  moreover have "actor_ok X items r2 ords' ?T ord led' i"
    using no_task_yet [OF _ ord(1) ib, of "next_mid s" ?T] c r2(3-6)
    unfolding actor_ok_def led'_def ords'_def by (simp add: hm_simps i_def inc_def)
  ultimately have "actors_ok X items r2 ords' ?T ((ledger s)[unat ord := led']) ((actors s)[unat ord := i])"
    using ord(1) len by (intro actors_ok_rejoin [where ord = ord]) simp_all
  moreover have "tasks_ok ((ledger s)[unat ord := led']) (next_mid s) ?T"
    using c inc by (intro tasks_ok_led) (simp_all add: led'_def word_le_nat_alt)
  moreover have "load_ok ((ledger s)[unat ord := led']) (next_mid s) (add_mset (ord, [start_message], []) ?P) ?T"
    using c inc ld by (intro load_ok_update [OF ld]) (auto simp: load_ok_def led'_def Let_def dest!: spec [of _ ord])
  moreover have "idents_ok (float_is_zero (duplicate_prob (cfg_faults (sim_cfg s)))) (next_mid s) (mid_times s) (mid_lost s)
      (add_mset (ord, [start_message], []) ?P) ?T"
    using c by (simp add: idents_ok_def)
  moreover have "sup_ok E (cfg_max_restarts (sim_cfg s)) (length (ledger s)) (trace s @ [OpSpawn ord]) t' (sim_root s)"
    using c sup_ok_quiet [of "[OpSpawn ord]"] sup_ok_mark_running by (simp add: t'_def is_restart_def)
  moreover have "flights_ok (length (ledger s)) (next_mid s) (add_mset (ord, [start_message], []) ?P)"
    using c by (simp add: shape_ok_def)
  ultimately have "world_inv E (add_mset (ord, [start_message], []) {#}) s'"
    using c r2(2) qd by (simp add: sim_inv_def sim_ok_def calm_ok_def s'_def pending_flights_def)
  moreover have "pending_flights s' = pending_flights s" by (simp add: s'_def pending_flights_def)
  ultimately show ?thesis
    using deliver_or_block_inv [of E ord "[start_message]" "[]" "{#}" s' 0] r2(7) u(3)
    unfolding re by (auto simp: s'_def same_world_def)
qed

section \<open>The supervisor's answer\<close>

lemma sim_handle_restart_inv:
  assumes cr: "crashed E (pending_flights s) (tasks s) ord s" and qd: "queued_ok (ready s)" and hc: "hour_clock E"
  shows "\<exists>s'. sim_handle_restart X E ord s = Some s' \<and> world_inv E {#} s' \<and> same_world s s' \<and> next_mid s' = next_mid s
    \<and> delayed s' = delayed s \<and> work (pending_flights s') (tasks s') \<le> 1 + work (pending_flights s) (tasks s)"
proof -
  note c = cr [unfolded crashed_ok_def]
  let ?m = "cfg_max_restarts (sim_cfg s)" and ?n = "length (ledger s)"
  have "unat ord < ?n" "?n \<le> 2 ^ 64" "sup_ok E ?m ?n (trace s) (tree s) (sim_root s)" using c by auto
  from sup_ok_exit [OF this(3) hc this(1,2), of "readings s" SIM_CRASH_MESSAGE] obtain res t' where
    t': "tree_handle_child_exit (exit_envs E (readings s)) (sim_root s) (supervisor_name ord) (ExitError SIM_CRASH_MESSAGE) (tree s)
       = (res, t')" "sup_ok E ?m ?n (trace s @ [OpRestart ord (is_ok res)]) t' (sim_root s)"
    by blast
  let ?s = "\<lambda>st. s\<lparr>tree := t', readings := readings s + 1, stats := st, trace := trace s @ [OpRestart ord (is_ok res)]\<rparr>"
  have cs: "crashed E (pending_flights (?s st)) (tasks (?s st)) ord (?s st)" for st
    using c t'(2) by (simp add: crashed_ok_def pending_flights_def)
  show ?thesis
  proof (cases res)
    case (Inr x)
    let ?st = "(stats s)\<lparr>ss_restarted := ss_restarted (stats s) + 1\<rparr>"
    have "sim_handle_restart X E ord s = respawn X E ord (?s ?st)"
      using t'(1) Inr by (simp add: sim_handle_restart_def push_trace_def Let_def)
    moreover have "pending_flights (?s ?st) = pending_flights s" by (simp add: pending_flights_def)
    ultimately show ?thesis using respawn_inv [OF cs, of ?st] qd by (auto simp: same_world_def)
  next
    case (Inl x)
    have "sim_handle_restart X E ord s = sim_kill X ord (?s (stats s))"
      using t'(1) Inl by (simp add: sim_handle_restart_def push_trace_def)
    moreover obtain s' where "sim_kill X ord (?s (stats s)) = Some s'"
      "ok E (pending_flights (?s (stats s))) (tasks (?s (stats s))) s'" "same_world (?s (stats s)) s'"
      "ready s' = ready (?s (stats s))" "delayed s' = delayed (?s (stats s))" "blocked s' = blocked (?s (stats s))"
      "next_mid s' = next_mid (?s (stats s))"
      using sim_kill_ok [OF cs, of "stats s"] by blast
    ultimately show ?thesis using qd by (simp add: sim_inv_def pending_flights_def same_world_def)
  qed
qed

end

end
