(* ===== verification/Sim_Run.thy ===== *)
theory Sim_Run
  imports Sim_Start Sim_Crash
begin

text \<open>
  Rounds and runs of the simulator: every chosen task is processed without a panic, the
  audits of a round hold, and so does the audit of identities once nothing is left to do.
\<close>

text \<open>Configurations under which every round makes progress.\<close>

definition roomy :: "sim_config \<Rightarrow> bool" where
  "roomy cfg =
     (3 \<le> unat (capacity (cfg_mailbox cfg)) \<and> processing_per_tick cfg \<noteq> 0 \<and> blocked_retries_per_tick cfg \<noteq> 0)"

definition lively :: "sim_config \<Rightarrow> bool" where
  "lively cfg = (punctual (cfg_faults cfg) \<and> roomy cfg)"

context registry_env
begin

section \<open>A chosen task\<close>

lemma steady_inv: "ok E (pending_flights s) (tasks s) s' \<Longrightarrow> queued_ok (ready s) \<Longrightarrow> steady s s' \<Longrightarrow> world_inv E {#} s'"
  by (simp add: sim_inv_def pending_flights_def steady_def)

lemma process_counted_inv:
  assumes ok: "ok E (pending_flights s) (add_mset t (tasks s)) s"
    and e: "dm_get X (by_id (sim_registry s)) (task_actor (st_task t)) = Some e" and qd: "queued_ok (ready s)"
  shows "\<exists>s1 recs s'. run_pipeline X E False t s = Some (recs, s1) \<and> observe recs s1 = Some s' \<and> world_inv E {#} s'
    \<and> steady s s'"
proof -
  let ?k = "st_task t" and ?i = "task_actor (st_task t)" and ?ord = "st_ord t"
  note tp = task_parts [OF ok] and rt = registered_task [OF ok e]
  obtain r' e' where p: "run_pipeline X E False t s = Some (map (exec_record_of ?i) (task_messages ?k),
       s\<lparr>sim_registry := r', readings := readings s + 1\<rparr>)" "reg_inv r'" "upd ?i (\<lambda>_. e') (sim_registry s) r'"
      "active e'" "entry_name e' = entry_name e" "slots items e' + length (task_messages ?k) = slots items e"
    using run_pipeline_counted [OF ok e] by blast
  let ?s1 = "s\<lparr>sim_registry := r', readings := readings s + 1\<rparr>" and ?tags = "map exec_tag_of (task_messages ?k)"
  have tags: "custom_mids ?tags = st_mids t" unfolding shape_ok_records [OF tp(3)] by simp
  have recs: "map (exec_record_of ?i) (task_messages ?k) = map (\<lambda>x. \<lparr>rec_actor = ?i, rec_tag = x\<rparr>) ?tags"
    by (simp add: exec_record_of_def)
  have inr: "\<forall>mid \<in> set (custom_mids ?tags). unat mid < length (mid_times ?s1)"
    using tp(4) ok unfolding tags by (auto simp: sim_ok_def idents_ok_def word_less_nat_alt dest!: bspec)
  from observe_records [OF _ _ inr, of ?i ?ord] rt(3) tp(1) obtain st xs where
    o: "observe (map (\<lambda>x. \<lparr>rec_actor = ?i, rec_tag = x\<rparr>) ?tags) ?s1 = Some (?s1\<lparr>
      ledger := (ledger s)[unat ?ord := (ledger s ! unat ?ord)\<lparr>led_consumed :=
         led_consumed (ledger s ! unat ?ord) + of_nat (length (task_messages ?k))\<rparr>],
      mid_times := bump (st_mids t) (mid_times s), stats := st, trace := trace s @ xs\<rparr>)" (is "_ = Some ?s'")
      "\<forall>x \<in> set xs. \<not> is_restart x"
    by (auto simp: tags)
  have "ok E (pending_flights s) (tasks s) ?s'" by (rule ok_consume [OF ok e p(2-6) o(2)])
  moreover have st: "steady s ?s'" using upd_config [OF p(3)] by (simp add: steady_def same_world_def)
  ultimately have "world_inv E {#} ?s'" using steady_inv qd by blast
  then show ?thesis
    using p(1) o(1) st unfolding recs by (intro exI [of _ ?s1] exI [of _ "map (\<lambda>x. \<lparr>rec_actor = ?i, rec_tag = x\<rparr>) ?tags"] exI [of _ ?s'] conjI)
qed

lemma process_crashed_inv:
  assumes ok: "ok E (pending_flights s) (add_mset t (tasks s)) s"
    and e: "dm_get X (by_id (sim_registry s)) (task_actor (st_task t)) = Some e"
    and app: "0 < app_len t" and rough: "\<not> gentle (cfg_faults (sim_cfg s))" and qd: "queued_ok (ready s)" and hc: "hour_clock E"
  shows "\<exists>s1 s2 s'. run_pipeline X E True t s = Some ([], s1)
    \<and> settle_crash X (st_ord t) (st_mids t) (s1\<lparr>stats := (stats s1)\<lparr>ss_crashed := ss_crashed (stats s1) + 1\<rparr>\<rparr>) = Some s2
    \<and> sim_handle_restart X E (st_ord t) s2 = Some s' \<and> world_inv E {#} s' \<and> same_world s s' \<and> next_mid s' = next_mid s
    \<and> delayed s' = delayed s \<and> work (pending_flights s') (tasks s') \<le> 1 + work (pending_flights s) (tasks s)"
proof -
  obtain r' e' where p: "run_pipeline X E True t s = Some ([], s\<lparr>sim_registry := r', readings := readings s + 1\<rparr>)"
      "reg_inv r'" "upd (task_actor (st_task t)) (\<lambda>_. e') (sim_registry s) r'" "slots items e' = 0"
    using run_pipeline_crashed [OF ok e] by blast
  let ?st = "(stats s)\<lparr>ss_crashed := ss_crashed (stats s) + 1\<rparr>"
  obtain s2 where s2: "settle_crash X (st_ord t) (st_mids t) (s\<lparr>sim_registry := r', readings := readings s + 1, stats := ?st\<rparr>) = Some s2"
      "crashed E (pending_flights s) (tasks s) (st_ord t) s2" "steady s s2"
    using settle_crash_ok [OF ok e p(2-4) app rough] by blast
  have eq: "pending_flights s2 = pending_flights s" "tasks s2 = tasks s" "ready s2 = ready s" "next_mid s2 = next_mid s"
    "delayed s2 = delayed s"
    using s2(3) by (simp_all add: steady_def pending_flights_def)
  have "crashed E (pending_flights s2) (tasks s2) (st_ord t) s2" "queued_ok (ready s2)" using s2(2) qd by (simp_all add: eq)
  from sim_handle_restart_inv [OF this hc] obtain s' where
    "sim_handle_restart X E (st_ord t) s2 = Some s'" "world_inv E {#} s'" "same_world s2 s'" "next_mid s' = next_mid s"
    "delayed s' = delayed s" "work (pending_flights s') (tasks s') \<le> 1 + work (pending_flights s) (tasks s)"
    unfolding eq by blast
  moreover have "same_world s s'" using s2(3) \<open>same_world s2 s'\<close> by (simp add: steady_def same_world_def)
  ultimately show ?thesis
    using p(1) s2(1) by (intro exI [of _ "s\<lparr>sim_registry := r', readings := readings s + 1\<rparr>"] exI [of _ s2] exI [of _ s']) simp
qed

lemma process_chosen_inv:
  assumes ok: "ok E (pending_flights s) (add_mset t (tasks s)) s" and qd: "queued_ok (ready s)" and hc: "hour_clock E"
  shows "\<exists>s'. process_chosen X R E t s = Some s' \<and> world_inv E {#} s' \<and> same_world s s' \<and> next_mid s' = next_mid s
    \<and> delayed s' = delayed s \<and> work (pending_flights s') (tasks s') < work (pending_flights s) (add_mset t (tasks s))"
proof -
  let ?ord = "st_ord t" and ?i = "task_actor (st_task t)"
  note tp = task_parts [OF ok]
  define s1 where "s1 = s\<lparr>ledger := (ledger s)[unat ?ord := (ledger s ! unat ?ord)
    \<lparr>led_queued := led_queued (ledger s ! unat ?ord) - of_nat (app_len t)\<rparr>]\<rparr>"
  have sw: "same_world s s1" "sim_registry s1 = sim_registry s" "sim_cfg s1 = sim_cfg s"
    "pending_flights s1 = pending_flights s" "ready s1 = ready s" "app_len t = 0 \<Longrightarrow> s1 = s"
    by (simp_all add: s1_def same_world_def pending_flights_def)
  have ok1: "ok E (pending_flights s1) (add_mset t (tasks s1)) s1"
    using ok_queued [OF ok tp(1)] by (simp add: s1_def pending_flights_def)
  show ?thesis
  proof (cases "get_state X (sim_registry s) ?i \<in> {Some Creating, Some Running}")
    case False
    then have gone: "dm_get X (by_id (sim_registry s1)) ?i = None"
      using registered_task(2) [OF ok] sw(2) by (cases "dm_get X (by_id (sim_registry s)) ?i") (auto simp: get_state_def)
    have "ok E (pending_flights s1) (tasks s1) (discard_task t s1)" by (rule ok_discard [OF ok1 gone])
    moreover have st: "steady s1 (discard_task t s1)"
      by (simp add: steady_def discard_task_def fold_mark_lost same_world_def push_trace_def Let_def split: list.split)
    ultimately have "world_inv E {#} (discard_task t s1)" using steady_inv qd sw(5) by metis
    moreover have "process_chosen X R E t s = Some (discard_task t s1)"
      using tp(2) False by (simp add: process_chosen_def Let_def s1_def)
    moreover have "same_world s (discard_task t s1)" using same_world_trans [OF sw(1)] st by (simp add: steady_def)
    moreover have "pending_flights (discard_task t s1) = pending_flights s" "tasks (discard_task t s1) = tasks s"
      "next_mid (discard_task t s1) = next_mid s" "delayed (discard_task t s1) = delayed s"
      using st by (simp_all add: steady_def pending_flights_def s1_def)
    ultimately show ?thesis by auto
  next
    case True
    then obtain e where e: "dm_get X (by_id (sim_registry s)) ?i = Some e" by (auto simp: get_state_def)
    obtain c r where c: "(if 0 < app_len t then sim_roll R (crash_prob (cfg_faults (sim_cfg s))) s1 else (False, s1))
        = (c, s1\<lparr>rng := r\<rparr>)" "c \<longrightarrow> 0 < app_len t \<and> \<not> float_le_zero (crash_prob (cfg_faults (sim_cfg s)))"
      by (rule sim_roll_if)
    let ?s2 = "s1\<lparr>rng := r\<rparr>"
    have ok2: "ok E (pending_flights ?s2) (add_mset t (tasks ?s2)) ?s2"
      using ok1 by (simp add: sim_ok_def pending_flights_def)
    have e2: "dm_get X (by_id (sim_registry ?s2)) ?i = Some e" using e sw(2) by simp
    have sw2: "same_world s ?s2" using sw(1) by (simp add: same_world_def)
    have eq: "pending_flights ?s2 = pending_flights s" "tasks ?s2 = tasks s" "queued_ok (ready ?s2)" "next_mid ?s2 = next_mid s"
      "delayed ?s2 = delayed s"
      using qd by (simp_all add: s1_def pending_flights_def)
    have pc: "process_chosen X R E t s = Option.bind (run_pipeline X E c t ?s2) (\<lambda>(recs, s). Option.bind (observe recs s)
        (\<lambda>s. if c then Option.bind (settle_crash X ?ord (st_mids t) (s\<lparr>stats := (stats s)\<lparr>ss_crashed := ss_crashed (stats s) + 1\<rparr>\<rparr>))
                (sim_handle_restart X E ?ord)
             else Some s))"
      using True tp(2) c(1) sw(3,6)
      by (elim insertE emptyE; cases "0 < app_len t") (simp_all add: process_chosen_def Let_def flip: s1_def)
    show ?thesis
    proof (cases c)
      case True
      then have "0 < app_len t" "\<not> gentle (cfg_faults (sim_cfg ?s2))" using c(2) sw(3) by (simp_all add: gentle_def)
      from process_crashed_inv [OF ok2 e2 this eq(3) hc] obtain s3 s4 s' where
        "run_pipeline X E True t ?s2 = Some ([], s3)" "world_inv E {#} s'" "same_world ?s2 s'"
        "settle_crash X ?ord (st_mids t) (s3\<lparr>stats := (stats s3)\<lparr>ss_crashed := ss_crashed (stats s3) + 1\<rparr>\<rparr>) = Some s4"
        "sim_handle_restart X E ?ord s4 = Some s'" "next_mid s' = next_mid s" "delayed s' = delayed s"
        "work (pending_flights s') (tasks s') \<le> 1 + work (pending_flights s) (tasks s)"
        unfolding eq by auto
      moreover have "st_mids t \<noteq> []" using \<open>0 < app_len t\<close> by (simp add: app_len_def)
      ultimately show ?thesis using pc True same_world_trans [OF sw2] by simp
    next
      case False
      from process_counted_inv [OF ok2 e2 eq(3)] obtain recs s3 s' where
        s': "run_pipeline X E False t ?s2 = Some (recs, s3)" "observe recs s3 = Some s'" "world_inv E {#} s'" "steady ?s2 s'"
        by blast
      have "pending_flights s' = pending_flights s" "tasks s' = tasks s" "next_mid s' = next_mid s" "delayed s' = delayed s"
        using s'(4) eq by (simp_all add: steady_def pending_flights_def)
      moreover have "same_world s s'" using same_world_trans [OF sw2] s'(4) by (simp add: steady_def)
      ultimately show ?thesis using pc False s'(1-3) by simp
    qed
  qed
qed

lemma process_loop_inv:
  "world_inv E {#} s \<Longrightarrow> hour_clock E \<Longrightarrow>
     \<exists>s'. process_loop X R E n s = Some s' \<and> world_inv E {#} s' \<and> same_world s s' \<and> delayed s' = delayed s
       \<and> next_mid s' = next_mid s \<and> work_left s' \<le> work_left s \<and> (0 < n \<longrightarrow> tasks s \<noteq> {#} \<longrightarrow> work_left s' < work_left s)"
proof (induction n arbitrary: s)
  case (Suc n)
  have few: "size (tasks s) \<le> 2 ^ 56"
    using Suc.prems(1) few_tasks unfolding sim_inv_def sim_ok_def by blast
  then have few': "size (tasks s) < 2 ^ 64" by simp
  from pick_cases [OF few', of R "cfg_policy (sim_cfg s)" "tick s" "rng s"] obtain res rs r where
    p: "pick R (cfg_policy (sim_cfg s)) (tick s) (ready s, rng s) = Some (res, rs, r)"
      "case res of None \<Rightarrow> tasks s = {#} \<and> rs = ready s | Some t \<Rightarrow> tasks s = add_mset t (ready_tasks rs)"
    by blast
  show ?case
  proof (cases res)
    case None
    then show ?thesis
      using p Suc.prems(1) by (simp add: sim_inv_def sim_ok_def pending_flights_def same_world_def work_left_def)
  next
    case (Some t)
    let ?s = "s\<lparr>ready := rs, rng := r\<rparr>"
    have T: "tasks s = add_mset t (ready_tasks rs)" using p(2) Some by simp
    have pf: "pending_flights ?s = pending_flights s" by (simp add: pending_flights_def)
    have ok: "ok E (pending_flights ?s) (add_mset t (tasks ?s)) ?s"
      using Suc.prems(1) T by (simp add: sim_inv_def sim_ok_def pending_flights_def)
    have "\<forall>t\<in>#tasks s. app_len t \<le> 3"
      using Suc.prems(1) shape_okD(2,4) unfolding sim_inv_def sim_ok_def tasks_ok_def app_len_def by (meson le_trans)
    then have "queued_ok (ready ?s)"
      using queued_ok_pick [OF _ p(1) [unfolded Some] T few] Suc.prems(1) by (simp add: sim_inv_def)
    from process_chosen_inv [OF ok this Suc.prems(2), of R] obtain s1 where
      s1: "process_chosen X R E t ?s = Some s1" "world_inv E {#} s1" "same_world ?s s1" "next_mid s1 = next_mid s"
        "delayed s1 = delayed s" "work (pending_flights s1) (tasks s1) < work (pending_flights s) (tasks s)"
      unfolding pf T by auto
    have sw: "same_world s s1" using s1(3) by (simp add: same_world_def)
    then have w: "work_left s1 < work_left s" using s1(4,6) by (simp add: same_world_def work_left_def)
    from Suc.IH [OF s1(2) Suc.prems(2)] obtain s' where
      "process_loop X R E n s1 = Some s'" "world_inv E {#} s'" "same_world s1 s'" "delayed s' = delayed s1"
      "next_mid s' = next_mid s1" "work_left s' \<le> work_left s1"
      by blast
    then show ?thesis using p(1) Some s1(1,4,5) w same_world_trans [OF sw] by auto
  qed
qed simp

section \<open>The audits\<close>

lemma audit_slots_pass:
  assumes "world_inv E H s"
  shows "audit_slots X s"
  unfolding audit_slots_def list_all_iff
proof (intro ballI)
  fix k
  assume "k \<in> set [0..<length (ledger s)]"
  then have k: "k < length (ledger s)" by simp
  note parts = assms [unfolded sim_inv_def sim_ok_def]
  have acts: "actors_ok X items (sim_registry s) (ordinals s) (tasks s) (ledger s) (actors s)"
    and reg: "reg_inv (sim_registry s)" using parts by blast+
  have uk: "unat (of_nat k :: u64) = k" using k parts by (intro unat_of_nat_small) simp
  let ?led = "ledger s ! k" and ?i = "actors s ! k"
  have a: "actor_ok X items (sim_registry s) (ordinals s) (tasks s) (of_nat k) ?led ?i"
    using acts k uk by (auto simp: actors_ok_def dest!: spec [of _ "of_nat k :: u64"])
  have ix: "index (actors s) (of_nat k) = Some ?i" using acts k uk by (simp add: index_def actors_ok_def)
  have "Mailbox_len (mailbox e) = saturating_sub (saturating_sub (led_delivered ?led) (led_consumed ?led)) (led_dropped ?led)"
    if e: "dm_get X (by_id (sim_registry s)) ?i = Some e" for e
    using a [unfolded actor_ok_def e option.case] mailbox_len(1) [OF reg e]
    by (simp add: word_unat_eq_iff unat_saturating_sub)
  then show "let led = ledger s ! k in \<not> led_alive led \<or> (case index (actors s) (of_nat k) of None \<Rightarrow> False
      | Some i \<Rightarrow> (case get_mailbox X (sim_registry s) i of None \<Rightarrow> True | Some mb \<Rightarrow>
          Mailbox_len mb = saturating_sub (saturating_sub (led_delivered led) (led_consumed led)) (led_dropped led)))"
    by (simp add: ix get_mailbox_def Let_def split: option.split)
qed

lemma audit_counts_pass:
  assumes "world_inv E H s" and "config_ready s"
  shows "audit_counts X s"
proof -
  have "audit_restarts s"
    by (rule sup_ok_audit [of E s "length (ledger s)"])
       (use assms in \<open>auto simp: sim_inv_def sim_ok_def config_ready_def\<close>)
  then show ?thesis using audit_slots_pass [OF assms(1)] by (simp add: audit_counts_def)
qed

text \<open>Once nothing is in flight, every message that was sent has been processed or is lost.\<close>

lemma settled_identities:
  assumes inv: "world_inv E {#} s" and q: "is_quiescent X s" and mid: "mid < next_mid s"
  shows "unat mid < length (mid_times s)" "mid_times s ! unat mid \<noteq> 0 \<or> mid_lost s ! unat mid"
    and "float_is_zero (duplicate_prob (cfg_faults (sim_cfg s))) \<Longrightarrow> unat (mid_times s ! unat mid) \<le> 1"
proof -
  have e: "pending_flights s = {#}" "tasks s = {#}"
    using q by (auto simp: is_quiescent_def pending_flights_def ready_is_empty_def ready_tasks_def)
  have id: "idents_ok (float_is_zero (duplicate_prob (cfg_faults (sim_cfg s)))) (next_mid s) (mid_times s) (mid_lost s) {#} {#}"
    using inv by (simp add: sim_inv_def sim_ok_def e)
  then show "unat mid < length (mid_times s)" using mid by (auto simp: idents_ok_def word_less_nat_alt)
  show "mid_times s ! unat mid \<noteq> 0 \<or> mid_lost s ! unat mid" using id mid by (auto simp: idents_ok_def)
  show "unat (mid_times s ! unat mid) \<le> 1" if "float_is_zero (duplicate_prob (cfg_faults (sim_cfg s)))"
    using id mid that by (simp add: idents_ok_def)
qed

lemma audit_identities_pass:
  assumes inv: "world_inv E {#} s" and q: "is_quiescent X s"
  shows "audit_identities s"
  unfolding audit_identities_def list_all_iff
proof (intro ballI)
  fix p
  assume "p \<in> set (enumerate 0 (take (unat (next_mid s)) (mid_times s)))"
  then have "fst p < unat (next_mid s)" "fst p < length (mid_times s)" "mid_times s ! fst p = snd p"
    by (auto simp: enumerate_eq_zip in_set_zip)
  then obtain k where k: "p = (k, mid_times s ! k)" "k < unat (next_mid s)" "k < length (mid_times s)"
    by (metis prod.collapse)
  have small: "length (mid_times s) < 2 ^ 20" "length (mid_lost s) = length (mid_times s)"
    using inv by (auto simp: sim_inv_def sim_ok_def idents_ok_def)
  then have uk: "unat (of_nat k :: u64) = k" using k(3) by (intro unat_of_nat_small) simp
  then have "(of_nat k :: u64) < next_mid s" using k(2) by (simp add: word_less_nat_alt)
  note id = settled_identities [OF inv q this, unfolded uk]
  have "1 \<le> mid_times s ! k \<or> mid_lost s ! k" using id(2) by (auto simp: word_le_nat_alt Suc_le_eq unat_gt_0)
  then show "case p of (mid, n) \<Rightarrow> mid < length (mid_lost s) \<and> (1 \<le> n \<or> mid_lost s ! mid)
      \<and> (\<not> float_is_zero (duplicate_prob (cfg_faults (sim_cfg s))) \<or> n \<le> 1)"
    using k(1,3) small(2) id(3) by (auto simp: word_le_nat_alt)
qed

section \<open>Rounds and runs\<close>

text \<open>What a round keeps of the world besides the invariant.\<close>

abbreviation same_setup :: "('d, 'r) sim \<Rightarrow> ('d, 'r) sim \<Rightarrow> bool" where
  "same_setup s s' \<equiv> sim_cfg s' = sim_cfg s \<and> sim_seed s' = sim_seed s \<and> length (ledger s') = length (ledger s)
     \<and> length (mid_times s') = length (mid_times s) \<and> default_config (sim_registry s') = default_config (sim_registry s)"

lemma idle_quiescent:
  assumes inv: "world_inv E {#} s" and "mid_budget s \<le> next_mid s" "delayed s = []" "blocked s = []" "tasks s = {#}"
  shows "is_quiescent X s"
proof -
  note parts = inv [unfolded sim_inv_def sim_ok_def]
  have acts: "actors_ok X items (sim_registry s) (ordinals s) (tasks s) (ledger s) (actors s)" and reg: "reg_inv (sim_registry s)"
    and q: "queued_ok (ready s)" using parts by blast+
  have "Mailbox_is_empty (mailbox e)" if k: "k < length (ledger s)" and e: "dm_get X (by_id (sim_registry s)) (actors s ! k) = Some e" for k e
  proof -
    have uk: "unat (of_nat k :: u64) = k" using k parts by (intro unat_of_nat_small) simp
    have "actor_ok X items (sim_registry s) (ordinals s) (tasks s) (of_nat k) (ledger s ! k) (actors s ! k)"
      using acts k uk by (auto simp: actors_ok_def dest!: spec [of _ "of_nat k :: u64"])
    then have "slots items e = 0" using assms(5) e by (simp add: actor_ok_def)
    then show ?thesis using mailbox_len(1) [OF reg e] by (simp add: Mailbox_is_empty_def unat_eq_0)
  qed
  then have "list_all (\<lambda>(led, i). \<not> led_alive led
      \<or> (case get_mailbox X (sim_registry s) i of None \<Rightarrow> True | Some mb \<Rightarrow> Mailbox_is_empty mb)) (zip (ledger s) (actors s))"
    using acts by (auto simp: list_all_length get_mailbox_def actors_ok_def split: option.split)
  then show ?thesis
    using assms(2-5) queued_ok_empty [OF q assms(5)] by (auto simp: is_quiescent_def ready_is_empty_def ready_tasks_def)
qed

lemma retry_blocked_inv:
  assumes inv: "world_inv E {#} s"
  shows "\<exists>s'. retry_blocked X s = Some s' \<and> world_inv E {#} s' \<and> same_world s s' \<and> delayed s' = delayed s
    \<and> next_mid s' = next_mid s \<and> tasks s \<subseteq># tasks s' \<and> work_left s' \<le> work_left s
    \<and> (blocked s \<noteq> [] \<longrightarrow> blocked_retries_per_tick (sim_cfg s) \<noteq> 0 \<longrightarrow> 3 \<le> unat (capacity (default_config (sim_registry s))) \<longrightarrow>
         tasks s' = {#} \<longrightarrow> work_left s' < work_left s)"
proof -
  let ?b = "blocked_retries_per_tick (sim_cfg s)" and ?l = "length (blocked s)"
  have "size (pending_flights s) \<le> 2 ^ 56"
    using inv few_flights unfolding sim_inv_def sim_ok_def by (metis add.right_neutral)
  then have "?l < 2 ^ 64" by (simp add: pending_flights_def)
  then have l: "unat (of_nat ?l :: u64) = ?l" by (intro unat_of_nat_small) simp
  have n: "unat (min ?b (of_nat ?l)) = min (unat ?b) ?l" using l by (simp add: min_def word_le_nat_alt)
  have pos: "0 < min (unat ?b) ?l" if "blocked s \<noteq> []" "?b \<noteq> 0" using that by (simp add: unat_gt_0)
  have "min (unat ?b) ?l \<le> ?l" by simp
  from retry_loop_inv [OF inv this] show ?thesis
    unfolding retry_blocked_def n by (rule ex_forward) (use pos in simp)
qed

text \<open>The second half of a round: it never adds work, and removes some where there is any.\<close>

lemma clear_backlog_inv:
  assumes inv: "world_inv E {#} s" and hc: "hour_clock E"
  shows "\<exists>s1 s'. retry_blocked X s = Some s1 \<and> process_loop X R E (unat (processing_per_tick (sim_cfg s1))) s1 = Some s'
    \<and> world_inv E {#} s' \<and> same_world s s' \<and> delayed s' = delayed s \<and> next_mid s' = next_mid s \<and> work_left s' \<le> work_left s
    \<and> (roomy (sim_cfg s) \<longrightarrow> default_config (sim_registry s) = cfg_mailbox (sim_cfg s) \<longrightarrow> blocked s \<noteq> [] \<or> tasks s \<noteq> {#} \<longrightarrow>
         work_left s' < work_left s)"
proof -
  obtain s1 where s1: "retry_blocked X s = Some s1" "world_inv E {#} s1" "same_world s s1" "delayed s1 = delayed s"
      "next_mid s1 = next_mid s" "tasks s \<subseteq># tasks s1" "work_left s1 \<le> work_left s"
      "blocked s \<noteq> [] \<longrightarrow> blocked_retries_per_tick (sim_cfg s) \<noteq> 0 \<longrightarrow> 3 \<le> unat (capacity (default_config (sim_registry s))) \<longrightarrow>
         tasks s1 = {#} \<longrightarrow> work_left s1 < work_left s"
    using retry_blocked_inv [OF inv] by blast
  obtain s' where s': "process_loop X R E (unat (processing_per_tick (sim_cfg s1))) s1 = Some s'" "world_inv E {#} s'"
      "same_world s1 s'" "delayed s' = delayed s1" "next_mid s' = next_mid s1" "work_left s' \<le> work_left s1"
      "0 < unat (processing_per_tick (sim_cfg s1)) \<longrightarrow> tasks s1 \<noteq> {#} \<longrightarrow> work_left s' < work_left s1"
    using process_loop_inv [OF s1(2) hc] by blast
  have "work_left s' < work_left s"
    if v: "roomy (sim_cfg s)" and c: "default_config (sim_registry s) = cfg_mailbox (sim_cfg s)" and b: "blocked s \<noteq> [] \<or> tasks s \<noteq> {#}"
  proof -
    have "tasks s1 \<noteq> {#} \<or> work_left s1 < work_left s" using s1(6,8) v c b by (auto simp: roomy_def)
    moreover have "0 < unat (processing_per_tick (sim_cfg s1))"
      using v s1(3) by (simp add: roomy_def same_world_def unat_gt_0)
    ultimately show ?thesis using s1(7) s'(6,7) by linarith
  qed
  then show ?thesis
    using s1(1,4,5,7) s' same_world_trans [OF s1(3) s'(3)] by (intro exI [of _ s1] exI [of _ s']) auto
qed

text \<open>The state in which a round starts its work.\<close>

abbreviation next_tick :: "('d, 'r) sim \<Rightarrow> ('d, 'r) sim" where
  "next_tick s \<equiv> s\<lparr>tick := tick s + 1, clock := snd (clock_advance TICK (clock s))\<rparr>"

lemma round_parts:
  assumes inv: "world_inv E {#} s" and cfg: "config_ready s" and hc: "hour_clock E"
  obtains s1 s2 s' where "inject_workload X R (next_tick s) = Some s1" "deliver_due X s1 = Some s2"
    "sim_round X R E s = Some s'" "world_inv E {#} s'" "same_world (next_tick s) s1" "same_world s1 s2" "same_world s2 s'"
    "punctual (cfg_faults (sim_cfg s)) \<longrightarrow> delayed s1 = delayed s
       \<and> (s1 = next_tick s \<and> mid_budget s \<le> next_mid s \<or> work_left s1 < work_left s)"
    "s1 = next_tick s \<and> mid_budget s \<le> next_mid s \<or> unat (next_mid s) < unat (next_mid s1) \<and> toil s1 < toil s"
    "\<forall>B. timely B s \<longrightarrow> unat (tick s + 1) + lag (cfg_faults (sim_cfg s)) \<le> B \<longrightarrow> timely B s1"
    "next_mid s2 = next_mid s1" "set (delayed s2) \<subseteq> set (delayed s1)" "timely (unat (tick s + 1)) s1 \<longrightarrow> delayed s2 = []"
    "work_left s2 \<le> work_left s1" "delayed s' = delayed s2" "next_mid s' = next_mid s2" "work_left s' \<le> work_left s2"
    "roomy (sim_cfg s) \<longrightarrow> default_config (sim_registry s) = cfg_mailbox (sim_cfg s) \<longrightarrow> blocked s2 \<noteq> [] \<or> tasks s2 \<noteq> {#} \<longrightarrow>
       work_left s' < work_left s2"
proof -
  let ?s = "next_tick s"
  have inv0: "world_inv E {#} ?s" using inv by (simp add: sim_inv_def sim_ok_def pending_flights_def)
  have cfg0: "config_ready ?s" using cfg by (simp add: config_ready_def)
  have eq: "work_left ?s = work_left s" "toil ?s = toil s" "timely B ?s = timely B s" "mid_budget ?s = mid_budget s" for B
    by (simp_all add: toil_def timely_def mid_budget_def work_left_def pending_flights_def)
  obtain s1 where s1: "inject_workload X R ?s = Some s1" "world_inv E {#} s1" "same_world ?s s1"
      "punctual (cfg_faults (sim_cfg s)) \<longrightarrow> delayed s1 = delayed s
         \<and> (s1 = ?s \<and> mid_budget s \<le> next_mid s \<or> work_left s1 < work_left s)"
      "s1 = ?s \<and> mid_budget s \<le> next_mid s \<or> unat (next_mid s) < unat (next_mid s1) \<and> toil s1 < toil s"
      "\<forall>B. timely B s \<longrightarrow> unat (tick s + 1) + lag (cfg_faults (sim_cfg s)) \<le> B \<longrightarrow> timely B s1"
    using inject_workload_inv [OF inv0 cfg0, of R] unfolding eq by auto
  obtain s2 where s2: "deliver_due X s1 = Some s2" "world_inv E {#} s2" "same_world s1 s2" "next_mid s2 = next_mid s1"
      "set (delayed s2) \<subseteq> set (delayed s1)" "timely (unat (tick s1)) s1 \<longrightarrow> delayed s2 = []"
      "work (pending_flights s2) (tasks s2) \<le> work (pending_flights s1) (tasks s1)"
    using deliver_due_inv [OF s1(2), of "length (delayed s1)"] unfolding deliver_due_def by blast
  obtain s3 s4 where s4: "retry_blocked X s2 = Some s3" "process_loop X R E (unat (processing_per_tick (sim_cfg s3))) s3 = Some s4"
      "world_inv E {#} s4" "same_world s2 s4" "delayed s4 = delayed s2" "next_mid s4 = next_mid s2" "work_left s4 \<le> work_left s2"
      "roomy (sim_cfg s2) \<longrightarrow> default_config (sim_registry s2) = cfg_mailbox (sim_cfg s2) \<longrightarrow> blocked s2 \<noteq> [] \<or> tasks s2 \<noteq> {#} \<longrightarrow>
         work_left s4 < work_left s2"
    using clear_backlog_inv [OF s2(2) hc] by blast
  have sw: "same_world ?s s4" using s1(3) s2(3) s4(4) by (simp add: same_world_def)
  then have "audit_counts X s4" using audit_counts_pass [OF s4(3)] cfg0 config_ready_same by blast
  then have r: "sim_round X R E s = Some s4" using s1(1) s2(1) s4(1,2) by (simp add: sim_round_def)
  have "work_left s2 \<le> work_left s1" using s2(3,4,7) by (simp add: work_left_def same_world_def)
  moreover have "tick s1 = tick s + 1" "sim_cfg s2 = sim_cfg s" "default_config (sim_registry s2) = default_config (sim_registry s)"
    using s1(3) s2(3) by (simp_all add: same_world_def)
  ultimately show ?thesis using that [OF s1(1) s2(1) r s4(3) s1(3) s2(3) s4(4) s1(4-6) s2(4,5) _ _ s4(5-7)] s2(6) s4(8) by simp
qed

lemma sim_round_inv:
  assumes inv: "world_inv E {#} s" and cfg: "config_ready s" and hc: "hour_clock E"
  shows "\<exists>s'. sim_round X R E s = Some s' \<and> world_inv E {#} s' \<and> same_setup s s'
    \<and> (lively (sim_cfg s) \<longrightarrow> default_config (sim_registry s) = cfg_mailbox (sim_cfg s) \<longrightarrow> delayed s = [] \<longrightarrow>
         \<not> is_quiescent X s \<longrightarrow> delayed s' = [] \<and> work_left s' < work_left s)"
proof (rule round_parts [OF assms])
  fix s1 s2 s'
  assume r: "sim_round X R E s = Some s'" "world_inv E {#} s'" and d: "deliver_due X s1 = Some s2" "delayed s' = delayed s2"
    and sw: "same_world (next_tick s) s1" "same_world s1 s2" "same_world s2 s'"
    and i: "punctual (cfg_faults (sim_cfg s)) \<longrightarrow> delayed s1 = delayed s
       \<and> (s1 = next_tick s \<and> mid_budget s \<le> next_mid s \<or> work_left s1 < work_left s)"
    and w: "work_left s2 \<le> work_left s1" "work_left s' \<le> work_left s2"
      "roomy (sim_cfg s) \<longrightarrow> default_config (sim_registry s) = cfg_mailbox (sim_cfg s) \<longrightarrow> blocked s2 \<noteq> [] \<or> tasks s2 \<noteq> {#} \<longrightarrow>
         work_left s' < work_left s2"
  have "delayed s' = [] \<and> work_left s' < work_left s"
    if v: "lively (sim_cfg s)" and c: "default_config (sim_registry s) = cfg_mailbox (sim_cfg s)" and e: "delayed s = []"
      and nq: "\<not> is_quiescent X s"
  proof -
    have s1: "delayed s1 = []" "s1 = next_tick s \<and> mid_budget s \<le> next_mid s \<or> work_left s1 < work_left s"
      using i v e by (simp_all add: lively_def)
    then have s12: "s2 = s1" using d(1) by (simp add: deliver_due_def)
    have "blocked s2 \<noteq> [] \<or> tasks s2 \<noteq> {#}" "work_left s2 = work_left s" if "s1 = next_tick s" "mid_budget s \<le> next_mid s"
      using idle_quiescent [OF inv that(2) e] nq that(1) s12 by (auto simp: work_left_def pending_flights_def)
    then show ?thesis using s1 s12 d(2) w v c by (fastforce simp: lively_def)
  qed
  then show ?thesis using r sw by (auto simp: same_world_def)
qed

lemma run_rounds_inv:
  "world_inv E {#} s \<Longrightarrow> config_ready s \<Longrightarrow> hour_clock E \<Longrightarrow>
     \<exists>m s'. run_rounds X R E n k s = Some (m, s') \<and> world_inv E {#} s' \<and> same_setup s s'
       \<and> (lively (sim_cfg s) \<longrightarrow> default_config (sim_registry s) = cfg_mailbox (sim_cfg s) \<longrightarrow> delayed s = [] \<longrightarrow>
            work_left s < n \<longrightarrow> is_quiescent X s')"
proof (induction n arbitrary: k s)
  case (Suc n)
  show ?case
  proof (cases "is_quiescent X s")
    case False
    obtain s1 where s1: "sim_round X R E s = Some s1" "world_inv E {#} s1" "same_setup s s1"
      "lively (sim_cfg s) \<longrightarrow> default_config (sim_registry s) = cfg_mailbox (sim_cfg s) \<longrightarrow> delayed s = [] \<longrightarrow>
         delayed s1 = [] \<and> work_left s1 < work_left s"
      using sim_round_inv [OF Suc.prems] False by blast
    have "config_ready s1" using Suc.prems(2) s1(3) by (simp add: config_ready_def)
    from Suc.IH [OF s1(2) this Suc.prems(3), of "k + 1"] obtain m s' where
      "run_rounds X R E n (k + 1) s1 = Some (m, s')" "world_inv E {#} s'" "same_setup s1 s'"
      "lively (sim_cfg s1) \<longrightarrow> default_config (sim_registry s1) = cfg_mailbox (sim_cfg s1) \<longrightarrow> delayed s1 = [] \<longrightarrow>
         work_left s1 < n \<longrightarrow> is_quiescent X s'"
      by blast
    then show ?thesis using False s1 by auto
  qed (use Suc.prems in simp)
qed simp

lemma sim_run_inv:
  assumes "world_inv E {#} s" and "config_ready s" and "hour_clock E"
  shows "\<exists>out s'. sim_run X R E steps s = Some (out, s') \<and> world_inv E {#} s' \<and> same_setup s s'
    \<and> quiesced out = is_quiescent X s'
    \<and> (lively (sim_cfg s) \<longrightarrow> default_config (sim_registry s) = cfg_mailbox (sim_cfg s) \<longrightarrow> delayed s = [] \<longrightarrow>
         work_left s < unat steps \<longrightarrow> quiesced out)"
proof -
  obtain m s' where r: "run_rounds X R E (unat steps) 0 s = Some (m, s')" "world_inv E {#} s'" "same_setup s s'"
    "lively (sim_cfg s) \<longrightarrow> default_config (sim_registry s) = cfg_mailbox (sim_cfg s) \<longrightarrow> delayed s = [] \<longrightarrow>
       work_left s < unat steps \<longrightarrow> is_quiescent X s'"
    using run_rounds_inv [OF assms] by blast
  have "is_quiescent X s' \<longrightarrow> audit_identities s'" using audit_identities_pass [OF r(2)] by blast
  then show ?thesis using r by (simp add: sim_run_def Let_def)
qed

end

text \<open>Configurations that the simulator can run: counts that its machine words can hold.\<close>

definition sim_config_ok :: "sim_config \<Rightarrow> bool" where
  "sim_config_ok cfg =
     (cfg_actors cfg \<noteq> 0 \<and> unat (cfg_actors cfg) \<le> 2 ^ 32 \<and> unat (cfg_messages cfg) < 2 ^ 20
      \<and> config_ok (cfg_mailbox cfg)
      \<and> \<not> (delay_ticks_min (cfg_faults cfg) = 0 \<and> delay_ticks_max (cfg_faults cfg) = - 1))"

context registry_env
begin

lemma with_config_inv:
  assumes "sim_config_ok cfg"
  shows "\<exists>s. with_config X R E seed cfg = Some s \<and> world_inv E {#} s \<and> config_ready s \<and> sim_cfg s = cfg
    \<and> default_config (sim_registry s) = cfg_mailbox cfg \<and> delayed s = [] \<and> tick s = 0 \<and> length (mid_times s) = unat (cfg_messages cfg)
    \<and> work_left s \<le> 3 * unat (cfg_messages cfg) + unat (cfg_actors cfg)"
proof -
  obtain s where "with_config X R E seed cfg = Some s" "world_inv E {#} s" "length (ledger s) = unat (cfg_actors cfg)"
    "sim_cfg s = cfg" "default_config (sim_registry s) = cfg_mailbox cfg" "delayed s = []" "tick s = 0"
    "length (mid_times s) = unat (cfg_messages cfg)" "work_left s \<le> 3 * unat (cfg_messages cfg) + unat (cfg_actors cfg)"
    using spawn_all_inv [of cfg "unat (cfg_actors cfg)" E R seed] assms
    by (auto simp: sim_config_ok_def with_config_def)
  then show ?thesis using assms by (simp add: config_ready_def sim_config_ok_def)
qed

end

end
