(* ===== verification/Sim_Quiescence.thy ===== *)
theory Sim_Quiescence
  imports Sim_Run
begin

text \<open>
  Runs come to rest although deliveries are delayed and duplicated. The workload is sent
  within as many rounds as it has messages, since every round sends one, so every timer
  is due by a fixed horizon; from then on each round removes work, and until then the
  distance to the horizon shrinks.
\<close>

text \<open>The tick by which every timer has fired.\<close>

definition horizon :: "('d, 'r) sim \<Rightarrow> nat" where
  "horizon s = length (mid_times s) + lag (cfg_faults (sim_cfg s))"

definition on_schedule :: "('d, 'r) sim \<Rightarrow> bool" where
  "on_schedule s =
     (timely (horizon s) s \<and> (next_mid s < mid_budget s \<longrightarrow> unat (tick s) \<le> unat (next_mid s))
      \<and> (horizon s \<le> unat (tick s) \<longrightarrow> delayed s = []))"

text \<open>What decreases from round to round: the work that is left and the time to the horizon.\<close>

definition outlook :: "('d, 'r) sim \<Rightarrow> nat" where
  "outlook s = toil s + (horizon s - unat (tick s))"

lemma lag_bound: "lag f \<le> unat (max (delay_ticks_min f) (delay_ticks_max f)) + 2"
  by (simp add: lag_def)

context registry_env
begin

lemma budget_length:
  assumes "world_inv E H s"
  shows "unat (mid_budget s) = length (mid_times s)"
  unfolding mid_budget_def by (rule unat_of_nat_small) (use assms in \<open>simp add: sim_inv_def sim_ok_def idents_ok_def\<close>)

text \<open>A round sends within the horizon, and sends something while there is anything to send.\<close>

lemma inject_on_schedule:
  assumes inv: "world_inv E {#} s" and sched: "on_schedule s" and tk: "unat (tick s + 1) = unat (tick s) + 1"
    and in1: "inject_workload X R (next_tick s) = Some s1"
    and i: "s1 = next_tick s \<and> mid_budget s \<le> next_mid s \<or> unat (next_mid s) < unat (next_mid s1) \<and> toil s1 < toil s"
      "\<forall>B. timely B s \<longrightarrow> unat (tick s + 1) + lag (cfg_faults (sim_cfg s)) \<le> B \<longrightarrow> timely B s1"
  shows "timely (horizon s) s1" and "next_mid s1 < mid_budget s \<Longrightarrow> unat (tick s + 1) \<le> unat (next_mid s1)"
    and "horizon s \<le> unat (tick s) \<Longrightarrow> delayed s = [] \<and> mid_budget s \<le> next_mid s \<and> s1 = next_tick s"
proof -
  note budget = budget_length [OF inv]
  have same: "s1 = next_tick s" if "mid_budget s \<le> next_mid s"
    using in1 that by (simp add: inject_workload_def mid_budget_def)
  have early: "unat (tick s) < unat (next_mid s1) \<and> unat (tick s + 1) + lag (cfg_faults (sim_cfg s)) \<le> horizon s"
    if "\<not> mid_budget s \<le> next_mid s"
    using that sched i(1) tk budget by (auto simp: on_schedule_def horizon_def word_less_nat_alt word_le_nat_alt)
  show "timely (horizon s) s1"
    using same early i(2) sched by (cases "mid_budget s \<le> next_mid s") (simp_all add: on_schedule_def timely_def)
  show "unat (tick s + 1) \<le> unat (next_mid s1)" if "next_mid s1 < mid_budget s"
    using same early that tk by (cases "mid_budget s \<le> next_mid s") auto
  show "delayed s = [] \<and> mid_budget s \<le> next_mid s \<and> s1 = next_tick s" if "horizon s \<le> unat (tick s)"
    using that early same sched tk by (cases "mid_budget s \<le> next_mid s") (auto simp: on_schedule_def)
qed

lemma sim_round_on_schedule:
  assumes inv: "world_inv E {#} s" and cfg: "config_ready s" and hc: "hour_clock E"
    and v: "roomy (sim_cfg s)" and c: "default_config (sim_registry s) = cfg_mailbox (sim_cfg s)"
    and sched: "on_schedule s" and nq: "\<not> is_quiescent X s" and t: "unat (tick s) + 1 < 2 ^ 64"
  shows "\<exists>s'. sim_round X R E s = Some s' \<and> world_inv E {#} s' \<and> same_setup s s' \<and> tick s' = tick s + 1
    \<and> on_schedule s' \<and> outlook s' < outlook s"
proof (rule round_parts [OF inv cfg hc])
  fix s1 s2 s'
  assume in1: "inject_workload X R (next_tick s) = Some s1" and r: "sim_round X R E s = Some s'" "world_inv E {#} s'"
    and d: "deliver_due X s1 = Some s2" "set (delayed s2) \<subseteq> set (delayed s1)" "timely (unat (tick s + 1)) s1 \<longrightarrow> delayed s2 = []"
      "delayed s' = delayed s2"
    and sw: "same_world (next_tick s) s1" "same_world s1 s2" "same_world s2 s'"
    and n: "next_mid s2 = next_mid s1" "next_mid s' = next_mid s2"
    and i: "s1 = next_tick s \<and> mid_budget s \<le> next_mid s \<or> unat (next_mid s) < unat (next_mid s1) \<and> toil s1 < toil s"
      "\<forall>B. timely B s \<longrightarrow> unat (tick s + 1) + lag (cfg_faults (sim_cfg s)) \<le> B \<longrightarrow> timely B s1"
    and w: "work_left s2 \<le> work_left s1" "work_left s' \<le> work_left s2"
      "roomy (sim_cfg s) \<longrightarrow> default_config (sim_registry s) = cfg_mailbox (sim_cfg s) \<longrightarrow> blocked s2 \<noteq> [] \<or> tasks s2 \<noteq> {#} \<longrightarrow>
         work_left s' < work_left s2"
  have tk: "unat (tick s + 1) = unat (tick s) + 1" using t by (simp add: unat_add_no_wrap)
  have eq: "tick s' = tick s + 1" "horizon s' = horizon s" "mid_budget s' = mid_budget s" "same_setup s s'"
    "length (mid_times s1) = length (mid_times s)"
    using sw by (auto simp: same_world_def horizon_def mid_budget_def)
  note s1 = inject_on_schedule [OF inv sched tk in1 i]
  have "delayed s' = []" if "horizon s' \<le> unat (tick s')"
    using timely_mono [OF s1(1), of s1] that d(3,4) eq(1,2) by (fastforce simp: timely_def)
  then have "on_schedule s'" using timely_mono [OF s1(1), of s'] s1(2) d(2,4) n eq by (simp add: on_schedule_def)
  moreover have "outlook s' < outlook s"
  proof (cases "unat (tick s) < horizon s")
    case True
    have "toil s' \<le> toil s1" using w(1,2) n eq by (simp add: toil_def)
    moreover have "toil s1 \<le> toil s" using i(1) by (auto simp: toil_def work_left_def pending_flights_def)
    ultimately show ?thesis using True eq(1,2) tk by (simp add: outlook_def)
  next
    case False
    then have e: "delayed s = []" "mid_budget s \<le> next_mid s" "s1 = next_tick s" using s1(3) by auto
    then have s2: "s2 = next_tick s" using d(1) by (simp add: deliver_due_def)
    have "blocked s2 \<noteq> [] \<or> tasks s2 \<noteq> {#}" using idle_quiescent [OF inv e(2,1)] nq s2 by auto
    moreover have "work_left s2 = work_left s" unfolding s2 by (simp add: work_left_def pending_flights_def)
    ultimately have "work_left s' < work_left s" using w(3) v c by auto
    then have "toil s' < toil s" using n e(3) eq by (simp add: toil_def)
    then show ?thesis using False eq(1,2) tk by (simp add: outlook_def)
  qed
  ultimately show ?thesis using r eq by blast
qed

lemma run_rounds_on_schedule:
  "world_inv E {#} s \<Longrightarrow> config_ready s \<Longrightarrow> hour_clock E \<Longrightarrow> roomy (sim_cfg s) \<Longrightarrow>
     default_config (sim_registry s) = cfg_mailbox (sim_cfg s) \<Longrightarrow> on_schedule s \<Longrightarrow> outlook s < n \<Longrightarrow>
     unat (tick s) + n < 2 ^ 64 \<Longrightarrow> \<exists>m s'. run_rounds X R E n k s = Some (m, s') \<and> is_quiescent X s'"
proof (induction n arbitrary: k s)
  case (Suc n)
  show ?case
  proof (cases "is_quiescent X s")
    case False
    have t: "unat (tick s) + 1 < 2 ^ 64" using Suc.prems(8) by simp
    obtain s1 where s1: "sim_round X R E s = Some s1" "world_inv E {#} s1" "same_setup s s1" "tick s1 = tick s + 1"
      "on_schedule s1" "outlook s1 < outlook s"
      using sim_round_on_schedule [OF Suc.prems(1-6) False t] by blast
    have "unat (tick s + 1) = unat (tick s) + 1" using t by (simp add: unat_add_no_wrap)
    then have "unat (tick s1) + n < 2 ^ 64" using s1(4) Suc.prems(8) by simp
    moreover have "config_ready s1" "roomy (sim_cfg s1)" "default_config (sim_registry s1) = cfg_mailbox (sim_cfg s1)"
      using Suc.prems(2,4,5) s1(3) by (simp_all add: config_ready_def)
    ultimately show ?thesis using Suc.IH [OF s1(2) _ Suc.prems(3), of "k + 1"] Suc.prems(7) s1(1,5,6) False by simp
  qed simp
qed simp

lemma sim_run_quiesces:
  assumes inv: "world_inv E {#} s" and "config_ready s" and "hour_clock E" and "roomy (sim_cfg s)"
    and "default_config (sim_registry s) = cfg_mailbox (sim_cfg s)" and "delayed s = []" and "tick s = 0"
    and "outlook s < unat steps"
  shows "\<exists>out s'. sim_run X R E steps s = Some (out, s') \<and> quiesced out"
proof -
  have "on_schedule s" using assms(6,7) by (simp add: on_schedule_def timely_def)
  moreover have "unat (tick s) + unat steps < 2 ^ 64" using assms(7) unat_u64_bound [of steps] by simp
  ultimately obtain m s' where q: "run_rounds X R E (unat steps) 0 s = Some (m, s')" "is_quiescent X s'"
    using run_rounds_on_schedule [OF assms(1-5) _ assms(8)] by blast
  obtain out s'' where "sim_run X R E steps s = Some (out, s'')" "quiesced out = is_quiescent X s''"
    using sim_run_inv [OF assms(1-3)] by blast
  then show ?thesis using q by (auto simp: sim_run_def Let_def split: if_splits)
qed

end

end
