(* ===== verification/Sim_Correct.thy ===== *)
theory Sim_Correct
  imports Sim_Quiescence
begin

text \<open>
  What the deterministic simulator promises: its audits are never violated, whatever the
  faults and whatever the generator draws, every message is accounted for when a run has
  come to rest, runs come to rest, and without faults every message is processed exactly
  once. The one case that does not come to rest is a batch that no mailbox can hold.
\<close>

section \<open>An environment for examples\<close>

text \<open>Clocks that stand still, and minted identities outside the range of the simulator's.\<close>

definition sim_demo_env :: sim_env where
  "sim_demo_env =
     \<lparr>unix_clock = (\<lambda>_. 0),
      exit_envs = (\<lambda>_. \<lparr>now_check = 0, now_record = 0, minted = (\<lambda>_. ActorId 7)\<rparr>),
      fresh_ids = (\<lambda>n. ActorId (of_nat n))\<rparr>"

definition demo_chaos :: sim_config where
  "demo_chaos = SimConfig_default\<lparr>cfg_faults := chaos (f64_ratio 1 10)\<rparr>"

definition demo_tight :: sim_config where
  "demo_tight = SimConfig_default\<lparr>cfg_mailbox := (cfg_mailbox SimConfig_default)\<lparr>capacity := 2\<rparr>\<rparr>"

lemma sim_demo_hour: "hour_clock sim_demo_env"
  by (simp add: hour_clock_def sim_demo_env_def duration_since_def from_secs_def)

lemma demo_configs_ok: "sim_config_ok SimConfig_default" "sim_config_ok demo_chaos" "sim_config_ok demo_tight"
  by (simp_all add: sim_config_ok_def SimConfig_default_def FaultConfig_default_def demo_chaos_def demo_tight_def
      chaos_def config_ok_def MAX_PERMITS_def)

lemma fault_free_calm: "is_fault_free f \<Longrightarrow> gentle f \<and> punctual f"
  using float_le_zero_if_zero by (auto simp: is_fault_free_def gentle_def punctual_def)

lemma default_fault_free: "is_fault_free (cfg_faults SimConfig_default)"
  by (simp add: SimConfig_default_def FaultConfig_default_def is_fault_free_def float_is_zero_def)

lemma default_lively: "lively SimConfig_default"
  using fault_free_calm [OF default_fault_free] by (simp add: lively_def roomy_def SimConfig_default_def)

context registry_env
begin

text \<open>A run from the start, with everything that is known of its end.\<close>

lemma sim_full_run:
  assumes "sim_config_ok cfg" and "hour_clock E"
  shows "\<exists>s out s'. with_config X R E seed cfg = Some s \<and> sim_run X R E steps s = Some (out, s') \<and> world_inv E {#} s'
    \<and> config_ready s' \<and> sim_cfg s' = cfg \<and> length (mid_times s') = unat (cfg_messages cfg) \<and> quiesced out = is_quiescent X s'
    \<and> (lively cfg \<longrightarrow> 3 * unat (cfg_messages cfg) + unat (cfg_actors cfg) < unat steps \<longrightarrow> quiesced out)
    \<and> (roomy cfg \<longrightarrow> 6 * unat (cfg_messages cfg) + unat (cfg_actors cfg) + lag (cfg_faults cfg) < unat steps \<longrightarrow> quiesced out)"
proof -
  obtain s where s: "with_config X R E seed cfg = Some s" "world_inv E {#} s" "config_ready s" "sim_cfg s = cfg"
    "default_config (sim_registry s) = cfg_mailbox cfg" "delayed s = []" "tick s = 0" "length (mid_times s) = unat (cfg_messages cfg)"
    "work_left s \<le> 3 * unat (cfg_messages cfg) + unat (cfg_actors cfg)"
    using with_config_inv [OF assms(1)] by blast
  have "outlook s \<le> 6 * unat (cfg_messages cfg) + unat (cfg_actors cfg) + lag (cfg_faults cfg)"
    using s(4,7-9) by (simp add: outlook_def toil_def horizon_def)
  then have q: "\<exists>out s'. sim_run X R E steps s = Some (out, s') \<and> quiesced out"
    if "roomy cfg" "6 * unat (cfg_messages cfg) + unat (cfg_actors cfg) + lag (cfg_faults cfg) < unat steps"
    using sim_run_quiesces [OF s(2,3) assms(2)] s(4-7) that by simp
  obtain out s' where r: "sim_run X R E steps s = Some (out, s')" "world_inv E {#} s'" "same_setup s s'"
    "quiesced out = is_quiescent X s'"
    "lively (sim_cfg s) \<longrightarrow> default_config (sim_registry s) = cfg_mailbox (sim_cfg s) \<longrightarrow> delayed s = [] \<longrightarrow>
       work_left s < unat steps \<longrightarrow> quiesced out"
    using sim_run_inv [OF s(2,3) assms(2)] by blast
  have "config_ready s'" using s(3) r(3) by (simp add: config_ready_def)
  then show ?thesis using s r q by (intro exI [of _ s] exI [of _ out] exI [of _ s']) auto
qed

lemma quiescent_all_sent:
  assumes "world_inv E {#} s" and "is_quiescent X s" and "unat mid < length (mid_times s)"
  shows "mid < next_mid s"
proof -
  have "unat (mid_budget s) = length (mid_times s)"
    unfolding mid_budget_def by (rule unat_of_nat_small) (use assms(1) in \<open>simp add: sim_inv_def sim_ok_def idents_ok_def\<close>)
  then show ?thesis using assms(2,3) by (simp add: is_quiescent_def word_le_nat_alt word_less_nat_alt)
qed

lemma quiescent_exactly_once:
  assumes inv: "world_inv E {#} s" and q: "is_quiescent X s" and free: "is_fault_free (cfg_faults (sim_cfg s))"
  shows "mid_times s = replicate (length (mid_times s)) 1 \<and> mid_lost s = replicate (length (mid_times s)) False
    \<and> list_all led_alive (ledger s)"
proof -
  note parts = inv [unfolded sim_inv_def sim_ok_def]
  have len: "length (mid_lost s) = length (mid_times s)" "length (mid_times s) < 2 ^ 20" using parts by (auto simp: idents_ok_def)
  have calm: "\<forall>led \<in> set (ledger s). led_alive led" "True \<notin> set (mid_lost s)"
    using parts fault_free_calm [OF free] by (auto simp: calm_ok_def)
  have lost: "\<not> mid_lost s ! k" if "k < length (mid_times s)" for k
    using calm(2) nth_mem [of k "mid_lost s"] that len(1) by fastforce
  have "mid_times s ! k = 1" if "k < length (mid_times s)" for k
  proof -
    have uk: "unat (of_nat k :: u64) = k" using that len(2) by (intro unat_of_nat_small) simp
    have "(of_nat k :: u64) < next_mid s" by (rule quiescent_all_sent [OF inv q]) (use that uk in simp)
    note id = settled_identities [OF inv q this, unfolded uk]
    have "unat (mid_times s ! k) \<le> 1" using id(3) free by (simp add: is_fault_free_def)
    moreover have "unat (mid_times s ! k) \<noteq> 0" using id(2) lost [OF that] by (simp add: unat_eq_0)
    ultimately have "unat (mid_times s ! k) = 1" by simp
    then show ?thesis by (metis unat_1 word_unat_eq_iff)
  qed
  then have "mid_times s = replicate (length (mid_times s)) 1" by (intro nth_equalityI) simp_all
  moreover have "mid_lost s = replicate (length (mid_times s)) False" using lost len(1) by (intro nth_equalityI) simp_all
  ultimately show ?thesis using calm(1) by (simp add: list_all_iff)
qed

lemma accounted:
  assumes "sim_config_ok cfg" and "hour_clock E" and "with_config X R E seed cfg = Some s"
    and "sim_run X R E steps s = Some (out, s')" and "quiesced out" and "k < unat (cfg_messages cfg)"
  shows "(mid_times s' ! k \<noteq> 0 \<or> mid_lost s' ! k)
    \<and> (float_is_zero (duplicate_prob (cfg_faults cfg)) \<longrightarrow> unat (mid_times s' ! k) \<le> 1)"
proof -
  have r: "world_inv E {#} s'" "is_quiescent X s'" "sim_cfg s' = cfg" "length (mid_times s') = unat (cfg_messages cfg)"
    using sim_full_run [OF assms(1,2), of R seed steps] assms(3-5) by auto
  have uk: "unat (of_nat k :: u64) = k"
    using assms(6) unat_u64_bound [of "cfg_messages cfg"] by (intro unat_of_nat_small) simp
  have "(of_nat k :: u64) < next_mid s'" by (rule quiescent_all_sent [OF r(1,2)]) (use assms(6) r(4) uk in simp)
  from settled_identities [OF r(1,2) this] show ?thesis by (simp add: r(3) uk)
qed

lemma live_target_too_small:
  assumes inv: "reg_inv (sim_registry s)" and i: "index (actors s) ord = Some i"
    and live: "get_state X (sim_registry s) i \<notin> {None, Some Stopped, Some Failed}"
    and big: "unat (capacity (default_config (sim_registry s))) < length msgs" "length msgs < 2 ^ 64"
  shows "attempt_delivery X ord msgs mids was s = Some (park ord msgs mids was s)"
proof -
  obtain e where e: "dm_get X (by_id (sim_registry s)) i = Some e" using live by (auto simp: get_state_def)
  have "unat (of_nat (length msgs) :: u64) = length msgs" using big(2) by (intro unat_of_nat_small) simp
  then have "remaining_capacity (mailbox e) < of_nat (length msgs)"
    using big(1) mailbox_len(2) [OF inv e] by (simp add: word_less_nat_alt)
  then show ?thesis
    unfolding attempt_delivery_def i Option.bind.simps using live
    by (simp only: if_False) (simp add: get_mailbox_def e)
qed

end

section \<open>Properties\<close>

text \<open>
  C2: the simulator's own audits never fail. For every configuration of fewer than
  \<open>2 ^ 20\<close> messages and at most \<open>2 ^ 32\<close> actors with a usable mailbox and a delay range other
  than all of \<open>u64\<close>, every generator and seed, every fault schedule and every number of
  rounds, construction and the run complete without a panic: no failed lookup or
  registration, no violated conservation of mailbox slots, no supervisor that granted
  more restarts than configured, and at rest no message processed twice or unaccounted
  for. The readings of the monotonic clock are taken to lie within the restart window of
  one hour.
\<close>

theorem sim_audits_pass:
  assumes "registry_env X items cap permits idle waiting dinv" and "sim_config_ok cfg" and "hour_clock E"
  shows "\<exists>s out s'. with_config X R E seed cfg = Some s \<and> sim_run X R E steps s = Some (out, s') \<and> audit_counts X s'
    \<and> (quiesced out \<longrightarrow> audit_identities s')"
  using registry_env.sim_full_run [OF assms(1) assms(2,3)] registry_env.audit_counts_pass [OF assms(1)]
    registry_env.audit_identities_pass [OF assms(1)]
  by metis

theorem sim_audits_pass_witness:
  "\<exists>s out s'. with_config standin_rg counter_rng sim_demo_env 7 demo_chaos = Some s
     \<and> sim_run standin_rg counter_rng sim_demo_env 1000 s = Some (out, s') \<and> audit_counts standin_rg s'"
  using sim_audits_pass [OF standin_rg.registry_env_axioms demo_configs_ok(2) sim_demo_hour] by blast



text \<open>
  C12: runs come to rest under every fault. With room for three messages in a mailbox and
  at least one task and one retry per round, a run is quiescent after at most six rounds
  per message, one per actor and the longest delay of a delivery, however many of its
  sends are rejected, delayed or duplicated and however often its actors crash.
\<close>

theorem sim_quiesces:
  assumes "registry_env X items cap permits idle waiting dinv" and "sim_config_ok cfg" and "hour_clock E"
    and "roomy cfg" and "6 * unat (cfg_messages cfg) + unat (cfg_actors cfg) + lag (cfg_faults cfg) < unat steps"
  shows "\<exists>s out s'. with_config X R E seed cfg = Some s \<and> sim_run X R E steps s = Some (out, s') \<and> quiesced out
    \<and> is_quiescent X s'"
  using registry_env.sim_full_run [OF assms(1) assms(2,3), of R seed steps] assms(4,5) by blast

theorem sim_quiesces_witness:
  "\<exists>s out s'. with_config standin_rg counter_rng sim_demo_env 7 demo_chaos = Some s
     \<and> sim_run standin_rg counter_rng sim_demo_env 2000 s = Some (out, s') \<and> quiesced out"
proof -
  have "unat (cfg_messages demo_chaos) = 256" "unat (cfg_actors demo_chaos) = 4" "roomy demo_chaos"
    by (simp_all add: demo_chaos_def SimConfig_default_def roomy_def)
  moreover have "lag (cfg_faults demo_chaos) \<le> 10"
    by (rule le_trans [OF lag_bound]) (simp add: demo_chaos_def chaos_def max_def)
  ultimately show ?thesis
    using sim_quiesces [OF standin_rg.registry_env_axioms demo_configs_ok(2) sim_demo_hour, of 2000 counter_rng 7] by auto
qed

text \<open>
  C11: without faults delivery is exactly once. A fault-free world with room for three
  messages in a mailbox, run to quiescence, has processed every message of the workload
  once, lost none, and all of its actors are alive.
\<close>

theorem fault_free_exactly_once:
  assumes "registry_env X items cap permits idle waiting dinv" and "sim_config_ok cfg" and "hour_clock E"
    and "lively cfg" and "is_fault_free (cfg_faults cfg)" and "3 * unat (cfg_messages cfg) + unat (cfg_actors cfg) < 4000000"
  shows "\<exists>s out s'. with_config X R E seed cfg = Some s \<and> run_to_quiescence X R E s = Some (out, s') \<and> quiesced out
    \<and> mid_times s' = replicate (unat (cfg_messages cfg)) 1 \<and> mid_lost s' = replicate (unat (cfg_messages cfg)) False
    \<and> list_all led_alive (ledger s')"
proof -
  have "3 * unat (cfg_messages cfg) + unat (cfg_actors cfg) < unat DEFAULT_STEP_BUDGET"
    using assms(6) by (simp add: DEFAULT_STEP_BUDGET_def)
  then obtain s out s' where r: "with_config X R E seed cfg = Some s" "sim_run X R E DEFAULT_STEP_BUDGET s = Some (out, s')"
    "quiesced out" "sim_inv X items cap permits idle dinv E {#} s'" "is_quiescent X s'" "sim_cfg s' = cfg"
    "length (mid_times s') = unat (cfg_messages cfg)"
    using registry_env.sim_full_run [OF assms(1) assms(2,3), of R seed DEFAULT_STEP_BUDGET] assms(4) by blast
  show ?thesis
    using registry_env.quiescent_exactly_once [OF assms(1) r(4,5)] r assms(5) by (auto simp: run_to_quiescence_def)
qed

theorem fault_free_exactly_once_witness:
  "\<exists>s out s'. with_config standin_rg counter_rng sim_demo_env 7 SimConfig_default = Some s
     \<and> run_to_quiescence standin_rg counter_rng sim_demo_env s = Some (out, s') \<and> mid_times s' = replicate 256 1"
proof -
  have n: "unat (cfg_messages SimConfig_default) = 256" "unat (cfg_actors SimConfig_default) = 4"
    by (simp_all add: SimConfig_default_def)
  show ?thesis
    using fault_free_exactly_once [OF standin_rg.registry_env_axioms demo_configs_ok(1) sim_demo_hour default_lively
        default_fault_free, of counter_rng 7] unfolding n by auto
qed



end
