(* ===== verification/Worker_Timeless.thy ===== *)
theory Worker_Timeless
  imports Worker
begin

text \<open>
  Wall clock time flows into the registry, where the last activity of an actor is
  recorded, and nowhere out of it: two registries that agree up to these times behave
  alike under every operation that registers, removes or processes. The structure is that
  of a noninterference proof, with the recorded times as the secret.
\<close>

section \<open>Registries that agree up to recorded times\<close>

definition timeless :: "('q, 's, 'n) actor_entry \<Rightarrow> ('q, 's, 'n) actor_entry" where
  "timeless e = e\<lparr>last_active := 0\<rparr>"

definition same_view ::
  "('q, 's, 'n, 'd, 'z) rg_ext_scheme \<Rightarrow> ('d \<Rightarrow> bool) \<Rightarrow> 'd registry \<Rightarrow> 'd registry \<Rightarrow> bool" where
  "same_view X dinv r r' =
     ((\<forall>i. map_option timeless (dm_get X (by_id r) i) = map_option timeless (dm_get X (by_id r') i))
      \<and> by_name r = by_name r' \<and> default_config r = default_config r' \<and> dinv (by_id r) \<and> dinv (by_id r'))"

text \<open>Results that are both missing, or both there with their registries alike.\<close>

abbreviation same_views ::
  "('q, 's, 'n, 'd, 'z) rg_ext_scheme \<Rightarrow> ('d \<Rightarrow> bool) \<Rightarrow> 'd registry option \<Rightarrow> 'd registry option \<Rightarrow> bool" where
  "same_views X dinv \<equiv> rel_option (same_view X dinv)"

definition same_pstate ::
  "('q, 's, 'n, 'd, 'z) rg_ext_scheme \<Rightarrow> ('d \<Rightarrow> bool) \<Rightarrow> ('d, 'e) pstate \<Rightarrow> ('d, 'e) pstate \<Rightarrow> bool" where
  "same_pstate X dinv s s' =
     (same_view X dinv (ps_registry s) (ps_registry s') \<and> ps_stats s = ps_stats s' \<and> ps_exec s = ps_exec s')"

abbreviation same_step ::
  "('q, 's, 'n, 'd, 'z) rg_ext_scheme \<Rightarrow> ('d \<Rightarrow> bool) \<Rightarrow> (bool \<times> ('d, 'e) pstate) option
   \<Rightarrow> (bool \<times> ('d, 'e) pstate) option \<Rightarrow> bool" where
  "same_step X dinv \<equiv> rel_option (rel_prod (=) (same_pstate X dinv))"

lemma timeless_eqD:
  assumes "timeless e = timeless e'"
  shows "entry_name e = entry_name e'" "entry_state e = entry_state e'" "mailbox e = mailbox e'" "processed e = processed e'"
  using assms by (cases e; cases e'; simp add: timeless_def)+

lemma timeless_updates:
  assumes "timeless e = timeless e'"
  shows "timeless (e\<lparr>entry_state := st\<rparr>) = timeless (e'\<lparr>entry_state := st\<rparr>)"
    and "timeless (e\<lparr>mailbox := mb\<rparr>) = timeless (e'\<lparr>mailbox := mb\<rparr>)"
    and "timeless (e\<lparr>processed := k, last_active := t\<rparr>) = timeless (e'\<lparr>processed := k, last_active := t'\<rparr>)"
  using timeless_eqD [OF assms] by (simp_all add: timeless_def)

lemma same_view_get:
  assumes "same_view X dinv r r'"
  obtains "dm_get X (by_id r) i = None" "dm_get X (by_id r') i = None"
  | e e' where "dm_get X (by_id r) i = Some e" "dm_get X (by_id r') i = Some e'" "timeless e = timeless e'"
proof -
  have "map_option timeless (dm_get X (by_id r) i) = map_option timeless (dm_get X (by_id r') i)"
    using assms by (simp add: same_view_def)
  then show ?thesis
    using that by (cases "dm_get X (by_id r) i"; cases "dm_get X (by_id r') i") auto
qed

lemma same_view_reads:
  assumes "same_view X dinv r r'"
  shows "get_state X r' i = get_state X r i" "get_mailbox X r' i = get_mailbox X r i"
proof -
  have "map_option entry_state (dm_get X (by_id r') i) = map_option entry_state (dm_get X (by_id r) i)
      \<and> map_option mailbox (dm_get X (by_id r') i) = map_option mailbox (dm_get X (by_id r) i)"
    using assms by (rule same_view_get [of X dinv r r' i]) (auto dest: timeless_eqD)
  then show "get_state X r' i = get_state X r i" "get_mailbox X r' i = get_mailbox X r i"
    by (auto simp: get_state_def get_mailbox_def map_option_case split: option.splits)
qed

context registry_env
begin

abbreviation alike :: "'d registry \<Rightarrow> 'd registry \<Rightarrow> bool" where
  "alike \<equiv> same_view X dinv"

lemma alike_write:
  assumes "alike r r'" and "timeless e = timeless e'"
  shows "alike (write_entry X i e r) (write_entry X i e' r')"
  using assms by (simp add: same_view_def write_entry_def get_ins invar_ins)

lemma alike_set_state: "alike r r' \<Longrightarrow> alike (snd (set_state X i st r)) (snd (set_state X i st r'))"
  by (rule same_view_get [of X dinv r r' i]) (auto simp: set_state_def intro: alike_write timeless_updates)

lemma alike_put_mailbox: "alike r r' \<Longrightarrow> alike (put_mailbox X i mb r) (put_mailbox X i mb r')"
  by (rule same_view_get [of X dinv r r' i]) (auto simp: put_mailbox_def intro: alike_write timeless_updates)

lemma alike_record_processed:
  assumes "alike r r'"
  shows "alike (record_processed X t i r) (record_processed X t' i r')"
  using assms
proof (rule same_view_get [of X dinv r r' i])
  fix e e'
  assume "dm_get X (by_id r) i = Some e" "dm_get X (by_id r') i = Some e'" "timeless e = timeless e'"
  then show ?thesis
    using assms timeless_eqD(4) [of e e'] by (simp add: record_processed_def alike_write timeless_updates)
qed (simp add: assms record_processed_def)

lemma alike_consume_slot: "alike r r' \<Longrightarrow> alike (consume_slot X i r) (consume_slot X i r')"
  by (auto simp: consume_slot_def same_view_reads intro: alike_put_mailbox split: option.splits)

lemma alike_clear_mailbox: "alike r r' \<Longrightarrow> same_views X dinv (clear_mailbox X i r) (clear_mailbox X i r')"
  by (cases "get_mailbox X r i"; cases "Mailbox_clear X (the (get_mailbox X r i))")
     (auto simp: clear_mailbox_def same_view_reads intro: alike_put_mailbox)

lemma alike_state_change:
  "alike r r' \<Longrightarrow> alike (handle_state_change_for X i msg r) (handle_state_change_for X i msg r')"
  by (auto simp: handle_state_change_for_def intro: alike_set_state split: message_payload.splits signal.splits)

lemma alike_fail_actor: "alike r r' \<Longrightarrow> same_views X dinv (fail_actor X i r) (fail_actor X i r')"
  unfolding fail_actor_def by (intro alike_clear_mailbox alike_set_state)

lemma alike_unregister: "alike r r' \<Longrightarrow> alike (snd (unregister X i r)) (snd (unregister X i r'))"
proof (rule same_view_get [of X dinv r r' i])
  assume r: "alike r r'" and d: "dm_get X (by_id r) i = None" "dm_get X (by_id r') i = None"
  then show "alike (snd (unregister X i r)) (snd (unregister X i r'))"
    using remove_old [of "by_id r" i] remove_old [of "by_id r'" i] 
    by (auto simp: unregister_def same_view_def get_del invar_del case_prod_beta)
next
  fix e e'
  assume r: "alike r r'" and d: "dm_get X (by_id r) i = Some e" "dm_get X (by_id r') i = Some e'" "timeless e = timeless e'"
  then show "alike (snd (unregister X i r)) (snd (unregister X i r'))"
    using remove_old [of "by_id r" i] remove_old [of "by_id r'" i] timeless_eqD(1) [OF d(3)]
    by (auto simp: unregister_def same_view_def get_del invar_del case_prod_beta Let_def split: option.split)
qed

lemma alike_by_name: "alike r r' \<Longrightarrow> alike (r\<lparr>by_name := nms\<rparr>) (r'\<lparr>by_name := nms\<rparr>)"
  by (simp add: same_view_def)

lemma alike_insert:
  assumes "alike r r'" and "timeless e = timeless e'"
  shows "alike (r\<lparr>by_id := snd (dm_insert X (by_id r) i e)\<rparr>) (r'\<lparr>by_id := snd (dm_insert X (by_id r') i e')\<rparr>)"
  using alike_write [OF assms] by (simp add: write_entry_def)

lemma register_named_cases:
  assumes "dinv (by_id r)"
  shows "register_named X t i nm r =
    (if dm_get X (by_id r) i \<noteq> None then (Err (id_exists_error i), r)
     else if \<exists>n. nm = Some n \<and> hm_contains (by_name r) n then (Err (name_exists_error (the nm)), r)
     else (Ok (Mailbox_new X i (default_config r)),
       r\<lparr>by_id := snd (dm_insert X (by_id r) i \<lparr>entry_name = nm, entry_state = to_u8 Creating,
            mailbox = Mailbox_new X i (default_config r), processed = 0, last_active = t\<rparr>),
         by_name := (case nm of None \<Rightarrow> by_name r | Some n \<Rightarrow> hm_insert (by_name r) n i)\<rparr>))"
  using insert_old [OF assms, of i] unfolding register_named_def Let_def
  by (cases nm) (simp_all add: case_prod_beta)

lemma alike_register:
  assumes "alike r r'"
  shows "is_ok (fst (register_named X t i nm r)) = is_ok (fst (register_named X t' i nm r'))"
    and "alike (snd (register_named X t i nm r)) (snd (register_named X t' i nm r'))"
proof -
  have d: "dinv (by_id r)" "dinv (by_id r')" and eq: "default_config r' = default_config r" "by_name r' = by_name r"
    using assms by (simp_all add: same_view_def)
  have none: "dm_get X (by_id r') i = None \<longleftrightarrow> dm_get X (by_id r) i = None"
    using assms by (rule same_view_get [of X dinv r r' i]) auto
  show "is_ok (fst (register_named X t i nm r)) = is_ok (fst (register_named X t' i nm r'))"
    unfolding register_named_cases [OF d(1)] register_named_cases [OF d(2)] none eq by auto
  show "alike (snd (register_named X t i nm r)) (snd (register_named X t' i nm r'))"
    unfolding register_named_cases [OF d(1)] register_named_cases [OF d(2)] none eq if_distrib [of snd] snd_conv
    using assms by (simp only: split: if_split) (auto simp only: timeless_def actor_entry.simps intro!: alike_by_name alike_insert)
qed

section \<open>Message processing\<close>

abbreviation alike_ps :: "('d, 'e) pstate \<Rightarrow> ('d, 'e) pstate \<Rightarrow> bool" where
  "alike_ps \<equiv> same_pstate X dinv"

lemma alike_ps_parts:
  assumes "alike_ps st st'"
  shows "alike (ps_registry st) (ps_registry st')" "ps_stats st' = ps_stats st" "ps_exec st' = ps_exec st"
  using assms by (simp_all add: same_pstate_def)

lemma alike_ps_registry: "alike_ps st st' \<Longrightarrow> alike r r' \<Longrightarrow> alike_ps (st\<lparr>ps_registry := r\<rparr>) (st'\<lparr>ps_registry := r'\<rparr>)"
  by (simp add: same_pstate_def)

lemma alike_ps_exec: "alike_ps st st' \<Longrightarrow> alike_ps (st\<lparr>ps_exec := e\<rparr>) (st'\<lparr>ps_exec := e\<rparr>)"
  by (simp add: same_pstate_def)

lemma alike_ps_stats: "alike_ps st st' \<Longrightarrow> alike_ps (st\<lparr>ps_stats := w\<rparr>) (st'\<lparr>ps_stats := w\<rparr>)"
  by (simp add: same_pstate_def)

lemma alike_count_processed:
  "alike_ps st st' \<Longrightarrow> alike_ps (count_processed X t i st) (count_processed X t' i st')"
  by (auto simp: count_processed_def same_pstate_def intro: alike_consume_slot alike_record_processed)

lemma alike_failing:
  assumes "alike_ps st st'"
  shows "same_step X dinv (map_option (\<lambda>r. (b, st\<lparr>ps_registry := r\<rparr>)) (fail_actor X i (ps_registry st)))
    (map_option (\<lambda>r. (b, st'\<lparr>ps_registry := r\<rparr>)) (fail_actor X i (ps_registry st')))"
  using alike_fail_actor [OF alike_ps_parts(1) [OF assms], of i] assms
  by (auto simp: option.rel_map elim!: option.rel_mono_strong intro: alike_ps_registry)

lemma alike_process_active:
  assumes "alike_ps st st'"
  shows "same_step X dinv (process_active X ex t i msg st) (process_active X ex t' i msg st')"
proof (cases ex)
  case None
  then show ?thesis
    using assms by (simp add: process_active_def alike_count_processed alike_ps_registry alike_state_change alike_ps_parts)
next
  case (Some ops)
  obtain res e where x: "execute ops (ps_exec st) i msg = (res, e)" by fastforce
  have e: "alike_ps (st\<lparr>ps_exec := e\<rparr>) (st'\<lparr>ps_exec := e\<rparr>)" by (rule alike_ps_exec [OF assms])
  show ?thesis
  proof (cases res)
    case Panicked
    then show ?thesis using x Some assms e by (simp add: process_active_def alike_ps_parts)
  next
    case (Returned verdict)
    note r = alike_ps_parts(1) [OF assms]
    have "alike_ps ((st\<lparr>ps_exec := e\<rparr>)\<lparr>ps_registry := ra\<rparr>) ((st'\<lparr>ps_exec := e\<rparr>)\<lparr>ps_registry := rb\<rparr>)" if "alike ra rb" for ra rb
      by (rule alike_ps_registry [OF e that])
    note step = alike_count_processed [OF this]
    show ?thesis
      using x Some Returned assms step alike_count_processed [OF e] alike_failing [OF e, of False i] alike_set_state [OF r] alike_state_change [OF r] r
      by (cases verdict; cases "payload msg") (simp_all add: process_active_def alike_ps_parts Let_def)
  qed
qed

lemma alike_process_single:
  "alike_ps st st' \<Longrightarrow> same_step X dinv (process_single_message X ex t n i msg st) (process_single_message X ex t' n i msg st')"
  "alike_ps st st' \<Longrightarrow> same_step X dinv (drain_resumed X ex t n i st) (drain_resumed X ex t' n i st')"
proof (induction n arbitrary: st st' msg)
  case 0
  { case 1 show ?case by simp }
  { case 2 show ?case by simp }
next
  case (Suc n)
  { case 1
    note r = alike_ps_parts(1) [OF 1]
    let ?h = "\<lambda>s. consume_slot X i (handle_state_change_for X i msg (ps_registry s))"
    have h: "alike (?h st) (?h st')" by (intro alike_consume_slot alike_state_change r)
    have rest: "alike_ps (st\<lparr>ps_registry := ?h st\<rparr>) (st'\<lparr>ps_registry := ?h st'\<rparr>)" by (rule alike_ps_registry [OF 1 h])
    show ?case
      using 1 alike_process_active [OF 1, of ex t i msg t'] rest Suc.IH(2) [OF rest] same_view_reads [OF r, of i]
        same_view_reads(1) [OF h, of i]
      by (auto simp: Let_def intro!: alike_ps_registry alike_put_mailbox r split: option.split) }
  { case 2
    note r = alike_ps_parts(1) [OF 2]
    show ?case
    proof (cases "get_mailbox X (ps_registry st) i")
      case None
      then show ?thesis using 2 same_view_reads(2) [OF r, of i] by simp
    next
      case (Some mb)
      obtain q mb' where q: "Mailbox_try_recv X mb = (q, mb')" by fastforce
      have put: "alike_ps (st\<lparr>ps_registry := put_mailbox X i mb' (ps_registry st)\<rparr>)
          (st'\<lparr>ps_registry := put_mailbox X i mb' (ps_registry st')\<rparr>)"
        by (intro alike_ps_registry alike_put_mailbox 2 r)
      show ?thesis
      proof (cases q)
        case None
        then show ?thesis using 2 Some q put same_view_reads(2) [OF r, of i] by simp
      next
        case (Some m)
        from Suc.IH(1) [OF put, of m] show ?thesis
          using 2 \<open>get_mailbox X (ps_registry st) i = Some mb\<close> Some q same_view_reads(2) [OF r, of i] Suc.IH(2)
          by (auto simp: rel_prod_sel elim!: option.rel_cases split: bool.split)
      qed
    qed }
qed

lemma alike_process_batch:
  "alike_ps st st' \<Longrightarrow> same_step X dinv (process_batch X ex t n i ms st) (process_batch X ex t' n i ms st')"
proof (induction ms arbitrary: st st')
  case (Cons m ms)
  from alike_process_single(1) [OF Cons.prems, of ex t n i m t'] show ?case
  proof (cases rule: option.rel_cases)
    case (Some a b)
    obtain p s1 s2 where ab: "a = (p, s1)" "b = (p, s2)" "alike_ps s1 s2"
      using Some(3) by (cases a; cases b) auto
    then show ?thesis
      using Some(1,2) Cons.IH [OF ab(3)] same_view_reads(1) [OF alike_ps_parts(1) [OF ab(3)], of i] by (cases p) auto
  qed simp
qed simp

lemma alike_process_task:
  assumes "alike_ps st st'"
  shows "same_step X dinv (process_task X ex t n k st) (process_task X ex t' n k st')"
  using alike_process_single(1) [OF assms] alike_process_batch [OF alike_ps_stats [OF assms]] alike_ps_parts(2) [OF assms]
  by (simp add: process_task_def Let_def del: process_batch.simps)

lemma alike_failed:
  assumes "alike_ps st st'"
  shows "rel_option alike_ps (map_option (\<lambda>r. st\<lparr>ps_registry := r\<rparr>) (fail_actor X i (ps_registry st)))
    (map_option (\<lambda>r. st'\<lparr>ps_registry := r\<rparr>) (fail_actor X i (ps_registry st')))"
  using alike_fail_actor [OF alike_ps_parts(1) [OF assms], of i] assms
  by (auto simp: option.rel_map elim!: option.rel_mono_strong intro: alike_ps_registry)

lemma alike_process_task_safe:
  assumes "alike_ps st st'"
  shows "rel_option alike_ps (process_task_safe X ex t n k st) (process_task_safe X ex t' n k st')"
  using alike_process_task [OF assms, of ex t n k t']
proof (cases rule: option.rel_cases)
  case (Some a b)
  obtain p s1 s2 where ab: "a = (p, s1)" "b = (p, s2)" "alike_ps s1 s2"
    using Some(3) by (cases a; cases b) auto
  let ?w = "\<lambda>s. if additional_messages k \<noteq> [] then s\<lparr>ps_stats := (ps_stats s)\<lparr>ws_batches_processed :=
     ws_batches_processed (ps_stats s) + 1\<rparr>\<rparr> else s"
  have w: "alike_ps (?w s1) (?w s2)" using ab(3) alike_ps_stats [OF ab(3)] alike_ps_parts(2) [OF ab(3)] by simp
  show ?thesis
  proof (cases p)
    case True
    then show ?thesis
      using Some(1,2) ab alike_failed [OF w, of "task_actor k"] by (simp add: process_task_safe_def Let_def)
  qed (use Some(1,2) ab in \<open>simp add: process_task_safe_def\<close>)
qed (simp add: process_task_safe_def)

text \<open>What the simulator calls: the same count, the same executor state, registries alike.\<close>

lemma alike_sim_process_task:
  assumes "alike r r'"
  shows "rel_option (rel_prod (=) (rel_prod alike (=))) (sim_process_task X ex t n k r e) (sim_process_task X ex t' n k r' e)"
proof -
  have "alike_ps \<lparr>ps_registry = r, ps_stats = WorkerStats_default, ps_exec = e\<rparr> \<lparr>ps_registry = r', ps_stats = WorkerStats_default, ps_exec = e\<rparr>"
    using assms by (simp add: same_pstate_def)
  from alike_process_task_safe [OF this, of ex t n k t'] show ?thesis
    by (auto simp: sim_process_task_def option.rel_map same_pstate_def elim: option.rel_mono_strong)
qed

end

end
