(* ===== verification/Sim_Determinism.thy ===== *)
theory Sim_Determinism
  imports Sim_Correct Worker_Timeless
begin

text \<open>
  Determinism of the simulator: what a run does depends on its seed and configuration
  only. The clock readings and identities that the runtime takes from its surroundings
  end up in the recorded times of the registry and in the supervisor tree; neither is
  read in a way that the trace could tell.
\<close>

section \<open>Worlds that agree up to the surroundings\<close>

definition twin :: "('q, 's, 'n, 'd, 'z) rg_ext_scheme \<Rightarrow> ('d \<Rightarrow> bool) \<Rightarrow> ('d, 'r) sim \<Rightarrow> ('d, 'r) sim \<Rightarrow> bool" where
  "twin X dinv s s' =
     (s' = s\<lparr>sim_registry := sim_registry s', tree := tree s', sim_root := sim_root s'\<rparr>
      \<and> same_view X dinv (sim_registry s) (sim_registry s'))"

lemma twinE:
  assumes "twin X dinv s s'"
  obtains r t i where "s' = s\<lparr>sim_registry := r, tree := t, sim_root := i\<rparr>" "same_view X dinv (sim_registry s) r"
  using assms unfolding twin_def by blast

lemma twinI: "same_view X dinv (sim_registry s) r \<Longrightarrow> twin X dinv s (s\<lparr>sim_registry := r, tree := t, sim_root := i\<rparr>)"
  by (simp add: twin_def)

lemma twin_fields:
  assumes "twin X dinv s s'"
  shows "sim_seed s' = sim_seed s" "sim_cfg s' = sim_cfg s" "rng s' = rng s" "clock s' = clock s" "sim_exec s' = sim_exec s"
    "actors s' = actors s" "ordinals s' = ordinals s" "ledger s' = ledger s" "ready s' = ready s" "delayed s' = delayed s"
    "blocked s' = blocked s" "next_seq s' = next_seq s" "next_mid s' = next_mid s" "mid_times s' = mid_times s"
    "mid_lost s' = mid_lost s" "tick s' = tick s" "trace s' = trace s" "stats s' = stats s" "readings s' = readings s"
  by (rule twinE [OF assms]; simp)+

lemma twin_view: "twin X dinv s s' \<Longrightarrow> same_view X dinv (sim_registry s) (sim_registry s')"
  by (simp add: twin_def)

lemma twin_reads:
  assumes "twin X dinv s s'"
  shows "get_state X (sim_registry s') i = get_state X (sim_registry s) i"
    "get_mailbox X (sim_registry s') i = get_mailbox X (sim_registry s) i"
  using same_view_reads [OF twin_view [OF assms]] by simp_all

lemma twin_updates:
  assumes "twin X dinv s s'"
  shows "twin X dinv (s\<lparr>rng := rn\<rparr>) (s'\<lparr>rng := rn\<rparr>)"
    "twin X dinv (s\<lparr>ready := rd\<rparr>) (s'\<lparr>ready := rd\<rparr>)"
    "twin X dinv (s\<lparr>ledger := leds\<rparr>) (s'\<lparr>ledger := leds\<rparr>)"
    "twin X dinv (s\<lparr>stats := st\<rparr>) (s'\<lparr>stats := st\<rparr>)"
    "twin X dinv (s\<lparr>trace := tr\<rparr>) (s'\<lparr>trace := tr\<rparr>)"
    "twin X dinv (s\<lparr>mid_lost := ml\<rparr>) (s'\<lparr>mid_lost := ml\<rparr>)"
    "twin X dinv (s\<lparr>mid_times := mt\<rparr>) (s'\<lparr>mid_times := mt\<rparr>)"
    "twin X dinv (s\<lparr>next_mid := nm\<rparr>) (s'\<lparr>next_mid := nm\<rparr>)"
    "twin X dinv (s\<lparr>next_seq := nq\<rparr>) (s'\<lparr>next_seq := nq\<rparr>)"
    "twin X dinv (s\<lparr>delayed := dl\<rparr>) (s'\<lparr>delayed := dl\<rparr>)"
    "twin X dinv (s\<lparr>blocked := bl\<rparr>) (s'\<lparr>blocked := bl\<rparr>)"
    "twin X dinv (s\<lparr>tick := tk\<rparr>) (s'\<lparr>tick := tk\<rparr>)"
    "twin X dinv (s\<lparr>clock := ck\<rparr>) (s'\<lparr>clock := ck\<rparr>)"
    "twin X dinv (s\<lparr>readings := rs\<rparr>) (s'\<lparr>readings := rs\<rparr>)"
    "twin X dinv (s\<lparr>sim_exec := ex\<rparr>) (s'\<lparr>sim_exec := ex\<rparr>)"
    "twin X dinv (s\<lparr>actors := ac\<rparr>) (s'\<lparr>actors := ac\<rparr>)"
    "twin X dinv (s\<lparr>ordinals := od\<rparr>) (s'\<lparr>ordinals := od\<rparr>)"
    "twin X dinv (s\<lparr>tree := tr1\<rparr>) (s'\<lparr>tree := tr2\<rparr>)"
    "same_view X dinv ra rb \<Longrightarrow> twin X dinv (s\<lparr>sim_registry := ra\<rparr>) (s'\<lparr>sim_registry := rb\<rparr>)"
  by (rule twinE [OF assms]; simp add: twin_def)+

lemma rel_option_bindI:
  "rel_option P a b \<Longrightarrow> (\<And>x y. P x y \<Longrightarrow> rel_option Q (f x) (g y)) \<Longrightarrow> rel_option Q (Option.bind a f) (Option.bind b g)"
  by (cases a; cases b) auto

lemma rel_option_bind_same:
  "(\<And>x. a = Some x \<Longrightarrow> rel_option Q (f x) (g x)) \<Longrightarrow> rel_option Q (Option.bind a f) (Option.bind a g)"
  by (cases a) auto

section \<open>Deliveries and the workload\<close>

context registry_env
begin

abbreviation tw :: "('d, 'r) sim \<Rightarrow> ('d, 'r) sim \<Rightarrow> bool" where
  "tw \<equiv> twin X dinv"

lemma twin_push_trace: "tw s s' \<Longrightarrow> tw (push_trace x s) (push_trace x s')"
  by (simp add: push_trace_def twin_fields twin_updates)

lemma twin_mark_lost: "tw s s' \<Longrightarrow> tw (mark_lost mid s) (mark_lost mid s')"
  by (simp add: mark_lost_def twin_fields twin_updates)

lemma twin_reject_all: "tw s s' \<Longrightarrow> tw (fold (reject_one reason ord) mids s) (fold (reject_one reason ord) mids s')"
proof (induction mids arbitrary: s s')
  case (Cons mid mids)
  note m = twin_mark_lost [OF Cons.prems, of mid]
  have "tw (reject_one reason ord mid s) (reject_one reason ord mid s')"
    using twin_updates(4) [OF m] twin_fields(18) [OF m] by (simp add: reject_one_def Let_def twin_push_trace)
  then show ?case using Cons.IH by simp
qed simp

lemma twin_park: "tw s s' \<Longrightarrow> tw (park ord msgs mids was s) (park ord msgs mids was s')"
  by (erule twinE) (simp add: park_def push_trace_def Let_def twin_def split: list.split)

lemma twin_book_delivery:
  "tw s s' \<Longrightarrow> rel_option tw (book_delivery ord i msgs mids was s) (book_delivery ord i msgs mids was s')"
  by (erule twinE; cases msgs; cases "index (ledger s) ord"; cases mids)
     (simp_all add: book_delivery_def push_trace_def Let_def twin_def)

lemma twin_attempt_delivery:
  assumes "tw s s'"
  shows "rel_option tw (attempt_delivery X ord msgs mids was s) (attempt_delivery X ord msgs mids was s')"
  unfolding attempt_delivery_def twin_fields [OF assms] twin_reads [OF assms]
proof (rule rel_option_bind_same)
  fix i
  have put: "tw (s\<lparr>sim_registry := put_mailbox X i mb (sim_registry s)\<rparr>) (s'\<lparr>sim_registry := put_mailbox X i mb (sim_registry s')\<rparr>)" for mb
    by (rule twin_updates(19) [OF assms alike_put_mailbox [OF twin_view [OF assms]]])
  show "rel_option tw
     (if get_state X (sim_registry s) i \<in> {None, Some Stopped, Some Failed} then Some (fold (reject_one DeadTarget ord) mids s)
      else Option.bind (get_mailbox X (sim_registry s) i) (\<lambda>mb. if remaining_capacity mb < word_of_nat (length msgs)
        then Some (park ord msgs mids was s) else Option.bind (try_send_all X msgs mb)
          (\<lambda>mb. book_delivery ord i msgs mids was (s\<lparr>sim_registry := put_mailbox X i mb (sim_registry s)\<rparr>))))
     (if get_state X (sim_registry s) i \<in> {None, Some Stopped, Some Failed} then Some (fold (reject_one DeadTarget ord) mids s')
      else Option.bind (get_mailbox X (sim_registry s) i) (\<lambda>mb. if remaining_capacity mb < word_of_nat (length msgs)
        then Some (park ord msgs mids was s') else Option.bind (try_send_all X msgs mb)
          (\<lambda>mb. book_delivery ord i msgs mids was (s'\<lparr>sim_registry := put_mailbox X i mb (sim_registry s')\<rparr>))))"
    using twin_reject_all [OF assms] twin_park [OF assms] twin_book_delivery [OF put]
    by (auto intro!: rel_option_bind_same)
qed

lemma twin_deliver_or_block:
  assumes "tw s s'"
  shows "rel_option tw (deliver_or_block X ord msgs mids d s) (deliver_or_block X ord msgs mids d s')"
  using twin_attempt_delivery [OF assms] assms
  by (auto simp: deliver_or_block_def Let_def twin_fields [OF assms] intro!: twin_updates)

text \<open>Draws: the same value, and worlds that still agree.\<close>

lemma twin_roll: "tw s s' \<Longrightarrow> rel_prod (=) tw (sim_roll R p s) (sim_roll R p s')"
  by (cases "roll R p (rng s)") (simp add: sim_roll_def twin_fields twin_updates)

lemma twin_below: "tw s s' \<Longrightarrow> rel_option (rel_prod (=) tw) (sim_below R n s) (sim_below R n s')"
  by (cases "below R n (rng s)") (auto simp: sim_below_def twin_fields twin_updates)

lemma twin_range: "tw s s' \<Longrightarrow> rel_option (rel_prod (=) tw) (sim_range R lo hi s) (sim_range R lo hi s')"
  by (cases "range_incl R lo hi (rng s)") (auto simp: sim_range_def twin_fields twin_updates)

lemma twin_rollE:
  assumes "tw s s'"
  obtains b s1 s1' where "sim_roll R p s = (b, s1)" "sim_roll R p s' = (b, s1')" "tw s1 s1'"
  using twin_roll [OF assms, of R p] by (cases "sim_roll R p s"; cases "sim_roll R p s'") auto

lemma twin_draw_len:
  assumes "tw s s'"
  shows "rel_option (rel_prod (=) tw) (draw_len R n s) (draw_len R n s')"
proof -
  obtain b s1 s1' where r: "sim_roll R (f64_ratio 1 8) s = (b, s1)" "sim_roll R (f64_ratio 1 8) s' = (b, s1')" "tw s1 s1'"
    using twin_rollE [OF assms] by blast
  then show ?thesis using assms twin_range [OF r(3)] by (cases b) (simp_all add: draw_len_def)
qed

lemma twin_draw_delay:
  assumes "tw s s'"
  shows "rel_option (rel_prod (=) tw) (draw_delay R s) (draw_delay R s')"
proof -
  let ?p = "delay_prob (cfg_faults (sim_cfg s))"
  obtain b s1 s1' where r: "sim_roll R ?p s = (b, s1)" "sim_roll R ?p s' = (b, s1')" "tw s1 s1'"
    using twin_rollE [OF assms] by blast
  then show ?thesis using twin_range [OF r(3)] by (cases b) (simp_all add: draw_delay_def Let_def twin_fields [OF assms])
qed

lemma twin_announce_send: "tw s s' \<Longrightarrow> tw (announce_send len dst s) (announce_send len dst s')"
  by (simp add: announce_send_def Let_def twin_fields twin_updates twin_push_trace)

lemma twin_mid_budget: "tw s s' \<Longrightarrow> mid_budget s' = mid_budget s"
  by (simp add: mid_budget_def twin_fields)

lemma twin_deliver_twice:
  assumes "tw s s'"
  shows "rel_option tw
    (Option.bind (deliver_or_block X dst msgs mids d s) (\<lambda>s. if dup
       then deliver_or_block X dst msgs mids d' (s\<lparr>stats := (stats s)\<lparr>ss_duplicates := ss_duplicates (stats s) + 1\<rparr>\<rparr>) else Some s))
    (Option.bind (deliver_or_block X dst msgs mids d s') (\<lambda>s. if dup
       then deliver_or_block X dst msgs mids d' (s\<lparr>stats := (stats s)\<lparr>ss_duplicates := ss_duplicates (stats s) + 1\<rparr>\<rparr>) else Some s))"
proof (rule rel_option_bindI [OF twin_deliver_or_block [OF assms]])
  fix a b assume "tw a b"
  then show "rel_option tw
      (if dup then deliver_or_block X dst msgs mids d' (a\<lparr>stats := (stats a)\<lparr>ss_duplicates := ss_duplicates (stats a) + 1\<rparr>\<rparr>) else Some a)
      (if dup then deliver_or_block X dst msgs mids d' (b\<lparr>stats := (stats b)\<lparr>ss_duplicates := ss_duplicates (stats b) + 1\<rparr>\<rparr>) else Some b)"
    by (simp add: twin_fields twin_deliver_or_block twin_updates)
qed

lemma twin_drawE:
  assumes "rel_option (rel_prod (=) tw) x y"
  obtains "x = None" "y = None" | v a b where "x = Some (v, a)" "y = Some (v, b)" "tw a b"
  using assms that by (cases rule: option.rel_cases) (auto simp: rel_prod_sel)

lemma twin_inject_one:
  assumes "tw s s'"
  shows "rel_option tw (inject_one X R s) (inject_one X R s')"
proof (rule twin_drawE [OF twin_below [OF assms, of R "cfg_actors (sim_cfg s)"]])
  fix dst a b
  assume below: "sim_below R (cfg_actors (sim_cfg s)) s = Some (dst, a)" "sim_below R (cfg_actors (sim_cfg s)) s' = Some (dst, b)"
    and ab: "tw a b"
  show ?thesis
  proof (rule twin_drawE [OF twin_draw_len [OF ab, of R "mid_budget a - next_mid a"]])
    fix len a1 b1
    assume len: "draw_len R (mid_budget a - next_mid a) a = Some (len, a1)" "draw_len R (mid_budget a - next_mid a) b = Some (len, b1)"
      and ab1: "tw a1 b1"
    obtain high a2 b2 where high: "sim_roll R (f64_ratio 1 10) a1 = (high, a2)" "sim_roll R (f64_ratio 1 10) b1 = (high, b2)"
      and ab2: "tw a2 b2" using twin_rollE [OF ab1] by blast
    note ab3 = twin_announce_send [OF ab2, of len dst]
    let ?p = "send_reject_prob (cfg_faults (sim_cfg (announce_send len dst a2)))"
    obtain rejected a4 b4 where rejected: "sim_roll R ?p (announce_send len dst a2) = (rejected, a4)"
      "sim_roll R ?p (announce_send len dst b2) = (rejected, b4)" and ab4: "tw a4 b4" using twin_rollE [OF ab3] by blast
    note facts = inject_one_def twin_fields [OF assms] twin_fields [OF ab] twin_mid_budget [OF ab] twin_fields [OF ab2]
      twin_fields [OF ab3] below len high rejected Let_def
    show ?thesis
    proof (cases rejected)
      case True
      then show ?thesis using twin_reject_all [OF ab4] by (simp add: facts del: One_nat_def)
    next
      case False
      show ?thesis
      proof (rule twin_drawE [OF twin_draw_delay [OF ab4, of R]])
        fix delay a5 b5
        assume delay: "draw_delay R a4 = Some (delay, a5)" "draw_delay R b4 = Some (delay, b5)" and ab5: "tw a5 b5"
        obtain dup a6 b6 where dup: "sim_roll R (duplicate_prob (cfg_faults (sim_cfg a5))) a5 = (dup, a6)"
          "sim_roll R (duplicate_prob (cfg_faults (sim_cfg a5))) b5 = (dup, b6)" and ab6: "tw a6 b6"
          using twin_rollE [OF ab5] by blast
        show ?thesis
          using False twin_deliver_twice [OF ab6] by (simp add: facts delay dup twin_fields [OF ab5] del: One_nat_def cong: if_cong)
      qed (use False in \<open>simp add: facts del: One_nat_def\<close>)
    qed
  qed (simp add: inject_one_def twin_fields [OF assms] twin_fields [OF ab] twin_mid_budget [OF ab] below)
qed (simp add: inject_one_def twin_fields [OF assms])

lemma twin_inject_loop: "tw s s' \<Longrightarrow> rel_option tw (inject_loop X R n s) (inject_loop X R n s')"
proof (induction n arbitrary: s s')
  case (Suc n)
  from twin_inject_one [OF Suc.prems, of R] show ?case
    using Suc by (cases rule: option.rel_cases) (auto simp: twin_mid_budget twin_fields)
qed simp

lemma twin_inject_workload:
  assumes "tw s s'"
  shows "rel_option tw (inject_workload X R s) (inject_workload X R s')"
proof -
  let ?rate = "float_max_zero (injection_rate (sim_cfg s))"
  let ?frac = "float_sub f64 ?rate (float_of_nat f64 (unat (float_as_usize ?rate)))"
  obtain b s1 s1' where r: "sim_roll R ?frac s = (b, s1)" "sim_roll R ?frac s' = (b, s1')" "tw s1 s1'"
    using twin_rollE [OF assms] by blast
  show ?thesis
    using assms r twin_inject_loop [OF assms] twin_inject_loop [OF r(3)]
    by (simp add: inject_workload_def Let_def twin_mid_budget [OF assms] twin_fields [OF assms])
qed

section \<open>Due and parked deliveries\<close>

lemma twin_due_loop: "tw s s' \<Longrightarrow> rel_option tw (deliver_due_loop X n s) (deliver_due_loop X n s')"
proof (induction n arbitrary: s s')
  case (Suc n)
  note f = twin_fields [OF Suc.prems]
  show ?case
  proof (cases "delayed s")
    case (Cons l ls)
    let ?d = "\<lambda>s. s\<lparr>delayed := ls, stats := (stats s)\<lparr>ss_delayed := ss_delayed (stats s) + 1\<rparr>\<rparr>"
    have "tw (?d s) (?d s')" using Suc.prems by (simp add: f twin_updates)
    from twin_attempt_delivery [OF this, of "dp_ord (dl_payload l)" "dp_msgs (dl_payload l)" "dp_mids (dl_payload l)"
        "was_blocked (dl_payload l)"]
    show ?thesis
      by (cases rule: option.rel_cases) (use Suc Cons f in \<open>auto simp: Let_def\<close>)
  qed (use Suc.prems f in simp)
qed simp

lemma twin_deliver_due: "tw s s' \<Longrightarrow> rel_option tw (deliver_due X s) (deliver_due X s')"
  by (simp add: deliver_due_def twin_fields twin_due_loop)

lemma twin_retry_loop: "tw s s' \<Longrightarrow> rel_option tw (retry_loop X n s) (retry_loop X n s')"
proof (induction n arbitrary: s s')
  case (Suc n)
  note f = twin_fields [OF Suc.prems]
  show ?case
  proof (cases "blocked s")
    case (Cons p ps)
    from twin_attempt_delivery [OF twin_updates(11) [OF Suc.prems, of ps], of "dp_ord p" "dp_msgs p" "dp_mids p" "was_blocked p"]
    show ?thesis by (cases rule: option.rel_cases) (use Suc Cons f in auto)
  qed (use f in simp)
qed simp

lemma twin_retry_blocked: "tw s s' \<Longrightarrow> rel_option tw (retry_blocked X s) (retry_blocked X s')"
  by (simp add: retry_blocked_def twin_fields twin_retry_loop)

section \<open>Processing and crashes\<close>

lemma twin_discard_task: "tw s s' \<Longrightarrow> tw (discard_task t s) (discard_task t s')"
  by (erule twinE) (simp add: discard_task_def fold_mark_lost push_trace_def Let_def twin_def split: list.split)

lemma twin_observe: "tw s s' \<Longrightarrow> rel_option tw (observe recs s) (observe recs s')"
proof (induction recs arbitrary: s s')
  case (Cons x xs)
  have "rel_option tw (observe_one x s) (observe_one x s')"
    unfolding observe_one_def using Cons.prems
    by (cases "rec_tag x") (auto simp: twin_fields Let_def intro!: rel_option_bind_same twin_push_trace twin_updates)
  then show ?case by (cases rule: option.rel_cases) (use Cons.IH in auto)
qed simp

lemma twin_lose_unprocessed: "tw s s' \<Longrightarrow> rel_option tw (lose_unprocessed mids s) (lose_unprocessed mids s')"
proof (induction mids arbitrary: s s')
  case (Cons mid mids)
  then show ?case by (cases "index (mid_times s) mid") (simp_all add: twin_fields twin_mark_lost)
qed simp

lemma twin_settle_crash:
  assumes "tw s s'"
  shows "rel_option tw (settle_crash X ord mids s) (settle_crash X ord mids s')"
  unfolding settle_crash_def twin_fields [OF assms] twin_reads [OF assms] Let_def
  by (intro rel_option_bind_same rel_option_bindI [OF twin_lose_unprocessed] twin_updates assms)
     (simp add: twin_push_trace)

lemma twin_run_pipeline:
  assumes "tw s s'"
  shows "rel_option (rel_prod (=) tw) (run_pipeline X E c t s) (run_pipeline X E' c t s')"
proof -
  from alike_sim_process_task [OF twin_view [OF assms], of "Some SimExecutor" "unix_clock E (readings s)" 1 "st_task t"
      "arm_crash c (sim_exec s)" "unix_clock E' (readings s)"]
  show ?thesis
  proof (cases rule: option.rel_cases)
    case (Some a b)
    obtain n r r' x where ab: "a = (n, r, x)" "b = (n, r', x)" "alike r r'"
      using Some(3) by (cases a; cases b) auto
    obtain recs x' where d: "drain_records x = (recs, x')" by fastforce
    have "tw (s\<lparr>sim_registry := r, readings := k, sim_exec := e\<rparr>) (s'\<lparr>sim_registry := r', readings := k, sim_exec := e\<rparr>)" for k e
      by (intro twin_updates(14,15) twin_updates(19) assms ab(3))
    then show ?thesis
      using Some(1,2) ab d by (simp add: run_pipeline_def twin_fields [OF assms] Let_def del: One_nat_def)
  qed (simp add: run_pipeline_def twin_fields [OF assms] del: One_nat_def)
qed

lemma twin_sim_kill:
  assumes "tw s s'"
  shows "rel_option tw (sim_kill X ord s) (sim_kill X ord s')"
  unfolding sim_kill_def twin_fields [OF assms] twin_reads [OF assms] Let_def
proof (intro rel_option_bind_same rel_option_bindI [OF alike_clear_mailbox [OF twin_view [OF assms]]])
  fix i r r' led
  assume "alike r r'"
  then show "rel_option tw
     (Some (push_trace (OpKill ord (case get_mailbox X (sim_registry s) i of None \<Rightarrow> 0 | Some mb \<Rightarrow> Mailbox_len mb))
        (s\<lparr>ledger := (ledger s)[unat ord := led\<lparr>led_dropped := led_dropped led +
             (case get_mailbox X (sim_registry s) i of None \<Rightarrow> 0 | Some mb \<Rightarrow> Mailbox_len mb), led_alive := False\<rparr>],
           stats := (stats s)\<lparr>ss_dropped := ss_dropped (stats s) +
             (case get_mailbox X (sim_registry s) i of None \<Rightarrow> 0 | Some mb \<Rightarrow> Mailbox_len mb), ss_escalated := ss_escalated (stats s) + 1\<rparr>,
           sim_registry := snd (unregister X i r), ordinals := hm_remove (ordinals s) (actor_key i)\<rparr>)))
     (Some (push_trace (OpKill ord (case get_mailbox X (sim_registry s) i of None \<Rightarrow> 0 | Some mb \<Rightarrow> Mailbox_len mb))
        (s'\<lparr>ledger := (ledger s)[unat ord := led\<lparr>led_dropped := led_dropped led +
             (case get_mailbox X (sim_registry s) i of None \<Rightarrow> 0 | Some mb \<Rightarrow> Mailbox_len mb), led_alive := False\<rparr>],
           stats := (stats s)\<lparr>ss_dropped := ss_dropped (stats s) +
             (case get_mailbox X (sim_registry s) i of None \<Rightarrow> 0 | Some mb \<Rightarrow> Mailbox_len mb), ss_escalated := ss_escalated (stats s) + 1\<rparr>,
           sim_registry := snd (unregister X i r'), ordinals := hm_remove (ordinals s) (actor_key i)\<rparr>)))"
    by (simp add: twin_push_trace twin_updates assms alike_unregister)
qed

text \<open>Under a clock that stays within the hour, the trace tells what the supervisor will decide.\<close>

lemma sup_ok_decides:
  assumes ok: "sup_ok E m n trc t i" and hc: "hour_clock E" and ord: "unat ord < n"
  shows "is_ok (fst (tree_handle_child_exit (exit_envs E j) i (supervisor_name ord) (ExitError msg) t))
    \<longleftrightarrow> m = 0 \<or> granted trc ord < unat m"
proof -
  obtain sv where sv: "hm_get (supervisors t) i = Some sv" "root_ok E m n trc sv" using ok by (auto simp: sup_ok_def)
  obtain c where c: "hm_get (children sv) (supervisor_name ord) = Some c" "restart_policy (spec c) = Permanent"
    using sv(2) ord unfolding root_ok_def by blast
  have st: "strategy sv = OneForOne m (from_secs 3600)" "escalation_action sv = Escalate"
    using sv(2) by (simp_all add: root_ok_def)
  show ?thesis
    using sv(1) c st restart_allowed [OF sv(2) hc, of j ord]
    by (simp add: tree_handle_child_exit_def on_supervisor_def handle_child_exit_def should_restart_def
        restart_one_for_one_def handle_max_restarts_exceeded_def Let_def)
qed

lemma twin_respawn:
  assumes "tw s s'"
  shows "rel_option tw (respawn X E ord s) (respawn X E' ord s')"
proof (cases "index (ledger s) ord")
  case (Some led)
  note f = twin_fields [OF assms]
  show ?thesis
  proof (cases "index (actors s) ord")
    case (Some old)
    let ?inc = "led_incarnation led + 1"
    let ?r = "snd (unregister X old (sim_registry s))" and ?r' = "snd (unregister X old (sim_registry s'))"
    have r: "alike ?r ?r'" by (rule alike_unregister [OF twin_view [OF assms]])
    obtain res rr where reg: "register_named X (unix_clock E (readings s)) (sim_actor_id ord ?inc) (Some (actor_name ord ?inc)) ?r = (res, rr)"
      by fastforce
    obtain res' rr' where reg': "register_named X (unix_clock E' (readings s)) (sim_actor_id ord ?inc) (Some (actor_name ord ?inc)) ?r' = (res', rr')"
      by fastforce
    have ok: "is_ok res = is_ok res'" "alike rr rr'"
      using alike_register [OF r, of "unix_clock E (readings s)" "sim_actor_id ord ?inc" "Some (actor_name ord ?inc)" "unix_clock E' (readings s)"]
      unfolding reg reg' by simp_all
    have "tw (push_trace x (s\<lparr>ledger := l, tree := t, sim_registry := rr, readings := k, actors := a, ordinals := o1\<rparr>))
        (push_trace x (s'\<lparr>ledger := l, tree := t', sim_registry := rr', readings := k, actors := a, ordinals := o1\<rparr>))" for x l o1 t t' k a
      by (intro twin_push_trace twin_updates(1-18) twin_updates(19) assms ok(2))
    note d = twin_deliver_or_block [OF this]
    show ?thesis
      using ok(1) d \<open>index (ledger s) ord = Some led\<close> Some reg reg'
      by (cases res; cases res') (simp_all add: respawn_def f Let_def is_ok_def)
  qed (use Some f in \<open>simp add: respawn_def\<close>)
qed (simp add: respawn_def twin_fields [OF assms])

lemma twin_handle_restart:
  assumes s: "tw s s'" and hc: "hour_clock E" "hour_clock E'" and ord: "unat ord < n"
    and ok: "sup_ok E m n (trace s) (tree s) (sim_root s)" "sup_ok E' m n (trace s') (tree s') (sim_root s')"
  shows "rel_option tw (sim_handle_restart X E ord s) (sim_handle_restart X E' ord s')"
proof -
  note f = twin_fields [OF s]
  obtain res t where h: "tree_handle_child_exit (exit_envs E (readings s)) (sim_root s) (supervisor_name ord)
      (ExitError SIM_CRASH_MESSAGE) (tree s) = (res, t)" by fastforce
  obtain res' t' where h': "tree_handle_child_exit (exit_envs E' (readings s)) (sim_root s') (supervisor_name ord)
      (ExitError SIM_CRASH_MESSAGE) (tree s') = (res', t')" by fastforce
  have same: "is_ok res = is_ok res'"
    using sup_ok_decides [OF ok(1) hc(1) ord, of "readings s" SIM_CRASH_MESSAGE]
      sup_ok_decides [OF ok(2) hc(2) ord, of "readings s" SIM_CRASH_MESSAGE] h h' f by simp
  have "tw (push_trace x (s\<lparr>tree := t, readings := k, stats := st\<rparr>)) (push_trace x (s'\<lparr>tree := t', readings := k, stats := st\<rparr>))"
    "tw (push_trace x (s\<lparr>tree := t, readings := k\<rparr>)) (push_trace x (s'\<lparr>tree := t', readings := k\<rparr>))" for x k st
    by (intro twin_push_trace twin_updates(1-18) s)+
  note next_step = twin_respawn [OF this(1)] twin_sim_kill [OF this(2)]
  show ?thesis
    using same next_step h h' by (cases res; cases res') (simp_all add: sim_handle_restart_def f Let_def is_ok_def)
qed

lemma crash_point:
  assumes ok: "ok E (pending_flights s) (add_mset t (tasks s)) s"
    and e: "dm_get X (by_id (sim_registry s)) (task_actor (st_task t)) = Some e"
    and app: "0 < app_len t" and rough: "\<not> gentle (cfg_faults (sim_cfg s))"
  obtains s1 s2 where "run_pipeline X E True t s = Some ([], s1)"
    "settle_crash X (st_ord t) (st_mids t) (s1\<lparr>stats := (stats s1)\<lparr>ss_crashed := ss_crashed (stats s1) + 1\<rparr>\<rparr>) = Some s2"
    "sup_ok E (cfg_max_restarts (sim_cfg s)) (length (ledger s)) (trace s2) (tree s2) (sim_root s2)"
proof -
  obtain r' e' where p: "run_pipeline X E True t s = Some ([], s\<lparr>sim_registry := r', readings := readings s + 1\<rparr>)"
      "reg_inv r'" "upd (task_actor (st_task t)) (\<lambda>_. e') (sim_registry s) r'" "slots items e' = 0"
    using run_pipeline_crashed [OF ok e] by blast
  let ?st = "(stats s)\<lparr>ss_crashed := ss_crashed (stats s) + 1\<rparr>"
  obtain s2 where s2: "settle_crash X (st_ord t) (st_mids t) (s\<lparr>sim_registry := r', readings := readings s + 1, stats := ?st\<rparr>) = Some s2"
      "crashed E (pending_flights s) (tasks s) (st_ord t) s2" "steady s s2"
    using settle_crash_ok [OF ok e p(2-4) app rough] by blast
  then show ?thesis using p(1) that by (simp add: crashed_ok_def steady_def same_world_def)
qed

lemma twin_process_crash:
  assumes s: "tw s s'" and ok: "ok E (pending_flights s) (add_mset t (tasks s)) s" "ok E' (pending_flights s') (add_mset t (tasks s')) s'"
    and hc: "hour_clock E" "hour_clock E'" and app: "0 < app_len t" and rough: "\<not> gentle (cfg_faults (sim_cfg s))"
    and e: "dm_get X (by_id (sim_registry s)) (task_actor (st_task t)) \<noteq> None"
  defines "rest \<equiv> \<lambda>E (recs, s). Option.bind (observe recs s) (\<lambda>s. Option.bind
      (settle_crash X (st_ord t) (st_mids t) (s\<lparr>stats := (stats s)\<lparr>ss_crashed := ss_crashed (stats s) + 1\<rparr>\<rparr>)) (sim_handle_restart X E (st_ord t)))"
  shows "rel_option tw (Option.bind (run_pipeline X E True t s) (rest E)) (Option.bind (run_pipeline X E' True t s') (rest E'))"
proof -
  obtain e where e: "dm_get X (by_id (sim_registry s)) (task_actor (st_task t)) = Some e" using e by blast
  obtain e' where e': "dm_get X (by_id (sim_registry s')) (task_actor (st_task t)) = Some e'"
    using e by (rule_tac same_view_get [OF twin_view [OF s], of "task_actor (st_task t)"]) auto
  have rough': "\<not> gentle (cfg_faults (sim_cfg s'))" using rough twin_fields [OF s] by simp
  obtain a1 a2 where a: "run_pipeline X E True t s = Some ([], a1)"
    "settle_crash X (st_ord t) (st_mids t) (a1\<lparr>stats := (stats a1)\<lparr>ss_crashed := ss_crashed (stats a1) + 1\<rparr>\<rparr>) = Some a2"
    "sup_ok E (cfg_max_restarts (sim_cfg s)) (length (ledger s)) (trace a2) (tree a2) (sim_root a2)"
    by (rule crash_point [OF ok(1) e app rough])
  obtain b1 b2 where b: "run_pipeline X E' True t s' = Some ([], b1)"
    "settle_crash X (st_ord t) (st_mids t) (b1\<lparr>stats := (stats b1)\<lparr>ss_crashed := ss_crashed (stats b1) + 1\<rparr>\<rparr>) = Some b2"
    "sup_ok E' (cfg_max_restarts (sim_cfg s)) (length (ledger s)) (trace b2) (tree b2) (sim_root b2)"
    using crash_point [OF ok(2) e' app rough'] unfolding twin_fields [OF s] by blast
  have ab1: "tw a1 b1" using twin_run_pipeline [OF s, of E True t E'] a(1) b(1) by simp
  have "tw (a1\<lparr>stats := (stats a1)\<lparr>ss_crashed := ss_crashed (stats a1) + 1\<rparr>\<rparr>) (b1\<lparr>stats := (stats b1)\<lparr>ss_crashed := ss_crashed (stats b1) + 1\<rparr>\<rparr>)"
    using ab1 by (simp add: twin_fields [OF ab1] twin_updates)
  then have "tw a2 b2" using twin_settle_crash a(2) b(2) by (metis option.rel_inject(2))
  moreover have "unat (st_ord t) < length (ledger s)" by (rule task_parts(1) [OF ok(1)])
  ultimately show ?thesis
    using twin_handle_restart [OF _ hc _ a(3) b(3)] a(1,2) b(1,2) by (simp add: rest_def)
qed

lemma ok_counted:
  fixes r :: 'r
  assumes "ok E (pending_flights s) (add_mset t (tasks s)) s"
  defines "s1 \<equiv> s\<lparr>ledger := (ledger s)[unat (st_ord t) := (ledger s ! unat (st_ord t))
    \<lparr>led_queued := led_queued (ledger s ! unat (st_ord t)) - of_nat (app_len t)\<rparr>], rng := r\<rparr>"
  shows "ok E (pending_flights s1) (add_mset t (tasks s1)) s1"
proof -
  have "ok E P T (a\<lparr>rng := r\<rparr>) = ok E P T a" for P T a by (simp add: sim_ok_def)
  then show ?thesis using ok_queued [OF assms(1) task_parts(1) [OF assms(1)]] by (simp add: s1_def pending_flights_def)
qed

lemma twin_process_chosen:
  assumes s: "tw s s'" and ok: "ok E (pending_flights s) (add_mset t (tasks s)) s" "ok E' (pending_flights s') (add_mset t (tasks s')) s'"
    and hc: "hour_clock E" "hour_clock E'"
  shows "rel_option tw (process_chosen X R E t s) (process_chosen X R E' t s')"
proof -
  let ?ord = "st_ord t" and ?i = "task_actor (st_task t)"
  let ?led = "(ledger s)[unat ?ord := (ledger s ! unat ?ord)\<lparr>led_queued := led_queued (ledger s ! unat ?ord) - of_nat (app_len t)\<rparr>]"
  let ?a = "s\<lparr>ledger := ?led\<rparr>" and ?b = "s'\<lparr>ledger := ?led\<rparr>"
  note f = twin_fields [OF s] and ix = task_parts(2) [OF ok(1)]
  have ab: "tw ?a ?b" by (rule twin_updates(3) [OF s])
  show ?thesis
  proof (cases "get_state X (sim_registry s) ?i \<in> {Some Creating, Some Running}")
    case False
    then show ?thesis
      using ix twin_discard_task [OF ab] by (simp add: process_chosen_def f Let_def twin_reads(1) [OF s])
  next
    case True
    then have e: "dm_get X (by_id (sim_registry s)) ?i \<noteq> None" by (auto simp: get_state_def)
    let ?p = "crash_prob (cfg_faults (sim_cfg s))"
    define x where "x = (if 0 < app_len t then roll R ?p (rng s) else (False, rng s))"
    define c r where cr: "c = fst x" "r = snd x"
    have roll: "(if 0 < app_len t then sim_roll R ?p ?a else (False, ?a)) = (c, ?a\<lparr>rng := r\<rparr>)"
      "(if 0 < app_len t then sim_roll R ?p ?b else (False, ?b)) = (c, ?b\<lparr>rng := r\<rparr>)"
      using f by (simp_all add: cr x_def sim_roll_def case_prod_beta)
    have c: "c \<longrightarrow> 0 < app_len t \<and> \<not> float_le_zero ?p"
      by (rule sim_roll_if [of "0 < app_len t" R ?p ?a]) (simp add: roll(1))
    let ?a1 = "?a\<lparr>rng := r\<rparr>" and ?b1 = "?b\<lparr>rng := r\<rparr>"
    have ab1: "tw ?a1 ?b1" by (rule twin_updates(1) [OF ab])
    have ok1: "ok E (pending_flights ?a1) (add_mset t (tasks ?a1)) ?a1" "ok E' (pending_flights ?b1) (add_mset t (tasks ?b1)) ?b1"
      using ok_counted [OF ok(1), of r] ok_counted [OF ok(2), of r] by (simp_all add: f)
    let ?rest = "\<lambda>E (recs, s). Option.bind (observe recs s) (\<lambda>s. if c then Option.bind
      (settle_crash X ?ord (st_mids t) (s\<lparr>stats := (stats s)\<lparr>ss_crashed := ss_crashed (stats s) + 1\<rparr>\<rparr>)) (sim_handle_restart X E ?ord)
      else Some s)"
    have pc: "process_chosen X R E t s = Option.bind (run_pipeline X E c t ?a1) (?rest E)"
      "process_chosen X R E' t s' = Option.bind (run_pipeline X E' c t ?b1) (?rest E')"
      using True ix roll twin_reads(1) [OF s, of ?i] f by (auto simp: process_chosen_def Let_def)
    show ?thesis
    proof (cases c)
      case True
      then have "0 < app_len t" "\<not> gentle (cfg_faults (sim_cfg ?a1))" using c by (simp_all add: gentle_def)
      then show ?thesis using twin_process_crash [OF ab1 ok1 hc] e True unfolding pc by simp
    next
      case False
      have "rel_option tw (?rest E x) (?rest E' y)" if "rel_prod (=) tw x y" for x y
        using that False twin_observe by (cases x; cases y) simp
      then show ?thesis unfolding pc by (rule rel_option_bindI [OF twin_run_pipeline [OF ab1]])
    qed
  qed
qed

section \<open>Rounds, runs and construction\<close>

lemma twin_process_loop:
  assumes "tw s s'" and "world_inv E {#} s" and "world_inv E' {#} s'" and "hour_clock E" and "hour_clock E'"
  shows "rel_option tw (process_loop X R E n s) (process_loop X R E' n s')"
  using assms(1-3)
proof (induction n arbitrary: s s')
  case (Suc n)
  note f = twin_fields [OF Suc.prems(1)]
  have "size (tasks s) \<le> 2 ^ 56" using Suc.prems(2) few_tasks unfolding sim_inv_def sim_ok_def by blast
  then have few: "size (tasks s) \<le> 2 ^ 56" "size (tasks s) < 2 ^ 64" by simp_all
  from pick_cases [OF few(2), of R "cfg_policy (sim_cfg s)" "tick s" "rng s"] obtain res rs r where
    p: "pick R (cfg_policy (sim_cfg s)) (tick s) (ready s, rng s) = Some (res, rs, r)"
      "case res of None \<Rightarrow> tasks s = {#} \<and> rs = ready s | Some t \<Rightarrow> tasks s = add_mset t (ready_tasks rs)"
    by blast
  let ?d = "\<lambda>s. s\<lparr>ready := rs, rng := r\<rparr>"
  have ab: "tw (?d s) (?d s')" by (intro twin_updates(1,2) Suc.prems(1))
  show ?case
  proof (cases res)
    case None
    then show ?thesis using p(1) ab f by simp
  next
    case (Some t)
    have T: "tasks s = add_mset t (ready_tasks rs)" using p(2) Some by simp
    have ok: "ok E (pending_flights (?d s)) (add_mset t (tasks (?d s))) (?d s)"
      "ok E' (pending_flights (?d s')) (add_mset t (tasks (?d s'))) (?d s')"
      using Suc.prems(2,3) T f by (simp_all add: sim_inv_def sim_ok_def pending_flights_def)
    have "\<forall>t\<in>#tasks s. app_len t \<le> 3"
      using Suc.prems(2) shape_okD(2,4) unfolding sim_inv_def sim_ok_def tasks_ok_def app_len_def by (meson le_trans)
    then have q: "queued_ok (ready (?d s))" "queued_ok (ready (?d s'))"
      using queued_ok_pick [OF _ p(1) [unfolded Some] T few(1)] Suc.prems(2) by (simp_all add: sim_inv_def)
    obtain a where a: "process_chosen X R E t (?d s) = Some a" "world_inv E {#} a"
      using process_chosen_inv [OF ok(1) q(1) assms(4)] by blast
    obtain b where b: "process_chosen X R E' t (?d s') = Some b" "world_inv E' {#} b"
      using process_chosen_inv [OF ok(2) q(2) assms(5)] by blast
    have "tw a b" using twin_process_chosen [OF ab ok assms(4,5), of R] a(1) b(1) by simp
    then show ?thesis using Suc.IH a b p(1) Some f by simp
  qed
qed simp

lemma twin_is_quiescent: "tw s s' \<Longrightarrow> is_quiescent X s' = is_quiescent X s"
  by (simp add: is_quiescent_def twin_fields twin_mid_budget twin_reads)

lemma twin_round:
  assumes s: "tw s s'" and inv: "world_inv E {#} s" "world_inv E' {#} s'" and cfg: "config_ready s"
    and hc: "hour_clock E" "hour_clock E'"
  obtains a b where "sim_round X R E s = Some a" "sim_round X R E' s' = Some b" "tw a b"
    "world_inv E {#} a" "world_inv E' {#} b" "config_ready a"
proof -
  note f = twin_fields [OF s]
  have cfg': "config_ready s'" using cfg f by (simp add: config_ready_def)
  obtain a where a: "sim_round X R E s = Some a" "world_inv E {#} a" "same_setup s a"
    using sim_round_inv [OF inv(1) cfg hc(1), of R] by blast
  obtain b where b: "sim_round X R E' s' = Some b" "world_inv E' {#} b"
    using sim_round_inv [OF inv(2) cfg' hc(2), of R] by blast
  let ?d = "\<lambda>s. s\<lparr>tick := tick s + 1, clock := snd (clock_advance TICK (clock s))\<rparr>"
  have d: "tw (?d s) (?d s')" using s by (simp add: f twin_updates)
  have d_inv: "world_inv E {#} (?d s)" "world_inv E' {#} (?d s')"
    using inv by (simp_all add: sim_inv_def sim_ok_def pending_flights_def)
  have d_cfg: "config_ready (?d s)" "config_ready (?d s')" using cfg cfg' by (simp_all add: config_ready_def)
  obtain a1 b1 where 1: "inject_workload X R (?d s) = Some a1" "inject_workload X R (?d s') = Some b1" "tw a1 b1"
    "world_inv E {#} a1" "world_inv E' {#} b1"
    using inject_workload_inv [OF d_inv(1) d_cfg(1), of R] inject_workload_inv [OF d_inv(2) d_cfg(2), of R]
      twin_inject_workload [OF d, of R] by auto
  obtain a2 b2 where 2: "deliver_due X a1 = Some a2" "deliver_due X b1 = Some b2" "tw a2 b2"
    "world_inv E {#} a2" "world_inv E' {#} b2"
    using deliver_due_inv [OF 1(4)] deliver_due_inv [OF 1(5)] twin_deliver_due [OF 1(3)]
    unfolding deliver_due_def by (metis option.rel_inject(2))
  obtain a3 b3 where 3: "retry_blocked X a2 = Some a3" "retry_blocked X b2 = Some b3" "tw a3 b3"
    "world_inv E {#} a3" "world_inv E' {#} b3"
    using retry_blocked_inv [OF 2(4)] retry_blocked_inv [OF 2(5)] twin_retry_blocked [OF 2(3)]
    by (metis option.rel_inject(2))
  have "rel_option tw (process_loop X R E (unat (processing_per_tick (sim_cfg a3))) a3)
      (process_loop X R E' (unat (processing_per_tick (sim_cfg b3))) b3)"
    using twin_process_loop [OF 3(3-5) hc] by (simp add: twin_fields [OF 3(3)])
  then have "tw a b"
    using a(1) b(1) 1(1,2) 2(1,2) 3(1,2)
    by (cases rule: option.rel_cases) (auto simp: sim_round_def split: if_splits)
  moreover have "config_ready a" using cfg a(3) by (simp add: config_ready_def)
  ultimately show ?thesis using a b that by blast
qed

lemma twin_rounds:
  assumes "tw s s'" and "world_inv E {#} s" and "world_inv E' {#} s'" and "config_ready s" and "hour_clock E" and "hour_clock E'"
  shows "\<exists>m a b. run_rounds X R E n k s = Some (m, a) \<and> run_rounds X R E' n k s' = Some (m, b) \<and> tw a b
    \<and> world_inv E {#} a \<and> world_inv E' {#} b"
  using assms(1-4)
proof (induction n arbitrary: s s' k)
  case (Suc n)
  show ?case
  proof (cases "is_quiescent X s")
    case False
    obtain a b where "sim_round X R E s = Some a" "sim_round X R E' s' = Some b" "tw a b"
        "world_inv E {#} a" "world_inv E' {#} b" "config_ready a"
      by (rule twin_round [OF Suc.prems assms(5,6)])
    then show ?thesis using Suc.IH [of a b "k + 1"] False twin_is_quiescent [OF Suc.prems(1)] by simp
  qed (use Suc.prems twin_is_quiescent [OF Suc.prems(1)] in simp)
qed simp

lemma twin_run:
  assumes "tw s s'" and "world_inv E {#} s" and "world_inv E' {#} s'" and "config_ready s" and "hour_clock E" and "hour_clock E'"
  shows "\<exists>out a b. sim_run X R E steps s = Some (out, a) \<and> sim_run X R E' steps s' = Some (out, b) \<and> tw a b"
proof -
  obtain m a b where r: "run_rounds X R E (unat steps) 0 s = Some (m, a)" "run_rounds X R E' (unat steps) 0 s' = Some (m, b)"
    "tw a b" "world_inv E {#} a" "world_inv E' {#} b"
    using twin_rounds [OF assms, of R "unat steps" 0] by blast
  have "is_quiescent X a \<longrightarrow> audit_identities a" "is_quiescent X b \<longrightarrow> audit_identities b"
    using audit_identities_pass [OF r(4)] audit_identities_pass [OF r(5)] by blast+
  then show ?thesis
    using r by (simp add: sim_run_def Let_def trace_hash_def twin_is_quiescent [OF r(3)] twin_fields [OF r(3)])
qed

lemma twin_spawn_actor:
  assumes s: "tw s s'" and a: "spawn_actor X E ord s = Some a" and b: "spawn_actor X E' ord s' = Some b"
  shows "tw a b"
proof -
  note f = twin_fields [OF s]
  let ?i = "sim_actor_id ord 0"
  have r: "alike (snd (register_named X (unix_clock E (readings s)) ?i nm (sim_registry s)))
      (snd (register_named X (unix_clock E' (readings s)) ?i nm (sim_registry s')))" for nm
    by (rule alike_register(2) [OF twin_view [OF s]])
  have "tw (push_trace x (s\<lparr>sim_registry := snd (register_named X (unix_clock E (readings s)) ?i nm (sim_registry s)), tree := t,
        readings := k, actors := ac, ordinals := o1, ledger := l\<rparr>))
      (push_trace x (s'\<lparr>sim_registry := snd (register_named X (unix_clock E' (readings s)) ?i nm (sim_registry s')), tree := t',
        readings := k, actors := ac, ordinals := o1, ledger := l\<rparr>))" for x nm t t' k ac o1 l
    by (intro twin_push_trace twin_updates(1-18) twin_updates(19) s r)
  note d = twin_deliver_or_block [OF this, of ord "[start_message]" "[]" 0]
  show ?thesis
    using a b d
    by (auto simp: spawn_actor_def f Let_def split: sum.splits prod.splits)
       (metis option.rel_inject(2) snd_conv)
qed

lemma twin_empty_world: "tw (empty_world X R E seed cfg) (empty_world X R E' seed cfg)"
  by (simp add: twin_def empty_world_def with_mailbox_config_def same_view_def invar_new Let_def)

lemma twin_spawn_all:
  assumes "config_ok (cfg_mailbox cfg)" and "unat (cfg_messages cfg) < 2 ^ 20" and "n \<le> 2 ^ 32"
    and "spawn_all X E n (empty_world X R E seed cfg) = Some a" and "spawn_all X E' n (empty_world X R E' seed cfg) = Some b"
  shows "tw a b"
  using assms(3-5)
proof (induction n arbitrary: a b)
  case 0
  then show ?case using twin_empty_world by auto
next
  case (Suc n)
  then obtain a0 b0 where "spawn_all X E n (empty_world X R E seed cfg) = Some a0" "spawn_actor X E (of_nat n) a0 = Some a"
    "spawn_all X E' n (empty_world X R E' seed cfg) = Some b0" "spawn_actor X E' (of_nat n) b0 = Some b"
    by (auto split: option.splits)
  then show ?case using twin_spawn_actor Suc.IH Suc.prems(1) by (metis Suc_leD)
qed

lemma sim_runs_alike:
  assumes "sim_config_ok cfg" and "hour_clock E" and "hour_clock E'"
  shows "\<exists>s s' out a b. with_config X R E seed cfg = Some s \<and> with_config X R E' seed cfg = Some s'
    \<and> sim_run X R E steps s = Some (out, a) \<and> sim_run X R E' steps s' = Some (out, b) \<and> tw a b"
proof -
  obtain s where s: "with_config X R E seed cfg = Some s" "world_inv E {#} s" "config_ready s"
    using with_config_inv [OF assms(1)] by blast
  obtain s' where s': "with_config X R E' seed cfg = Some s'" "world_inv E' {#} s'"
    using with_config_inv [OF assms(1)] by blast
  have "tw s s'"
    using twin_spawn_all [of cfg "unat (cfg_actors cfg)" E R seed s E' s'] s(1) s'(1) assms(1)
    by (simp add: with_config_def sim_config_ok_def)
  from twin_run [OF this s(2) s'(2) s(3) assms(2,3), of R steps] show ?thesis using s(1) s'(1) by blast
qed

end

section \<open>Properties\<close>

text \<open>
  C4: a run is a function of its seed and configuration. Two simulations with the same
  seed and configuration, under whatever clocks and identity sources, both run to the
  same outcome (the same statistics, the same number of rounds, the same trace hash) with
  the same trace, the same ledger and the same accounting of every message. The readings
  of the monotonic clock have to lie within the restart window of one hour in each run.
\<close>

theorem sim_deterministic:
  assumes "registry_env X items cap permits idle waiting dinv" and "sim_config_ok cfg" and "hour_clock E" and "hour_clock E'"
  shows "\<exists>s s' out a b. with_config X R E seed cfg = Some s \<and> with_config X R E' seed cfg = Some s'
    \<and> sim_run X R E steps s = Some (out, a) \<and> sim_run X R E' steps s' = Some (out, b)
    \<and> trace b = trace a \<and> ledger b = ledger a \<and> mid_times b = mid_times a \<and> mid_lost b = mid_lost a"
proof -
  obtain s s' out a b where r: "with_config X R E seed cfg = Some s" "with_config X R E' seed cfg = Some s'"
    "sim_run X R E steps s = Some (out, a)" "sim_run X R E' steps s' = Some (out, b)" "twin X dinv a b"
    using registry_env.sim_runs_alike [OF assms] by blast
  then show ?thesis using twin_fields [OF r(5)] by blast
qed

definition sim_other_env :: sim_env where
  "sim_other_env =
     \<lparr>unix_clock = (\<lambda>n. 1000 + 3 * int n),
      exit_envs = (\<lambda>n. \<lparr>now_check = n mod 500, now_record = n mod 500 + 7, minted = (\<lambda>_. ActorId 9)\<rparr>),
      fresh_ids = (\<lambda>n. ActorId (of_nat (77 + n)))\<rparr>"

lemma sim_other_hour: "hour_clock sim_other_env"
proof -
  have "n mod 500 - m < 3600000000000 \<and> n mod 500 + 7 - m < 3600000000000" for n m :: nat
    using mod_less_divisor [of 500 n] by linarith
  then show ?thesis
    by (auto simp: hour_clock_def sim_other_env_def duration_since_def from_secs_def)
qed

theorem sim_deterministic_witness:
  "\<exists>s s' out a b. with_config standin_rg counter_rng sim_demo_env 7 demo_chaos = Some s
    \<and> with_config standin_rg counter_rng sim_other_env 7 demo_chaos = Some s'
    \<and> sim_run standin_rg counter_rng sim_demo_env 1000 s = Some (out, a)
    \<and> sim_run standin_rg counter_rng sim_other_env 1000 s' = Some (out, b) \<and> trace b = trace a"
proof -
  from sim_deterministic [OF standin_rg.registry_env_axioms demo_configs_ok(2) sim_demo_hour sim_other_hour, of counter_rng 7 1000]
  show ?thesis by blast
qed

end
