(* ===== verification/Zero_Copy.thy ===== *)
theory Zero_Copy
  imports Sim_Base
begin

text \<open>
  The zero-copy message path of \<open>src/zero_copy/rkyv_impl.rs\<close>. The archive format is the
  crate \<open>rkyv\<close>, a parameter of the model. What \<open>rkyv\<close> can read depends on where the bytes
  lie in memory, so a buffer is an address and its bytes, and the address that the
  allocator chooses for a new buffer is an argument.
\<close>

section \<open>Buffers and the archive format\<close>

record byte_buf =
  buf_addr :: nat
  buf_bytes :: "u8 list"

text \<open>\<open>rkyv::to_bytes\<close>, \<open>rkyv::from_bytes\<close> and \<open>rkyv::access\<close> for one type; an error is its text.\<close>

record ('t, 'a) rkyv =
  rk_to_bytes :: "'t \<Rightarrow> rust_string + u8 list"
  rk_from_bytes :: "byte_buf \<Rightarrow> rust_string + 't"
  rk_access :: "byte_buf \<Rightarrow> rust_string + 'a"

definition map_err :: "string \<Rightarrow> rust_string + 'x \<Rightarrow> 'x result" where
  "map_err what r = (case r of Inl e \<Rightarrow> Err (Serialization (Str what # e)) | Inr x \<Rightarrow> Ok x)"

text \<open>The serialized bytes are copied out of the aligned buffer into a new \<open>Vec<u8>\<close>.\<close>

definition encode_rkyv :: "('t, 'a) rkyv \<Rightarrow> nat \<Rightarrow> 't \<Rightarrow> byte_buf result" where
  "encode_rkyv K addr v =
     map_err ''rkyv encode failed: '' (map_sum id (\<lambda>bs. \<lparr>buf_addr = addr, buf_bytes = bs\<rparr>) (rk_to_bytes K v))"

definition decode_rkyv :: "('t, 'a) rkyv \<Rightarrow> byte_buf \<Rightarrow> 't result" where
  "decode_rkyv K b = map_err ''rkyv decode failed: '' (rk_from_bytes K b)"

definition decode_rkyv_ref :: "('t, 'a) rkyv \<Rightarrow> byte_buf \<Rightarrow> 'a result" where
  "decode_rkyv_ref K b = map_err ''rkyv zero-copy access failed: '' (rk_access K b)"

section \<open>Messages\<close>

record zero_copy_message =
  zc_bytes :: byte_buf

definition ZeroCopyMessage_new :: "('t, 'a) rkyv \<Rightarrow> nat \<Rightarrow> 't \<Rightarrow> zero_copy_message result" where
  "ZeroCopyMessage_new K addr v =
     (case encode_rkyv K addr v of Inl e \<Rightarrow> Inl e | Inr b \<Rightarrow> Ok \<lparr>zc_bytes = b\<rparr>)"

definition as_bytes :: "zero_copy_message \<Rightarrow> u8 list" where
  "as_bytes m = buf_bytes (zc_bytes m)"

definition into_bytes :: "zero_copy_message \<Rightarrow> byte_buf" where
  "into_bytes m = zc_bytes m"

definition ZeroCopyMessage_from_bytes :: "('t, 'a) rkyv \<Rightarrow> byte_buf \<Rightarrow> zero_copy_message result" where
  "ZeroCopyMessage_from_bytes K b =
     (case map_err ''rkyv validation failed: '' (rk_access K b) of
        Inl e \<Rightarrow> Inl e
      | Inr _ \<Rightarrow> Ok \<lparr>zc_bytes = b\<rparr>)"

definition zc_decode :: "('t, 'a) rkyv \<Rightarrow> zero_copy_message \<Rightarrow> 't result" where
  "zc_decode K m = decode_rkyv K (zc_bytes m)"

definition zc_decode_ref :: "('t, 'a) rkyv \<Rightarrow> zero_copy_message \<Rightarrow> 'a result" where
  "zc_decode_ref K m = decode_rkyv_ref K (zc_bytes m)"

definition zc_len :: "zero_copy_message \<Rightarrow> nat" where
  "zc_len m = length (buf_bytes (zc_bytes m))"

definition zc_is_empty :: "zero_copy_message \<Rightarrow> bool" where
  "zc_is_empty m = (buf_bytes (zc_bytes m) = [])"

section \<open>Latency\<close>

record serialization_latency =
  encode_ns :: u64
  decode_ns :: u64
  decode_ref_ns :: u64
  payload_bytes :: nat

text \<open>
  The six readings of \<open>Instant::now\<close> come in order; a difference saturates at zero and is
  cut to 64 bits.
\<close>

definition elapsed_ns :: "instant \<Rightarrow> instant \<Rightarrow> u64" where
  "elapsed_ns start stop = of_nat (stop - start)"

definition measure_latency ::
  "('t, 'a) rkyv \<Rightarrow> (nat \<Rightarrow> instant) \<Rightarrow> nat \<Rightarrow> 't \<Rightarrow> serialization_latency result" where
  "measure_latency K now addr v =
     (case encode_rkyv K addr v of
        Inl e \<Rightarrow> Inl e
      | Inr b \<Rightarrow>
          (case decode_rkyv K b of
             Inl e \<Rightarrow> Inl e
           | Inr _ \<Rightarrow>
               (case decode_rkyv_ref K b of
                  Inl e \<Rightarrow> Inl e
                | Inr _ \<Rightarrow>
                    Ok \<lparr>encode_ns = elapsed_ns (now 0) (now 1), decode_ns = elapsed_ns (now 2) (now 3),
                        decode_ref_ns = elapsed_ns (now 4) (now 5),
                        payload_bytes = length (buf_bytes b)\<rparr>)))"

section \<open>What the archive format promises\<close>

text \<open>
  Bytes that were produced for a value are read back as that value, provided the buffer
  is aligned for the archived type; a buffer that is not is refused by the validation.
\<close>

locale rkyv_format =
  fixes K :: "('t, 'a) rkyv" and archive :: "'t \<Rightarrow> 'a" and align :: nat
  assumes access_aligned: "rk_to_bytes K v = Inr bs \<Longrightarrow> align dvd addr \<Longrightarrow>
      rk_access K \<lparr>buf_addr = addr, buf_bytes = bs\<rparr> = Inr (archive v)"
    and from_aligned: "rk_to_bytes K v = Inr bs \<Longrightarrow> align dvd addr \<Longrightarrow>
      rk_from_bytes K \<lparr>buf_addr = addr, buf_bytes = bs\<rparr> = Inr v"
    and access_misaligned: "\<not> align dvd buf_addr b \<Longrightarrow> \<exists>e. rk_access K b = Inl e"
    and from_misaligned: "\<not> align dvd buf_addr b \<Longrightarrow> \<exists>e. rk_from_bytes K b = Inl e"
begin

lemma new_message:
  assumes "ZeroCopyMessage_new K addr v = Ok m"
  shows "\<exists>bs. rk_to_bytes K v = Inr bs \<and> zc_bytes m = \<lparr>buf_addr = addr, buf_bytes = bs\<rparr>"
  using assms by (cases "rk_to_bytes K v") (auto simp: ZeroCopyMessage_new_def encode_rkyv_def map_err_def)

lemma aligned_roundtrip:
  assumes "ZeroCopyMessage_new K addr v = Ok m" and "align dvd addr"
  shows "zc_decode K m = Ok v" and "zc_decode_ref K m = Ok (archive v)"
    and "ZeroCopyMessage_from_bytes K (into_bytes m) = Ok m"
proof -
  obtain bs where b: "rk_to_bytes K v = Inr bs" "zc_bytes m = \<lparr>buf_addr = addr, buf_bytes = bs\<rparr>"
    using new_message [OF assms(1)] by blast
  show "zc_decode K m = Ok v" "zc_decode_ref K m = Ok (archive v)" "ZeroCopyMessage_from_bytes K (into_bytes m) = Ok m"
    using access_aligned [OF b(1) assms(2)] from_aligned [OF b(1) assms(2)] b(2)
    by (simp_all add: zc_decode_def decode_rkyv_def zc_decode_ref_def decode_rkyv_ref_def ZeroCopyMessage_from_bytes_def
        into_bytes_def map_err_def)
qed

lemma misaligned_unreadable:
  assumes "ZeroCopyMessage_new K addr v = Ok m" and "\<not> align dvd addr"
  shows "\<not> is_ok (zc_decode K m)" and "\<not> is_ok (zc_decode_ref K m)"
    and "\<not> is_ok (ZeroCopyMessage_from_bytes K (into_bytes m))"
proof -
  have b: "buf_addr (zc_bytes m) = addr" using new_message [OF assms(1)] by auto
  obtain e e' where "rk_access K (zc_bytes m) = Inl e" "rk_from_bytes K (zc_bytes m) = Inl e'"
    using access_misaligned [of "zc_bytes m"] from_misaligned [of "zc_bytes m"] assms(2) b by auto
  then show "\<not> is_ok (zc_decode K m)" "\<not> is_ok (zc_decode_ref K m)"
    "\<not> is_ok (ZeroCopyMessage_from_bytes K (into_bytes m))"
    by (simp_all add: zc_decode_def decode_rkyv_def zc_decode_ref_def decode_rkyv_ref_def ZeroCopyMessage_from_bytes_def
        into_bytes_def map_err_def)
qed

end

text \<open>An archive format for \<open>u64\<close>: its eight bytes, aligned to eight.\<close>

definition standin_rkyv :: "(u64, u64) rkyv" where
  "standin_rkyv =
     (let rd = (\<lambda>b. if 8 dvd buf_addr b \<and> length (buf_bytes b) = 8 then Inr (from_le_bytes (buf_bytes b))
                    else Inl [Str ''invalid''])
      in \<lparr>rk_to_bytes = (\<lambda>v. Inr (to_le_bytes v)), rk_from_bytes = rd, rk_access = rd\<rparr>)"

interpretation standin_rkyv: rkyv_format standin_rkyv id 8
  by unfold_locales (auto simp: standin_rkyv_def Let_def)

section \<open>Properties\<close>



end
