(* ===== verification/Spec2Isabelle.thy ===== *)
theory Spec2Isabelle
  imports Rt_Prelude Core_Types Floats Supervisor Supervisor_Window Supervisor_Spec Supervisor_Tree Supervisor_Handle Degradation
    Mailbox Registry Work_Queue Scheduler Worker Worker_Correct Worker_Suspension Scheduler_Correct
    Memory_Pool Pool_Safety Loom_Mailbox Loom_Roundtrip Actor_Handle Rpc Rpc_Correct
    Sim_Base Sim Sim_Identity Sim_Pipeline Sim_Supervision Sim_Invariant Sim_Delivery Sim_Workload Sim_Processing
    Sim_Start Sim_Crash Sim_Run Sim_Quiescence Sim_Correct Worker_Timeless Sim_Determinism Zero_Copy
begin

text \<open>
  A verification of \<open>actor-kit\<close>, a work-stealing actor runtime in Rust with OTP-style
  supervision. File names below are relative to \<open>src/src\<close>.

  \<^bold>\<open>The program.\<close> Actors are entries of a registry (\<open>registry.rs\<close>): an identity, a state
  and a bounded mailbox (\<open>mailbox.rs\<close>). A sender goes through the scheduler
  (\<open>scheduler.rs\<close>) or a handle on it (\<open>handle.rs\<close>): the message is stored in the mailbox of
  its target, which takes one permit of a semaphore, and a task is pushed to one of the
  queues of \<open>queue.rs\<close>. Workers take tasks from the priority queue, their own deque, the
  global injector or another worker, look the actor up, give the mailbox slot back and run
  the host's executor (\<open>executor.rs\<close>) inside a panic guard. Supervisors (\<open>supervisor.rs\<close>)
  are data: exits are reported to them, and they answer with restarts, stops or
  escalations. Beside this core stand request and response calls (\<open>rpc.rs\<close>), a bump
  allocator (\<open>memory_pool.rs\<close>), a zero-copy message path (\<open>zero_copy\<close>), a model of the
  mailbox protocol for exhaustive interleaving (\<open>loom_mailbox.rs\<close>) and a deterministic
  simulator with fault injection (\<open>sim\<close>) that runs the production registry, mailbox,
  message pipeline and supervisor tree in virtual time.

  \<^bold>\<open>Conventions.\<close> Structs are records, enums are datatypes, \<open>u8\<close> to \<open>u64\<close> and \<open>usize\<close> are
  words, durations and instants are natural numbers of nanoseconds, \<open>f32\<close> and \<open>f64\<close> are
  the binary floating point numbers of \<open>Floats\<close>. Fallible functions return a sum, \<open>Err\<close> on
  the left; where the code can panic or wait, the result is an option and \<open>None\<close> is the
  panic or the pending poll, as the text beside the definition says. A \<open>HashMap\<close> is an
  association list with distinct keys. Wall clocks, monotonic clocks and minted UUIDs are
  arguments. Code of other crates is a record of functions that the definitions take as
  their first argument (\<open>ext\<close>, \<open>rg_ext\<close>, \<open>sch_ext\<close>, \<open>xoshiro\<close>, \<open>rkyv\<close>, the codecs of
  \<open>Rpc\<close>), and a locale per interface states the documented laws that proofs rely on. Each
  such locale is interpreted on a concrete stand-in, and witnesses run on it.

  \<^bold>\<open>Theories and what their lemmas show.\<close>

  \<^item> \<open>Rt_Prelude\<close>: machine integers with Rust's saturating and truncating operations, hash
    maps, and the locales \<open>keyed_store\<close>, \<open>event_machine\<close> (invariants over sequences of
    calls) and \<open>simulation\<close> (refinement over sequences of calls). \<open>Core_Types\<close>: \<open>lib.rs\<close>,
    \<open>error.rs\<close>, \<open>executor.rs\<close>, \<open>policy.rs\<close>. \<open>Floats\<close>: rounding, comparison and conversion.

  \<^item> \<open>Supervisor\<close>, \<open>Supervisor_Window\<close>, \<open>Supervisor_Tree\<close>, \<open>Supervisor_Handle\<close>: one supervisor
    and the tree of them. Tables stay well formed over any sequence of calls; an exit is
    answered by policy, strategy and budget; granted restarts touch exactly the children in
    scope and never exceed the rate limit in any window of a run; a tree stays a tree, a
    terminated subtree is removed exactly, depth is the longest path. The recursive walks
    take the number of supervisors as fuel, which is proved to be enough.
    \<open>Supervisor_Spec\<close> translates the abstract model that the repository keeps in
    \<open>spec/supervisor.qnt\<close> and shows that, while clock readings stay within one window, the
    one-for-one supervisor follows it and keeps its invariants; once the window has passed,
    the model's claim that an escalated child is gone for good is refuted.
    \<open>Degradation\<close>: resource monitors and the batch size controller.

  \<^item> \<open>Mailbox\<close>, \<open>Registry\<close>: the mailbox refines a bounded queue with two lanes, size, permits
    and capacity add up, and a parked receiver is woken; the two tables of the registry stay
    inverse to each other.

  \<^item> \<open>Work_Queue\<close>, \<open>Scheduler\<close>, \<open>Worker\<close> with \<open>Worker_Correct\<close>, \<open>Worker_Suspension\<close> and
    \<open>Scheduler_Correct\<close>: the priority queue refines a list per level, batch stealing loses
    no task, a message has exactly the effect its verdict asks for on its own actor and none
    on any other, panics are contained, a sent message is executed by the next turn of a
    worker, and the corners where this breaks (messages skipped by the drain after a resume,
    a pause behind a resume that never ends, batches that are stored in part). Retry loops
    over crossbeam's \<open>Retry\<close> answers and the drain are partial functions into options; that
    they return, or do not, is proved.

  \<^item> \<open>Memory_Pool\<close>, \<open>Pool_Safety\<close>: blocks never overlap each other, the free list or the end
    of the arena, up to the request sizes at which the size computation wraps.
    \<open>Loom_Mailbox\<close>: interleavings of senders and a receiver as an inductive relation;
    capacity is conserved, every schedule ends, no wakeup is lost, and the broken order of
    check and registration loses one. \<open>Loom_Roundtrip\<close>: with room for all, the handshake and
    bounded retries with a final drain end with each message received once. \<open>Actor_Handle\<close>, \<open>Rpc\<close>, \<open>Rpc_Correct\<close>: handles, the wire
    format, a call through a handler and back, expiry. \<open>Zero_Copy\<close>: the \<open>rkyv\<close> path, whose
    decoding depends on the alignment of the buffer the bytes were copied to.

  \<^item> \<open>Sim_Base\<close> (\<open>sim/clock.rs\<close>, \<open>sim/faults.rs\<close>, \<open>sim/executor.rs\<close>, \<open>sim/scheduler.rs\<close>) and
    \<open>Sim\<close> (\<open>sim/mod.rs\<close>): the simulator, every operation as a function on the record \<open>sim\<close>
    that returns \<open>None\<close> where the code panics, failed audits included. \<open>Sim_Identity\<close>:
    derived identities and the trace encoding. \<open>Sim_Pipeline\<close> and \<open>Sim_Supervision\<close> restate
    what the production components do in the terms of the simulator's ledger.
    \<open>Sim_Invariant\<close> states the invariant of the world over the deliveries in flight and
    the tasks in the ready set; \<open>Sim_Delivery\<close>, \<open>Sim_Workload\<close>, \<open>Sim_Processing\<close>,
    \<open>Sim_Crash\<close> and \<open>Sim_Start\<close> show that each operation keeps it and does not panic, and
    that the work left decreases; \<open>Sim_Run\<close>, \<open>Sim_Quiescence\<close> and \<open>Sim_Correct\<close> conclude:
    the audits of the simulator never fail, runs come to rest in a bounded number of rounds
    under every fault, since every timer is due by a fixed tick, at rest every message is
    accounted for, and without faults every message is processed exactly once.
    \<open>Worker_Timeless\<close> and \<open>Sim_Determinism\<close> show by a noninterference argument that a run
    is a function of its seed and configuration: clocks and minted identities flow into
    recorded activity times and the supervisor tree, and nothing flows back.

  \<^bold>\<open>Bounds.\<close> Theorems about the simulator ask for fewer than \<open>2 ^ 20\<close> messages (so that an
  actor has fewer than \<open>2 ^ 21\<close> incarnations, where derived identities start to collide),
  at least one and at most \<open>2 ^ 32\<close> actors, a mailbox configuration as \<open>Mailbox\<close> needs it, a
  delay range other than all of \<open>u64\<close> (its length wraps to zero) and clock readings within
  the one hour window of the simulator's supervisor. Loops of the simulator recurse on
  the counter of the loop or on the timer heap, which every turn shortens. Processing a
  task takes fuel for the drain after a resume; tasks of the simulator contain no resume.

  \<^bold>\<open>Not modelled.\<close> The \<open>Actor\<close> trait (its implementations are the host's), logging,
  most \<open>Debug\<close> and \<open>Hash\<close> implementations, re-exports, the timer that drives the cleanup
  task of \<open>rpc.rs\<close> (its sweeps are modelled), memory orderings weaker than sequential
  consistency, the time that sleeping and spinning take, accessors that are the
  fields of a record, and the unit tests, integration tests and benchmarks.
\<close>

end
